(* ===== verification/Urd_Prelude.thy ===== *)
theory Urd_Prelude
  imports Main "HOL-Library.Word" "HOL-Library.Signed_Division"
    "HOL-Library.List_Lexorder" "HOL-Library.Char_ord"
begin

text \<open>
  Shared vocabulary of the development.

  The program is written in Go. Its values are modelled as follows.
  \<^item> \<open>byte\<close> / \<open>[]byte\<close>: \<open>8 word\<close> and lists of it. Where the source tests a slice
    against \<open>nil\<close> the model uses \<open>bytes option\<close> (\<open>None\<close> is \<open>nil\<close>), and
    \<open>slice_bytes\<close> gives the content the comparison \<open>bytes.Equal\<close> looks at.
  \<^item> \<open>string\<close>: HOL strings; Go orders strings lexicographically by byte, which is the
    order of \<open>List_Lexorder\<close> over \<open>Char_ord\<close>.
  \<^item> \<open>int\<close>, \<open>int64\<close>, \<open>int32\<close> used as counters, sizes and indices: \<open>int\<close>. Go's
    \<open>/\<close> and \<open>%\<close> truncate towards zero: \<open>sdiv\<close> and \<open>smod\<close>.
  \<^item> fixed-width data whose wrap-around matters: \<open>'w word\<close>.
  \<^item> an operation that returns an \<open>error\<close> is a function into \<open>'e + 'a\<close>, \<open>Inl\<close>
    the error; a call that may panic or not return is a function into \<open>option\<close>,
    \<open>None\<close> standing for the call that does not return normally.
\<close>

unbundle bit_operations_syntax

section \<open>Types\<close>

type_synonym byte = "8 word"
type_synonym bytes = "byte list"
type_synonym uint32 = "32 word"

definition slice_bytes :: "bytes option \<Rightarrow> bytes" where
  "slice_bytes s = (case s of None \<Rightarrow> [] | Some b \<Rightarrow> b)"

text \<open>The conversions \<open>[]byte(s)\<close> and \<open>string(bz)\<close> of the language.\<close>

definition byte_of_char :: "char \<Rightarrow> byte" where
  "byte_of_char c = of_nat (of_char c)"

definition char_of_byte :: "byte \<Rightarrow> char" where
  "char_of_byte b = char_of (unat b)"

definition bytes_of_string :: "string \<Rightarrow> bytes" where
  "bytes_of_string s = map byte_of_char s"

definition string_of_bytes :: "bytes \<Rightarrow> string" where
  "string_of_bytes b = map char_of_byte b"

text \<open>
  \<open>xs[i]\<close> with Go's bounds check: \<open>None\<close> is the index panic.
\<close>

definition index :: "'a list \<Rightarrow> int \<Rightarrow> 'a option" where
  "index xs i = (if 0 \<le> i \<and> i < int (length xs) then Some (xs ! nat i) else None)"

section \<open>Collections and shared lemmas\<close>

named_theorems slice_simps \<open>rewrite rules for slices, indices and conversions\<close>
named_theorems wf_intros \<open>introduction rules for the well-formedness invariants\<close>

lemma slice_bytes_simps [simp]:
  "slice_bytes None = []" "slice_bytes (Some b) = b"
  by (simp_all add: slice_bytes_def)

lemma char_of_byte_inverse [simp, slice_simps]: "char_of_byte (byte_of_char c) = c"
proof -
  have "of_char c < (256::nat)" by (cases c) simp
  then have "unat (of_nat (of_char c) :: byte) = of_char c"
    by (simp add: unat_of_nat)
  then show ?thesis by (simp add: char_of_byte_def byte_of_char_def)
qed

lemma byte_of_char_inverse [simp, slice_simps]: "byte_of_char (char_of_byte b) = b"
proof -
  have "unat b < 256" using unsigned_less [of b, where ?'a = nat] by simp
  then have "of_char (char_of (unat b)) = unat b" by simp
  then show ?thesis by (simp add: char_of_byte_def byte_of_char_def)
qed

lemma string_of_bytes_of_string [simp, slice_simps]: "string_of_bytes (bytes_of_string s) = s"
  by (simp add: string_of_bytes_def bytes_of_string_def o_def)

lemma bytes_of_string_of_bytes [simp, slice_simps]: "bytes_of_string (string_of_bytes b) = b"
  by (simp add: string_of_bytes_def bytes_of_string_def o_def)

lemma bytes_of_string_eq_iff [simp]: "bytes_of_string s = bytes_of_string t \<longleftrightarrow> s = t"
  by (metis string_of_bytes_of_string)

lemma length_bytes_of_string [simp]: "length (bytes_of_string s) = length s"
  by (simp add: bytes_of_string_def)

lemma index_nth [slice_simps]: "i < length xs \<Longrightarrow> index xs (int i) = Some (xs ! i)"
  by (simp add: index_def)

lemma index_eq_Some [slice_simps]:
  "index xs i = Some x \<longleftrightarrow> 0 \<le> i \<and> i < int (length xs) \<and> x = xs ! nat i"
  by (auto simp: index_def)

lemma index_eq_None: "index xs i = None \<longleftrightarrow> i < 0 \<or> int (length xs) \<le> i"
  by (auto simp: index_def)

end
