(* ===== verification/Convert.thy ===== *)
theory Convert
  imports Urd_Prelude
begin

text \<open>
  The byte-level helpers of \<open>src/source/utils\<close>: integer conversion (\<open>convert.go\<close>),
  splitting a byte array into parts (\<open>compare-bytes.go\<close>) and the string-list tests and
  vote codes of \<open>flag.go\<close>. The lemmas show that decoding inverts encoding at every width
  and that splitting loses and reorders nothing.
\<close>

section \<open>Integer conversion\<close>

text \<open>
  The dynamic types an \<open>any\<close> argument of \<open>IntToBytes\<close> and \<open>BytesToInt\<close> is switched
  on. \<open>OtherNum\<close> is every other dynamic type, Go's plain \<open>int\<close> among them.
\<close>

datatype go_num =
    Int8 "8 word" | Uint8 "8 word"
  | Int16 "16 word" | Uint16 "16 word"
  | Int32 "32 word" | Uint32 "32 word"
  | Int64 "64 word" | Uint64 "64 word"
  | OtherNum

text \<open>
  \<open>PutUintN\<close> and \<open>UintN\<close> of \<open>encoding/binary\<close>'s little-endian order: byte \<open>i\<close>
  is \<open>byte(v >> 8*i)\<close>; reading panics on a short slice and ignores bytes beyond the width.
\<close>

definition put_le :: "nat \<Rightarrow> 'a::len word \<Rightarrow> bytes" where
  "put_le n v = map (\<lambda>i. ucast (drop_bit (8 * i) v)) [0..<n]"

definition join_le :: "bytes \<Rightarrow> 'a::len word" where
  "join_le bs = foldr (\<lambda>b acc. ucast b OR push_bit 8 acc) bs 0"

definition get_le :: "nat \<Rightarrow> bytes \<Rightarrow> 'a::len word option" where
  "get_le n bs = (if length bs < n then None else Some (join_le (take n bs)))"

fun IntToBytes :: "go_num \<Rightarrow> bytes option" where
  "IntToBytes (Int8 v) = Some [v]"
| "IntToBytes (Uint8 v) = Some [v]"
| "IntToBytes (Int16 v) = Some (put_le 2 v)"
| "IntToBytes (Uint16 v) = Some (put_le 2 v)"
| "IntToBytes (Int32 v) = Some (put_le 4 v)"
| "IntToBytes (Uint32 v) = Some (put_le 4 v)"
| "IntToBytes (Int64 v) = Some (put_le 8 v)"
| "IntToBytes (Uint64 v) = Some (put_le 8 v)"
| "IntToBytes OtherNum = None"

text \<open>
  \<open>None\<close> is the index panic on a short slice; the unsupported type returns \<open>nil\<close>,
  which is \<open>Some OtherNum\<close>.
\<close>

fun BytesToInt :: "bytes \<Rightarrow> go_num \<Rightarrow> go_num option" where
  "BytesToInt data (Int8 _) = map_option Int8 (index data 0)"
| "BytesToInt data (Uint8 _) = map_option Uint8 (index data 0)"
| "BytesToInt data (Int16 _) = map_option Int16 (get_le 2 data)"
| "BytesToInt data (Uint16 _) = map_option Uint16 (get_le 2 data)"
| "BytesToInt data (Int32 _) = map_option Int32 (get_le 4 data)"
| "BytesToInt data (Uint32 _) = map_option Uint32 (get_le 4 data)"
| "BytesToInt data (Int64 _) = map_option Int64 (get_le 8 data)"
| "BytesToInt data (Uint64 _) = map_option Uint64 (get_le 8 data)"
| "BytesToInt data OtherNum = Some OtherNum"

definition BytesToUint32 :: "bytes \<Rightarrow> uint32 option" where
  "BytesToUint32 data = get_le 4 data"

definition Uint32ToBytes :: "uint32 \<Rightarrow> bytes" where
  "Uint32ToBytes num = put_le 4 num"

section \<open>Splitting and string tests\<close>

text \<open>
  The loop of \<open>SplitByteArray\<close>. \<open>None\<close>: the slice expression \<open>data[i:end]\<close> panics
  (negative \<open>size\<close>) or the loop never ends (\<open>size = 0\<close>).
\<close>

partial_function (option) split_loop :: "bytes \<Rightarrow> int \<Rightarrow> int \<Rightarrow> bytes list \<Rightarrow> bytes list option" where
  "split_loop data sz i result =
     (if i < int (length data) then
        (let e = (if i + sz > int (length data) then int (length data) else i + sz)
         in if 0 \<le> i \<and> i \<le> e
            then split_loop data sz (i + sz)
                   (result @ [take (nat (e - i)) (drop (nat i) data)])
            else None)
      else Some result)"

definition SplitByteArray :: "bytes \<Rightarrow> int \<Rightarrow> bytes list option" where
  "SplitByteArray data sz = split_loop data sz 0 []"

fun StrIn :: "string \<Rightarrow> string list \<Rightarrow> bool" where
  "StrIn s [] = False"
| "StrIn s (str # strs) = (if s = str then True else StrIn s strs)"

fun str_equal_loop :: "string list \<Rightarrow> string list \<Rightarrow> bool" where
  "str_equal_loop (x # xs) (y # ys) = (if x \<noteq> y then False else str_equal_loop xs ys)"
| "str_equal_loop _ _ = True"

definition StrEqual :: "string list \<Rightarrow> string list \<Rightarrow> bool" where
  "StrEqual str1 str2 =
     (if length str1 \<noteq> length str2 then False else str_equal_loop str1 str2)"

text \<open>The reference for splitting: consecutive chunks of \<open>n\<close> elements.\<close>

fun chunks :: "nat \<Rightarrow> 'a list \<Rightarrow> 'a list list" where
  "chunks n xs = (if n = 0 \<or> xs = [] then [] else take n xs # chunks n (drop n xs))"

declare chunks.simps [simp del]

section \<open>Lemmas\<close>

lemma length_put_le [simp]: "length (put_le n v) = n"
  by (simp add: put_le_def)

lemma bit_join_le:
  "bit (join_le bs :: 'a::len word) k \<longleftrightarrow>
     k < LENGTH('a) \<and> k < 8 * length bs \<and> bit (bs ! (k div 8)) (k mod 8)"
proof (induction bs arbitrary: k)
  case Nil
  then show ?case by (simp add: join_le_def)
next
  case (Cons b bs)
  have step: "bit (join_le (b # bs) :: 'a word) k \<longleftrightarrow>
      k < LENGTH('a) \<and> (bit b k \<or> 8 \<le> k \<and> bit (join_le bs :: 'a word) (k - 8))"
    by (auto simp: join_le_def bit_simps)
  show ?case
  proof (cases "k < 8")
    case True
    then show ?thesis by (auto simp: step)
  next
    case False
    then have "\<not> bit b k" by (auto dest: bit_imp_le_length)
    moreover have "(b # bs) ! (k div 8) = bs ! ((k - 8) div 8)" "(k - 8) mod 8 = k mod 8"
      using False by (auto simp: nth_Cons' le_div_geq le_mod_geq not_less)
    ultimately show ?thesis
      using False by (auto simp: step Cons.IH)
  qed
qed

lemma join_put_le:
  fixes v :: "'a::len word"
  assumes "LENGTH('a) = 8 * n"
  shows "join_le (put_le n v) = v"
proof (rule bit_word_eqI)
  fix k assume k: "k < LENGTH('a)"
  then have "k div 8 < n" using assms by auto
  then have "put_le n v ! (k div 8) = ucast (drop_bit (8 * (k div 8)) v)"
    by (simp add: put_le_def)
  then show "bit (join_le (put_le n v) :: 'a word) k = bit v k"
    using k assms by (simp add: bit_join_le bit_simps)
qed

lemma get_put_le [slice_simps]:
  fixes v :: "'a::len word"
  shows "LENGTH('a) = 8 * n \<Longrightarrow> get_le n (put_le n v @ rest) = Some v"
  by (simp add: get_le_def join_put_le)

lemma get_put_le_exact [slice_simps]:
  fixes v :: "'a::len word"
  shows "LENGTH('a) = 8 * n \<Longrightarrow> get_le n (put_le n v) = Some v"
  using get_put_le [of n v "[]"] by simp

lemma put_join_le:
  fixes v :: "'a::len word"
  assumes "LENGTH('a) = 8 * n" and "length bs = n"
  shows "put_le n (join_le bs :: 'a word) = bs"
proof (rule nth_equalityI)
  show "length (put_le n (join_le bs :: 'a word)) = length bs" by (simp add: assms)
next
  fix i assume "i < length (put_le n (join_le bs :: 'a word))"
  then have i: "i < n" by simp
  show "put_le n (join_le bs :: 'a word) ! i = bs ! i"
  proof (rule bit_word_eqI)
    fix k assume "k < LENGTH(8)"
    then have k: "k < 8" by simp
    then have "(8 * i + k) div 8 = i" "(8 * i + k) mod 8 = k" by auto
    then show "bit (put_le n (join_le bs :: 'a word) ! i) k = bit (bs ! i) k"
      using i k assms by (simp add: put_le_def bit_join_le bit_simps)
  qed
qed

lemma BytesToUint32_Uint32ToBytes [simp]: "BytesToUint32 (Uint32ToBytes v) = Some v"
  by (simp add: BytesToUint32_def Uint32ToBytes_def get_put_le_exact)

lemma Uint32ToBytes_BytesToUint32:
  "length bs = 4 \<Longrightarrow> BytesToUint32 bs = Some v \<Longrightarrow> Uint32ToBytes v = bs"
  by (auto simp: BytesToUint32_def Uint32ToBytes_def get_le_def put_join_le split: if_splits)

lemma length_Uint32ToBytes [simp]: "length (Uint32ToBytes v) = 4"
  by (simp add: Uint32ToBytes_def)

lemma StrIn_iff [simp]: "StrIn s strs \<longleftrightarrow> s \<in> set strs"
  by (induction strs) auto

lemma str_equal_loop_iff: "length xs = length ys \<Longrightarrow> str_equal_loop xs ys \<longleftrightarrow> xs = ys"
  by (induction xs ys rule: str_equal_loop.induct) auto

lemma StrEqual_iff [simp]: "StrEqual xs ys \<longleftrightarrow> xs = ys"
  by (auto simp: StrEqual_def str_equal_loop_iff)

lemma chunks_Nil [simp]: "chunks n [] = []"
  by (simp add: chunks.simps)

lemma concat_chunks: "0 < n \<Longrightarrow> concat (chunks n xs) = xs"
proof (induction n xs rule: chunks.induct)
  case (1 n xs)
  then show ?case by (cases "xs = []") (simp_all add: chunks.simps [of n xs])
qed

lemma chunks_bounds: "c \<in> set (chunks n xs) \<Longrightarrow> c \<noteq> [] \<and> length c \<le> n"
proof (induction n xs rule: chunks.induct)
  case (1 n xs)
  then show ?case by (cases "n = 0 \<or> xs = []") (auto simp: chunks.simps [of n xs])
qed

lemma length_chunks: "0 < n \<Longrightarrow> length (chunks n xs) = (length xs + n - 1) div n"
proof (induction n xs rule: chunks.induct)
  case (1 n xs)
  show ?case
  proof (cases "xs = []")
    case True
    then show ?thesis using "1.prems" by (simp add: chunks.simps [of n xs])
  next
    case False
    have IH: "length (chunks n (drop n xs)) = (length xs - n + n - 1) div n"
      using "1.IH" "1.prems" False by simp
    show ?thesis
    proof (cases "length xs \<le> n")
      case True
      have "(length xs + n - 1) div n = 1"
        using True False "1.prems" by (cases xs) (auto intro!: div_nat_eqI)
      then show ?thesis
        using False "1.prems" True by (simp add: chunks.simps [of n xs])
    next
      case gt: False
      then have eq: "length xs + n - 1 = (length xs - n + n - 1) + n" by linarith
      have "(length xs + n - 1) div n = Suc ((length xs - n + n - 1) div n)"
        unfolding eq using "1.prems" by (subst div_add_self2) simp_all
      then show ?thesis
        using IH False "1.prems" by (simp add: chunks.simps [of n xs])
    qed
  qed
qed

lemma chunks_full:
  "Suc i < length (chunks n xs) \<Longrightarrow> length (chunks n xs ! i) = n"
proof (induction n xs arbitrary: i rule: chunks.induct)
  case (1 n xs)
  then have ne: "n \<noteq> 0" "xs \<noteq> []" by (auto simp: chunks.simps [of n xs] split: if_splits)
  then have eq: "chunks n xs = take n xs # chunks n (drop n xs)" by (simp add: chunks.simps [of n xs])
  show ?case
  proof (cases i)
    case 0
    with "1.prems" eq have "chunks n (drop n xs) \<noteq> []" by auto
    then have "n < length xs" by (auto simp: chunks.simps [of n "drop n xs"] split: if_splits)
    then show ?thesis using 0 by (simp add: eq)
  next
    case (Suc j)
    then show ?thesis using "1.IH" "1.prems" ne by (simp add: eq)
  qed
qed

lemma split_loop_chunks:
  assumes "0 < sz" and "0 \<le> i"
  shows "split_loop data sz i result = Some (result @ chunks (nat sz) (drop (nat i) data))"
  using assms(2)
proof (induction "nat (int (length data) - i)" arbitrary: i result rule: less_induct)
  case less
  show ?case
  proof (cases "i < int (length data)")
    case False
    then show ?thesis by (simp add: split_loop.simps [of data sz i])
  next
    case True
    let ?e = "if i + sz > int (length data) then int (length data) else i + sz"
    let ?c = "take (nat (?e - i)) (drop (nat i) data)"
    have c: "?c = take (nat sz) (drop (nat i) data)"
      using True assms(1) less.prems by auto
    have "split_loop data sz i result = split_loop data sz (i + sz) (result @ [?c])"
      using True assms(1) less.prems by (simp add: split_loop.simps [of data sz i] Let_def)
    also have "\<dots> = Some ((result @ [?c]) @ chunks (nat sz) (drop (nat (i + sz)) data))"
      by (rule less.hyps) (use True assms(1) less.prems in auto)
    also have "\<dots> = Some (result @ chunks (nat sz) (drop (nat i) data))"
      using True assms(1) less.prems c
      by (simp add: chunks.simps [of "nat sz" "drop (nat i) data"] nat_add_distrib add.commute)
    finally show ?thesis .
  qed
qed

lemma SplitByteArray_chunks: "0 < sz \<Longrightarrow> SplitByteArray data sz = Some (chunks (nat sz) data)"
  by (simp add: SplitByteArray_def split_loop_chunks)

lemma split_loop_zero:
  assumes "split_loop data sz i result = Some r"
  shows "\<not> (sz = 0 \<and> i < int (length data))"
proof (rule split_loop.raw_induct
    [where P = "\<lambda>data sz i result r. \<not> (sz = 0 \<and> i < int (length data))", OF _ assms])
  fix f :: "bytes \<Rightarrow> int \<Rightarrow> int \<Rightarrow> bytes list \<Rightarrow> bytes list option" and data sz i result r
  assume IH: "\<And>data sz i result r.
      f data sz i result = Some r \<Longrightarrow> \<not> (sz = 0 \<and> i < int (length data))"
    and eq: "(if i < int (length data) then
        (let e = (if i + sz > int (length data) then int (length data) else i + sz)
         in if 0 \<le> i \<and> i \<le> e
            then f data sz (i + sz) (result @ [take (nat (e - i)) (drop (nat i) data)])
            else None)
      else Some result) = Some r"
  show "\<not> (sz = 0 \<and> i < int (length data))"
  proof
    assume "sz = 0 \<and> i < int (length data)"
    with eq have "f data 0 i (result @ [[]]) = Some r"
      by (simp add: Let_def split: if_splits)
    with IH [of data 0 i] \<open>sz = 0 \<and> i < int (length data)\<close> show False by blast
  qed
qed

section \<open>Properties\<close>

text \<open>
  Decoding the bytes of an integer at the integer's own type gives the integer back,
  at every width and signedness the two functions support.
\<close>

theorem IntToBytes_roundtrip:
  assumes "IntToBytes v = Some bs"
  shows "BytesToInt bs v = Some v"
  using assms by (cases v) (auto simp: get_put_le_exact index_def)

theorem IntToBytes_roundtrip_witness:
  "BytesToInt (put_le 4 (258 :: 32 word)) (Int32 258) = Some (Int32 258)"
  by (rule IntToBytes_roundtrip) simp

text \<open>
  For a positive part size, \<open>SplitByteArray\<close> returns, its parts put together are the
  data, no part is empty or longer than the size, every part but the last is full, and there
  are as many as needed.
\<close>

theorem SplitByteArray_correct:
  assumes "0 < sz"
  shows "\<exists>parts. SplitByteArray data sz = Some parts \<and> concat parts = data
     \<and> (\<forall>p\<in>set parts. p \<noteq> [] \<and> length p \<le> nat sz)
     \<and> (\<forall>i. Suc i < length parts \<longrightarrow> length (parts ! i) = nat sz)
     \<and> length parts = (length data + nat sz - 1) div nat sz"
  using assms
  by (auto simp: SplitByteArray_chunks concat_chunks length_chunks chunks_full dest: chunks_bounds)

theorem SplitByteArray_correct_witness:
  "\<exists>parts. SplitByteArray [1, 2, 3, 4, 5] 2 = Some parts \<and> concat parts = [1, 2, 3, 4, 5]
     \<and> (\<forall>p\<in>set parts. p \<noteq> [] \<and> length p \<le> nat 2)
     \<and> (\<forall>i. Suc i < length parts \<longrightarrow> length (parts ! i) = nat 2)
     \<and> length parts = (length [1, 2, 3, 4, 5 :: byte] + nat 2 - 1) div nat 2"
  by (rule SplitByteArray_correct) simp

end
