(* ===== verification/Bit_Vector.thy ===== *)
theory Bit_Vector
  imports Urd_Prelude
begin

text \<open>
  The bit vector of \<open>src/source/utils/bit-vector.go\<close>, which records the signers of an
  aggregated vote, and the integer helpers of \<open>libs/math/math.go\<close> it calls. A pointer
  \<open>*BitVector\<close> is an option, \<open>None\<close> the nil pointer on which the methods are defined;
  the outer option of a result is the index panic.
\<close>

section \<open>Model\<close>

record BitVector =
  Bits :: int
  Elems :: "byte list"

definition MaxInt :: "int \<Rightarrow> int \<Rightarrow> int" where
  "MaxInt a b = (if a > b then a else b)"

definition MinInt :: "int \<Rightarrow> int \<Rightarrow> int" where
  "MinInt a b = (if a < b then a else b)"

definition NewBitVector :: "int \<Rightarrow> BitVector option" where
  "NewBitVector bits =
     (if bits < 0 then None
      else Some \<lparr>Bits = bits, Elems = replicate (nat ((bits + 7) sdiv 8)) 0\<rparr>)"

text \<open>
  \<open>Byte\<close> writes the number of unused bits as an \<open>int8\<close>, then the elements. On the nil
  pointer it encodes \<open>NewBitVector(0)\<close>.
\<close>

definition Byte_of :: "BitVector \<Rightarrow> bytes" where
  "Byte_of bV =
     (let uselessBits = 8 * int (length (Elems bV)) - Bits bV
      in word_of_int uselessBits # Elems bV)"

definition Byte :: "BitVector option \<Rightarrow> bytes" where
  "Byte bV = (case bV of
      None \<Rightarrow> (case NewBitVector 0 of None \<Rightarrow> [] | Some z \<Rightarrow> Byte_of z)
    | Some b \<Rightarrow> Byte_of b)"

text \<open>The loop \<open>bv.Elems[i] = temp\<close> over the bytes after the first one.\<close>

fun fill_elems :: "BitVector option \<Rightarrow> bytes \<Rightarrow> nat \<Rightarrow> BitVector option option" where
  "fill_elems bv [] i = Some bv"
| "fill_elems bv (temp # rest) i =
     (case bv of
        None \<Rightarrow> None
      | Some b \<Rightarrow>
          if i < length (Elems b)
          then fill_elems (Some (b\<lparr>Elems := (Elems b)[i := temp]\<rparr>)) rest (Suc i)
          else None)"

definition NewBitArrayFromByte :: "bytes \<Rightarrow> BitVector option option" where
  "NewBitArrayFromByte buf = (case buf of
      [] \<Rightarrow> Some (NewBitVector 0)
    | uselessBits # rest \<Rightarrow>
        (let all = int (length rest) * 8 - sint uselessBits
         in fill_elems (NewBitVector all) rest 0))"

definition Size :: "BitVector option \<Rightarrow> int" where
  "Size bA = (case bA of None \<Rightarrow> 0 | Some b \<Rightarrow> Bits b)"

text \<open>
  \<open>uint8(1) << uint(k)\<close>: a negative \<open>k\<close> becomes a shift count beyond the width.
\<close>

definition shl1 :: "int \<Rightarrow> byte" where
  "shl1 k = (if k < 0 then 0 else push_bit (nat k) 1)"

definition GetIndex :: "BitVector option \<Rightarrow> int \<Rightarrow> bool option" where
  "GetIndex bA i = (case bA of
      None \<Rightarrow> Some False
    | Some b \<Rightarrow>
        if i \<ge> Bits b then Some False
        else map_option (\<lambda>e. 0 < (e AND shl1 (i smod 8))) (index (Elems b) (i sdiv 8)))"

fun count_loop :: "BitVector option \<Rightarrow> int \<Rightarrow> nat \<Rightarrow> int \<Rightarrow> int option" where
  "count_loop bA i 0 cnt = Some cnt"
| "count_loop bA i (Suc m) cnt =
     (case GetIndex bA i of
        None \<Rightarrow> None
      | Some b \<Rightarrow> count_loop bA (i + 1) m (if b then cnt + 1 else cnt))"

definition CountNoneZero :: "BitVector option \<Rightarrow> int option" where
  "CountNoneZero bA = count_loop bA 0 (nat (Size bA)) 0"

text \<open>\<open>SetIndex\<close> returns the vector after the update and the boolean result.\<close>

definition SetIndex :: "BitVector option \<Rightarrow> int \<Rightarrow> bool \<Rightarrow> (BitVector option \<times> bool) option" where
  "SetIndex bA i v = (case bA of
      None \<Rightarrow> Some (None, False)
    | Some b \<Rightarrow>
        if i \<ge> Bits b then Some (Some b, False)
        else (case index (Elems b) (i sdiv 8) of
            None \<Rightarrow> None
          | Some e \<Rightarrow>
              (let e' = (if v then e OR shl1 (i smod 8) else e AND NOT (shl1 (i smod 8)))
               in Some (Some (b\<lparr>Elems := (Elems b)[nat (i sdiv 8) := e']\<rparr>), True))))"

definition Copy :: "BitVector option \<Rightarrow> BitVector option" where
  "Copy bA = (case bA of None \<Rightarrow> NewBitVector 0 | Some b \<Rightarrow> Some b)"

text \<open>\<open>copy(c, bA.Elems)\<close> into a fresh slice of the size that \<open>bits\<close> bits need.\<close>

definition copyBits :: "BitVector \<Rightarrow> int \<Rightarrow> BitVector" where
  "copyBits bA bits =
     (let n = nat ((bits + 7) sdiv 8)
      in \<lparr>Bits = bits, Elems = take n (Elems bA) @ replicate (n - length (Elems bA)) 0\<rparr>)"

text \<open>
  The loops \<open>for i := 0; i < n; i++ { c[i] = f(c[i], o[i]) }\<close>, which panic when \<open>n\<close>
  passes the end of either slice.
\<close>

definition zip_prefix :: "(byte \<Rightarrow> byte \<Rightarrow> byte) \<Rightarrow> nat \<Rightarrow> bytes \<Rightarrow> bytes \<Rightarrow> bytes option" where
  "zip_prefix f n c oe =
     (if n \<le> length c \<and> n \<le> length oe
      then Some (map2 f (take n c) (take n oe) @ drop n c) else None)"

definition bv_Or :: "BitVector option \<Rightarrow> BitVector option \<Rightarrow> BitVector option option" where
  "bv_Or bA oo = (case bA of
      None \<Rightarrow> (case oo of None \<Rightarrow> Some None | Some q \<Rightarrow> Some (Copy oo))
    | Some b \<Rightarrow> (case oo of
          None \<Rightarrow> Some (Copy bA)
        | Some q \<Rightarrow>
            (let c = copyBits b (MaxInt (Bits b) (Bits q));
                 smaller = nat (MinInt (int (length (Elems b))) (int (length (Elems q))))
             in map_option (\<lambda>es. Some (c\<lparr>Elems := es\<rparr>))
                  (zip_prefix (\<lambda>x y. x OR y) smaller (Elems c) (Elems q)))))"

definition bv_And :: "BitVector option \<Rightarrow> BitVector option \<Rightarrow> BitVector option option" where
  "bv_And bA oo = (case (bA, oo) of
      (Some b, Some q) \<Rightarrow>
        (let c = copyBits b (MinInt (Bits b) (Bits q))
         in map_option (\<lambda>es. Some (c\<lparr>Elems := es\<rparr>))
              (zip_prefix (\<lambda>x y. x AND y) (length (Elems c)) (Elems c) (Elems q)))
    | _ \<Rightarrow> Some None)"

definition bv_Not :: "BitVector option \<Rightarrow> BitVector option" where
  "bv_Not bA = map_option (\<lambda>b. b\<lparr>Elems := map (\<lambda>e. NOT e) (Elems b)\<rparr>) bA"

definition bv_Sub :: "BitVector option \<Rightarrow> BitVector option \<Rightarrow> BitVector option option" where
  "bv_Sub bA oo = (case (bA, oo) of
      (Some b, Some q) \<Rightarrow>
        (let c = copyBits b (Bits b);
             smaller = nat (MinInt (int (length (Elems b))) (int (length (Elems q))))
         in map_option (\<lambda>es. Some (c\<lparr>Elems := es\<rparr>))
              (zip_prefix (\<lambda>x y. x AND NOT y) smaller (Elems c) (Elems q)))
    | _ \<Rightarrow> Some None)"

text \<open>Well-formedness: as many elements as the bits need.\<close>

definition wf_bv :: "BitVector \<Rightarrow> bool" where
  "wf_bv b \<longleftrightarrow> 0 \<le> Bits b \<and> length (Elems b) = nat ((Bits b + 7) div 8)"

text \<open>What a vector denotes: the set of its indices, read bit by bit.\<close>

definition bv_bit :: "BitVector \<Rightarrow> nat \<Rightarrow> bool" where
  "bv_bit b i \<longleftrightarrow> int i < Bits b \<and> bit (Elems b ! (i div 8)) (i mod 8)"

text \<open>
  No stray bits: the unused bits of the last element are zero. Vectors built by
  \<open>NewBitVector\<close> and \<open>SetIndex\<close> satisfy it; \<open>Not\<close> does not keep it.
\<close>

definition clean_bv :: "BitVector \<Rightarrow> bool" where
  "clean_bv b \<longleftrightarrow>
     (\<forall>i. i < 8 * length (Elems b) \<longrightarrow> bit (Elems b ! (i div 8)) (i mod 8) \<longrightarrow> int i < Bits b)"

text \<open>The two operations a vote collector uses, as total functions.\<close>

definition bv_new :: "nat \<Rightarrow> BitVector" where
  "bv_new n = (case NewBitVector (int n) of Some b \<Rightarrow> b | None \<Rightarrow> \<lparr>Bits = 0, Elems = []\<rparr>)"

definition bv_put :: "BitVector \<Rightarrow> nat \<Rightarrow> BitVector" where
  "bv_put b i = (case SetIndex (Some b) (int i) True of Some (Some b', _) \<Rightarrow> b' | _ \<Rightarrow> b)"

section \<open>The interface: a set of indices below a capacity\<close>

locale index_set =
  fixes new :: "nat \<Rightarrow> 'b"
    and put :: "'b \<Rightarrow> nat \<Rightarrow> 'b"
    and has :: "'b \<Rightarrow> nat \<Rightarrow> bool"
    and cap :: "'b \<Rightarrow> nat"
    and inv :: "'b \<Rightarrow> bool"
  assumes inv_new: "inv (new n)"
    and cap_new: "cap (new n) = n"
    and has_new: "\<not> has (new n) i"
    and inv_put: "inv b \<Longrightarrow> inv (put b i)"
    and cap_put: "inv b \<Longrightarrow> cap (put b i) = cap b"
    and has_put: "inv b \<Longrightarrow> has (put b i) j \<longleftrightarrow> has b j \<or> (j = i \<and> i < cap b)"
begin

lemma inv_fold_put: "inv b \<Longrightarrow> inv (fold (\<lambda>i b. put b i) is b)"
  by (induction "is" arbitrary: b) (auto simp: inv_put)

lemma cap_fold_put: "inv b \<Longrightarrow> cap (fold (\<lambda>i b. put b i) is b) = cap b"
  by (induction "is" arbitrary: b) (auto simp: inv_put cap_put)

lemma has_fold_put:
  "inv b \<Longrightarrow> has (fold (\<lambda>i b. put b i) is b) j \<longleftrightarrow> has b j \<or> (j \<in> set is \<and> j < cap b)"
  by (induction "is" arbitrary: b) (auto simp: inv_put cap_put has_put)

lemma has_collect: "has (fold (\<lambda>i b. put b i) is (new n)) j \<longleftrightarrow> j \<in> set is \<and> j < n"
  by (simp add: has_fold_put inv_new has_new cap_new)

end

section \<open>Lemmas\<close>

lemma sdiv_nonneg: "0 \<le> (i::int) \<Longrightarrow> i sdiv 8 = i div 8"
  by (auto simp: signed_divide_int_def sgn_if)

lemma smod_nonneg: "0 \<le> (i::int) \<Longrightarrow> i smod 8 = i mod 8"
  by (cases "i = 0") (auto simp: signed_modulo_int_def sgn_if)

lemma go_div_nat [simp]: "int i sdiv 8 = int (i div 8)" "int i smod 8 = int (i mod 8)"
  by (simp_all add: sdiv_nonneg smod_nonneg zdiv_int zmod_int)

lemmas go_div = sdiv_nonneg smod_nonneg

lemma wf_NewBitVector [wf_intros]: "NewBitVector n = Some b \<Longrightarrow> wf_bv b"
  by (auto simp: NewBitVector_def wf_bv_def go_div split: if_splits)

lemma wf_bv_len:
  "wf_bv b \<Longrightarrow> int i < Bits b \<Longrightarrow> i div 8 < length (Elems b)"
  unfolding wf_bv_def by linarith

lemma shl1_bit: "0 < (e AND shl1 (int k)) \<longleftrightarrow> bit e k" if "k < 8" for e :: byte
proof -
  have "shl1 (int k) = 2 ^ k" by (simp add: shl1_def push_bit_eq_mult)
  then show ?thesis
    by (simp add: word_gt_0 and_exp_eq_0_iff_not_bit)
qed

lemma bit_shl1 [simp]: "bit (shl1 (int k)) m \<longleftrightarrow> m = k \<and> k < 8"
  by (auto simp: shl1_def bit_simps)

lemma GetIndex_bit [slice_simps]: "wf_bv b \<Longrightarrow> GetIndex (Some b) (int i) = Some (bv_bit b i)"
proof -
  assume wf: "wf_bv b"
  show ?thesis
  proof (cases "int i < Bits b")
    case True
    then show ?thesis
      using wf_bv_len [OF wf True] by (simp add: GetIndex_def bv_bit_def shl1_bit index_nth)
  next
    case False
    then show ?thesis by (simp add: GetIndex_def bv_bit_def)
  qed
qed

lemma SetIndex_wf:
  assumes wf: "wf_bv b"
  shows "\<exists>b'. SetIndex (Some b) (int i) v = Some (Some b', int i < Bits b)
     \<and> wf_bv b' \<and> Bits b' = Bits b
     \<and> (\<forall>j. bv_bit b' j = (if j = i \<and> int i < Bits b then v else bv_bit b j))"
proof (cases "int i < Bits b")
  case False
  then show ?thesis using wf by (auto simp: SetIndex_def)
next
  case True
  let ?q = "i div 8"
  let ?e = "Elems b ! ?q"
  let ?e' = "if v then ?e OR shl1 (int (i mod 8)) else ?e AND NOT (shl1 (int (i mod 8)))"
  let ?b = "b\<lparr>Elems := (Elems b)[?q := ?e']\<rparr>"
  have q: "?q < length (Elems b)" using wf_bv_len [OF wf True] .
  have set: "SetIndex (Some b) (int i) v = Some (Some ?b, True)"
    unfolding SetIndex_def using True q by (simp add: index_nth Let_def)
  have "bv_bit ?b j = (if j = i then v else bv_bit b j)" for j
  proof (cases "j div 8 = ?q")
    case True
    have "j mod 8 = i mod 8 \<longleftrightarrow> j = i" using True by (metis div_mult_mod_eq)
    then show ?thesis
      using True q \<open>int i < Bits b\<close> by (auto simp: bv_bit_def bit_simps)
  next
    case False
    then show ?thesis by (auto simp: bv_bit_def)
  qed
  moreover have "wf_bv ?b" using wf by (simp add: wf_bv_def)
  ultimately show ?thesis using set True by auto
qed

lemma fill_elems_append:
  "length pre = i \<Longrightarrow> length rest \<le> length post \<Longrightarrow>
   fill_elems (Some (b\<lparr>Elems := pre @ post\<rparr>)) rest i =
     Some (Some (b\<lparr>Elems := pre @ rest @ drop (length rest) post\<rparr>))"
proof (induction rest arbitrary: pre post i)
  case Nil
  then show ?case by simp
next
  case (Cons t rest)
  then obtain p ps where post: "post = p # ps" by (cases post) auto
  have "fill_elems (Some (b\<lparr>Elems := (pre @ [t]) @ ps\<rparr>)) rest (Suc i) =
      Some (Some (b\<lparr>Elems := (pre @ [t]) @ rest @ drop (length rest) ps\<rparr>))"
    by (rule Cons.IH) (use Cons.prems post in auto)
  then show ?case
    using Cons.prems post by (simp add: list_update_append)
qed

lemma sint_small: "0 \<le> u \<Longrightarrow> u < 8 \<Longrightarrow> sint (word_of_int u :: byte) = u"
  by (simp add: int_word_sint)

lemma NewBitArrayFromByte_Byte:
  assumes "wf_bv b"
  shows "NewBitArrayFromByte (Byte (Some b)) = Some (Some b)"
proof -
  define u where "u = 8 * int (length (Elems b)) - Bits b"
  let ?z = "\<lparr>Bits = Bits b, Elems = replicate (length (Elems b)) (0::byte)\<rparr>"
  have new: "NewBitVector (Bits b) = Some ?z"
    using assms by (simp add: NewBitVector_def wf_bv_def go_div)
  have u: "0 \<le> u" "u < 8"
    using assms unfolding wf_bv_def u_def by linarith+
  have "Byte (Some b) = word_of_int u # Elems b"
    by (simp only: Byte_def Byte_of_def Let_def option.case u_def)
  then have "NewBitArrayFromByte (Byte (Some b)) = fill_elems (Some ?z) (Elems b) 0"
    using new by (simp add: NewBitArrayFromByte_def sint_small [OF u] Let_def) (simp add: u_def)
  also have "\<dots> = Some (Some b)"
    using fill_elems_append [of "[]" 0 "Elems b" "replicate (length (Elems b)) 0" b]
    by (cases b) simp
  finally show ?thesis .
qed

lemma bv_bit_NewBitVector: "NewBitVector n = Some b \<Longrightarrow> \<not> bv_bit b i"
proof -
  assume b: "NewBitVector n = Some b"
  show ?thesis
  proof (cases "int i < Bits b")
    case True
    then have "i div 8 < length (Elems b)"
      using wf_bv_len wf_NewBitVector [OF b] by blast
    then show ?thesis
      using b by (auto simp: NewBitVector_def bv_bit_def split: if_splits)
  next
    case False
    then show ?thesis by (simp add: bv_bit_def)
  qed
qed

lemma bv_put_eq:
  assumes "wf_bv b"
  shows "SetIndex (Some b) (int i) True = Some (Some (bv_put b i), int i < Bits b)"
  using SetIndex_wf [OF assms, of i True] by (auto simp: bv_put_def)

interpretation signers: index_set bv_new bv_put bv_bit "\<lambda>b. nat (Bits b)" wf_bv
proof (unfold_locales, goal_cases)
  case (1 n)
  then show ?case by (auto simp: bv_new_def NewBitVector_def wf_bv_def go_div)
next
  case (2 n)
  then show ?case by (simp add: bv_new_def NewBitVector_def)
next
  case (3 n i)
  have "NewBitVector (int n) = Some (bv_new n)" by (simp add: bv_new_def NewBitVector_def)
  then show ?case by (rule bv_bit_NewBitVector)
next
  case (4 b i)
  then show ?case using SetIndex_wf [OF 4, of i True] bv_put_eq [OF 4, of i] by auto
next
  case (5 b i)
  then show ?case using SetIndex_wf [OF 5, of i True] bv_put_eq [OF 5, of i] by auto
next
  case (6 b i j)
  then show ?case using SetIndex_wf [OF 6, of i True] bv_put_eq [OF 6, of i] by auto
qed

lemma length_copyBits: "length (Elems (copyBits b n)) = nat ((n + 7) sdiv 8)"
  by (simp add: copyBits_def Let_def)

lemma nth_copyBits:
  "j < nat ((n + 7) sdiv 8) \<Longrightarrow>
   Elems (copyBits b n) ! j = (if j < length (Elems b) then Elems b ! j else 0)"
  by (auto simp: copyBits_def Let_def nth_append)

lemma Bits_copyBits [simp]: "Bits (copyBits b n) = n"
  by (simp add: copyBits_def Let_def)

lemma zip_prefix_Some:
  assumes "n \<le> length c" "n \<le> length oe"
  obtains es where "zip_prefix f n c oe = Some es" "length es = length c"
    "\<And>j. j < length c \<Longrightarrow> es ! j = (if j < n then f (c ! j) (oe ! j) else c ! j)"
proof
  show "zip_prefix f n c oe = Some (map2 f (take n c) (take n oe) @ drop n c)"
    using assms by (simp add: zip_prefix_def)
  show "length (map2 f (take n c) (take n oe) @ drop n c) = length c"
    using assms by simp
  fix j assume "j < length c"
  then show "(map2 f (take n c) (take n oe) @ drop n c) ! j = (if j < n then f (c ! j) (oe ! j) else c ! j)"
    using assms by (auto simp: nth_append)
qed

lemma bv_bit_clean:
  assumes "wf_bv b" "clean_bv b"
  shows "bv_bit b i \<longleftrightarrow> i div 8 < length (Elems b) \<and> bit (Elems b ! (i div 8)) (i mod 8)"
proof
  assume "bv_bit b i"
  then show "i div 8 < length (Elems b) \<and> bit (Elems b ! (i div 8)) (i mod 8)"
    using wf_bv_len [OF assms(1)] by (auto simp: bv_bit_def)
next
  assume r: "i div 8 < length (Elems b) \<and> bit (Elems b ! (i div 8)) (i mod 8)"
  then have "i < 8 * length (Elems b)" by auto
  with r assms(2) show "bv_bit b i" by (auto simp: bv_bit_def clean_bv_def)
qed

lemma elems_index: "wf_bv b \<Longrightarrow> int i < Bits b \<Longrightarrow> i div 8 < nat ((Bits b + 7) sdiv 8)"
  using wf_bv_len [of b i] by (simp add: wf_bv_def go_div)

lemma bv_And_wf:
  assumes b: "wf_bv b" and q: "wf_bv q"
  shows "\<exists>c. bv_And (Some b) (Some q) = Some (Some c) \<and> wf_bv c \<and> Bits c = min (Bits b) (Bits q)
     \<and> (\<forall>i. bv_bit c i \<longleftrightarrow> bv_bit b i \<and> bv_bit q i)"
proof -
  let ?m = "min (Bits b) (Bits q)"
  let ?c = "copyBits b ?m"
  have m: "MinInt (Bits b) (Bits q) = ?m" "0 \<le> ?m"
    using b q by (auto simp: MinInt_def wf_bv_def)
  have lc: "length (Elems ?c) = nat ((?m + 7) div 8)"
    using m by (simp add: length_copyBits go_div)
  have le: "length (Elems ?c) \<le> length (Elems b)" "length (Elems ?c) \<le> length (Elems q)"
    using b q m by (auto simp: lc wf_bv_def intro!: nat_mono zdiv_mono1)
  obtain es where es: "zip_prefix (\<lambda>x y. x AND y) (length (Elems ?c)) (Elems ?c) (Elems q) = Some es"
    "length es = length (Elems ?c)"
    "\<And>j. j < length (Elems ?c) \<Longrightarrow> es ! j = (if j < length (Elems ?c)
        then Elems ?c ! j AND Elems q ! j else Elems ?c ! j)"
    using zip_prefix_Some [OF order_refl le(2)] by blast
  let ?r = "?c\<lparr>Elems := es\<rparr>"
  have r: "wf_bv ?r" "Bits ?r = ?m"
    using m lc es(2) by (auto simp: wf_bv_def)
  have "bv_bit ?r i \<longleftrightarrow> bv_bit b i \<and> bv_bit q i" for i
  proof (cases "int i < ?m")
    case True
    then have j: "i div 8 < length (Elems ?c)" using wf_bv_len [OF r(1), of i] r(2) es(2) by simp
    then have "Elems ?c ! (i div 8) = Elems b ! (i div 8)"
      using le(1) by (simp add: nth_copyBits length_copyBits)
    then show ?thesis using True j es(3) [OF j] by (auto simp: bv_bit_def bit_simps)
  next
    case False
    then show ?thesis by (auto simp: bv_bit_def)
  qed
  then show ?thesis
    using es(1) m r by (auto simp: bv_And_def Let_def)
qed

lemma clean_new [wf_intros]: "clean_bv (bv_new n)"
  by (auto simp: clean_bv_def bv_new_def NewBitVector_def)

lemma clean_put [wf_intros]:
  assumes "wf_bv b" "clean_bv b"
  shows "clean_bv (bv_put b i)"
proof (cases "int i < Bits b")
  case False
  then show ?thesis using assms by (simp add: bv_put_def SetIndex_def)
next
  case True
  let ?q = "i div 8"
  have q: "?q < length (Elems b)" using wf_bv_len [OF assms(1) True] .
  have put: "bv_put b i = b\<lparr>Elems := (Elems b)[?q := Elems b ! ?q OR shl1 (int (i mod 8))]\<rparr>"
    using True q by (simp add: bv_put_def SetIndex_def index_nth Let_def)
  have "int j < Bits b"
    if j: "j < 8 * length (Elems b)" and bj: "bit (Elems (bv_put b i) ! (j div 8)) (j mod 8)" for j
  proof (cases "j = i")
    case False
    have "bit (Elems b ! (j div 8)) (j mod 8)"
    proof (cases "j div 8 = ?q")
      case eq: True
      then have "j mod 8 \<noteq> i mod 8" using False by (metis div_mult_mod_eq)
      then show ?thesis using bj q eq by (simp add: put bit_simps)
    next
      case neq: False
      then show ?thesis using bj by (simp add: put)
    qed
    then show ?thesis using assms(2) j by (simp add: clean_bv_def)
  qed (use True in simp)
  then show ?thesis by (simp add: clean_bv_def put)
qed

text \<open>The shared loop of \<open>Or\<close> and \<open>Sub\<close>: combine up to the shorter element list.\<close>

lemma zip_copy:
  assumes b: "wf_bv b" and q: "wf_bv q" and n: "Bits b \<le> n"
  obtains es where
    "zip_prefix f (nat (MinInt (int (length (Elems b))) (int (length (Elems q)))))
       (Elems (copyBits b n)) (Elems q) = Some es"
    "wf_bv ((copyBits b n)\<lparr>Elems := es\<rparr>)"
    "\<And>j. j < nat ((n + 7) sdiv 8) \<Longrightarrow> es ! j =
       (if j < length (Elems b) \<and> j < length (Elems q) then f (Elems b ! j) (Elems q ! j)
        else if j < length (Elems b) then Elems b ! j else 0)"
proof -
  let ?c = "copyBits b n"
  let ?k = "nat (MinInt (int (length (Elems b))) (int (length (Elems q))))"
  have n0: "0 \<le> n" using b n by (simp add: wf_bv_def)
  have k: "?k = min (length (Elems b)) (length (Elems q))" by (auto simp: MinInt_def)
  have lc: "length (Elems ?c) = nat ((n + 7) sdiv 8)" by (rule length_copyBits)
  have "length (Elems b) \<le> nat ((n + 7) sdiv 8)"
    using b n n0 by (auto simp: wf_bv_def go_div intro!: nat_mono zdiv_mono1)
  then have "?k \<le> length (Elems ?c)" "?k \<le> length (Elems q)" using k lc by auto
  then obtain es where es: "zip_prefix f ?k (Elems ?c) (Elems q) = Some es"
      "length es = length (Elems ?c)"
      "\<And>j. j < length (Elems ?c) \<Longrightarrow>
         es ! j = (if j < ?k then f (Elems ?c ! j) (Elems q ! j) else Elems ?c ! j)"
    using zip_prefix_Some [of ?k "Elems ?c" "Elems q" f] by blast
  show thesis
  proof (rule that [OF es(1)])
    show "wf_bv (?c\<lparr>Elems := es\<rparr>)"
      using es(2) lc n0 by (simp add: wf_bv_def go_div)
  next
    fix j assume j: "j < nat ((n + 7) sdiv 8)"
    then show "es ! j =
       (if j < length (Elems b) \<and> j < length (Elems q) then f (Elems b ! j) (Elems q ! j)
        else if j < length (Elems b) then Elems b ! j else 0)"
      using es(3) [of j] lc k by (auto simp: nth_copyBits)
  qed
qed

lemma bv_Sub_wf:
  assumes b: "wf_bv b" and q: "wf_bv q" "clean_bv q"
  shows "\<exists>c. bv_Sub (Some b) (Some q) = Some (Some c) \<and> wf_bv c \<and> Bits c = Bits b
     \<and> (\<forall>i. bv_bit c i \<longleftrightarrow> bv_bit b i \<and> \<not> bv_bit q i)"
proof -
  obtain es where es:
    "zip_prefix (\<lambda>x y. x AND NOT y) (nat (MinInt (int (length (Elems b))) (int (length (Elems q)))))
       (Elems (copyBits b (Bits b))) (Elems q) = Some es"
    "wf_bv ((copyBits b (Bits b))\<lparr>Elems := es\<rparr>)"
    "\<And>j. j < nat ((Bits b + 7) sdiv 8) \<Longrightarrow> es ! j =
       (if j < length (Elems b) \<and> j < length (Elems q) then Elems b ! j AND NOT (Elems q ! j)
        else if j < length (Elems b) then Elems b ! j else 0)"
    using zip_copy [OF b q(1) order_refl] by blast
  let ?r = "(copyBits b (Bits b))\<lparr>Elems := es\<rparr>"
  have "bv_bit ?r i \<longleftrightarrow> bv_bit b i \<and> \<not> bv_bit q i" for i
    using es(3) [of "i div 8"] elems_index [OF b, of i] wf_bv_len [OF b, of i]
    by (auto simp: bv_bit_clean [OF q] bv_bit_def [of ?r] bv_bit_def [of b] bit_simps
        split: if_splits)
  then show ?thesis
    using es(1,2) by (auto simp: bv_Sub_def Let_def)
qed

lemma bv_Or_wf:
  assumes b: "wf_bv b" "clean_bv b" and q: "wf_bv q" "clean_bv q"
  shows "\<exists>c. bv_Or (Some b) (Some q) = Some (Some c) \<and> wf_bv c \<and> Bits c = max (Bits b) (Bits q)
     \<and> (\<forall>i. bv_bit c i \<longleftrightarrow> bv_bit b i \<or> (bv_bit q i \<and> i div 8 < length (Elems b)))"
proof -
  let ?m = "max (Bits b) (Bits q)"
  have m: "MaxInt (Bits b) (Bits q) = ?m" by (auto simp: MaxInt_def)
  obtain es where es:
    "zip_prefix (\<lambda>x y. x OR y) (nat (MinInt (int (length (Elems b))) (int (length (Elems q)))))
       (Elems (copyBits b ?m)) (Elems q) = Some es"
    "wf_bv ((copyBits b ?m)\<lparr>Elems := es\<rparr>)"
    "\<And>j. j < nat ((?m + 7) sdiv 8) \<Longrightarrow> es ! j =
       (if j < length (Elems b) \<and> j < length (Elems q) then Elems b ! j OR Elems q ! j
        else if j < length (Elems b) then Elems b ! j else 0)"
    using zip_copy [OF b(1) q(1), of ?m] by (metis max.cobounded1)
  let ?r = "(copyBits b ?m)\<lparr>Elems := es\<rparr>"
  have "bv_bit ?r i \<longleftrightarrow> bv_bit b i \<or> (bv_bit q i \<and> i div 8 < length (Elems b))" for i
  proof (cases "int i < ?m")
    case True
    then have "i div 8 < nat ((?m + 7) sdiv 8)" using elems_index [OF es(2), of i] by simp
    then show ?thesis
      using es(3) [of "i div 8"] True
      by (auto simp: bv_bit_clean [OF q] bv_bit_clean [OF b] bv_bit_def [of ?r] bit_simps)
  next
    case False
    then show ?thesis by (auto simp: bv_bit_def)
  qed
  then show ?thesis
    using es(1,2) m by (auto simp: bv_Or_def Let_def)
qed

section \<open>Properties\<close>

text \<open>
  On a well-formed vector \<open>SetIndex\<close> never panics, keeps the size and the
  well-formedness, reports whether the index is in range, and afterwards \<open>GetIndex\<close> reads
  the new value at that index and the old value at every other one.
\<close>

theorem SetIndex_GetIndex:
  assumes "wf_bv b"
  shows "\<exists>b'. SetIndex (Some b) (int i) v = Some (Some b', int i < Bits b)
     \<and> wf_bv b' \<and> Bits b' = Bits b
     \<and> (\<forall>j. GetIndex (Some b') (int j) =
            (if j = i \<and> int i < Bits b then Some v else GetIndex (Some b) (int j)))"
  using SetIndex_wf [OF assms, of i v] assms by (auto simp: GetIndex_bit)

theorem SetIndex_GetIndex_witness:
  "\<exists>b'. SetIndex (Some (bv_new 10)) (int 9) True = Some (Some b', int 9 < Bits (bv_new 10))
     \<and> wf_bv b' \<and> Bits b' = Bits (bv_new 10)
     \<and> (\<forall>j. GetIndex (Some b') (int j) =
            (if j = 9 \<and> int 9 < Bits (bv_new 10) then Some True
             else GetIndex (Some (bv_new 10)) (int j)))"
  by (rule SetIndex_GetIndex) (rule signers.inv_new)

text \<open>
  The byte encoding of a well-formed vector decodes to the same vector, without a panic.
\<close>

theorem Byte_roundtrip:
  assumes "wf_bv b"
  shows "NewBitArrayFromByte (Byte (Some b)) = Some (Some b)"
  using assms by (rule NewBitArrayFromByte_Byte)

theorem Byte_roundtrip_witness:
  "NewBitArrayFromByte (Byte (Some (bv_put (bv_new 10) 9))) = Some (Some (bv_put (bv_new 10) 9))"
  by (rule Byte_roundtrip) (intro signers.inv_put signers.inv_new)

text \<open>
  \<open>And\<close> and \<open>Sub\<close> compute intersection and difference of the index sets, at the
  smaller size and at the first operand's size.
\<close>

theorem And_Sub_sets:
  assumes "wf_bv b" and "wf_bv q" and "clean_bv q"
  shows "(\<exists>c. bv_And (Some b) (Some q) = Some (Some c) \<and> wf_bv c \<and> Bits c = min (Bits b) (Bits q)
       \<and> {i. bv_bit c i} = {i. bv_bit b i} \<inter> {i. bv_bit q i})
   \<and> (\<exists>c. bv_Sub (Some b) (Some q) = Some (Some c) \<and> wf_bv c \<and> Bits c = Bits b
       \<and> {i. bv_bit c i} = {i. bv_bit b i} - {i. bv_bit q i})"
  using bv_And_wf [OF assms(1,2)] bv_Sub_wf [OF assms] by blast

theorem And_Sub_sets_witness:
  "(\<exists>c. bv_And (Some (bv_put (bv_new 9) 8)) (Some (bv_new 3)) = Some (Some c) \<and> wf_bv c
       \<and> Bits c = min (Bits (bv_put (bv_new 9) 8)) (Bits (bv_new 3))
       \<and> {i. bv_bit c i} = {i. bv_bit (bv_put (bv_new 9) 8) i} \<inter> {i. bv_bit (bv_new 3) i})
   \<and> (\<exists>c. bv_Sub (Some (bv_put (bv_new 9) 8)) (Some (bv_new 3)) = Some (Some c) \<and> wf_bv c
       \<and> Bits c = Bits (bv_put (bv_new 9) 8)
       \<and> {i. bv_bit c i} = {i. bv_bit (bv_put (bv_new 9) 8) i} - {i. bv_bit (bv_new 3) i})"
proof (rule And_Sub_sets)
  show "wf_bv (bv_put (bv_new 9) 8)" by (intro signers.inv_put signers.inv_new)
  show "wf_bv (bv_new 3)" by (rule signers.inv_new)
  show "clean_bv (bv_new 3)" by (rule clean_new)
qed

text \<open>
  \<open>Or\<close> keeps a bit of its second operand only where the first operand has an
  element: on equal sizes it is the union, but bits of a longer second operand are dropped,
  while the comment on \<open>Or\<close> promises that the shorter operand is padded with zeroes.
\<close>

theorem Or_sets:
  assumes "wf_bv b" "clean_bv b" "wf_bv q" "clean_bv q"
  shows "\<exists>c. bv_Or (Some b) (Some q) = Some (Some c) \<and> wf_bv c \<and> Bits c = max (Bits b) (Bits q)
     \<and> {i. bv_bit c i} = {i. bv_bit b i} \<union> {i. bv_bit q i \<and> i div 8 < length (Elems b)}"
  using bv_Or_wf [OF assms] by blast

theorem Or_sets_witness:
  "\<exists>c. bv_Or (Some (bv_new 3)) (Some (bv_put (bv_new 10) 9)) = Some (Some c) \<and> wf_bv c
     \<and> Bits c = max (Bits (bv_new 3)) (Bits (bv_put (bv_new 10) 9))
     \<and> {i. bv_bit c i} = {i. bv_bit (bv_new 3) i}
         \<union> {i. bv_bit (bv_put (bv_new 10) 9) i \<and> i div 8 < length (Elems (bv_new 3))}"
  by (rule Or_sets) (intro wf_intros signers.inv_put signers.inv_new)+

text \<open>
  A three-byte signer map that claims nine unused bits crashes the decoder: the index
  panic is reachable from bytes a peer sends.
\<close>

theorem NewBitArrayFromByte_panics: "NewBitArrayFromByte [9, 0, 0] = None"
  by (simp add: NewBitArrayFromByte_def NewBitVector_def go_div)

end
