(* ===== verification/Merkle.thy ===== *)
theory Merkle
  imports Convert
begin

text \<open>
  The Merkle tree of \<open>src/source/crypto/merkle\<close> (\<open>hash.go\<close>, \<open>tree.go\<close>).
  The hash \<open>H\<close> is an argument of every definition: the code calls
  \<open>tmhash.Sum\<close>, the facts hold for every function, and the two properties of SHA-256 that
  soundness of proofs needs (32-byte digests, no collision among the strings actually hashed) are
  hypotheses of the theorems that use them.
\<close>

section \<open>Model\<close>

type_synonym hash_fn = "bytes \<Rightarrow> bytes"

definition emptyHash :: "hash_fn \<Rightarrow> bytes" where
  "emptyHash H = H []"

definition leafHash :: "hash_fn \<Rightarrow> bytes \<Rightarrow> bytes" where
  "leafHash H leaf = H (0 # leaf)"

definition innerHash :: "hash_fn \<Rightarrow> bytes \<Rightarrow> bytes \<Rightarrow> bytes" where
  "innerHash H left right = H (1 # (left @ right))"

text \<open>\<open>bits.Len\<close> of the standard library.\<close>

fun bits_Len :: "nat \<Rightarrow> nat" where
  "bits_Len n = (if n = 0 then 0 else Suc (bits_Len (n div 2)))"

declare bits_Len.simps [simp del]

text \<open>
  \<open>getSplitPoint\<close> panics below 1 (\<open>None\<close>); \<open>split_point\<close> is its body after that
  guard, which is what the callers, whose lengths are at least 2, reach.
\<close>

definition split_point :: "int \<Rightarrow> int" where
  "split_point len =
     (let bitlen = bits_Len (nat len); k = (2::int) ^ (bitlen - 1)
      in if k = len then k div 2 else k)"

definition getSplitPoint :: "int \<Rightarrow> int option" where
  "getSplitPoint len = (if len < 1 then None else Some (split_point len))"

abbreviation split_nat :: "'a list \<Rightarrow> nat" where
  "split_nat items \<equiv> nat (split_point (int (length items)))"

lemma bits_Len_bounds: "0 < n \<Longrightarrow> 2 ^ (bits_Len n - 1) \<le> n \<and> n < 2 ^ bits_Len n \<and> 0 < bits_Len n"
proof (induction n rule: bits_Len.induct)
  case (1 n)
  show ?case
  proof (cases "n div 2 = 0")
    case True
    then have "n = 1" using "1.prems" by auto
    then show ?thesis by (simp add: bits_Len.simps)
  next
    case False
    let ?b = "bits_Len (n div 2)"
    have IH: "2 ^ (?b - 1) \<le> n div 2" "n div 2 < 2 ^ ?b" "0 < ?b"
      using "1.IH" "1.prems" False by auto
    then have "(2::nat) ^ ?b = 2 * 2 ^ (?b - 1)" by (cases ?b) auto
    then have "2 ^ ?b \<le> n" "n < 2 * 2 ^ ?b" using IH by linarith+
    then show ?thesis using "1.prems" by (simp add: bits_Len.simps [of n])
  qed
qed

lemma split_point_power:
  assumes "2 \<le> (n::nat)"
  shows "\<exists>j. split_point (int n) = int (2 ^ j) \<and> 2 ^ j < n \<and> n \<le> 2 * 2 ^ j"
proof -
  let ?b = "bits_Len n"
  have b: "2 ^ (?b - 1) \<le> n" "n < 2 ^ ?b" "0 < ?b" using bits_Len_bounds [of n] assms by auto
  show ?thesis
  proof (cases "2 ^ (?b - 1) = n")
    case True
    then obtain j where j: "?b - 1 = Suc j" using assms by (cases "?b - 1") auto
    have n: "n = 2 * 2 ^ j" using True unfolding j by simp
    then have i: "2 * 2 ^ j = int n" by simp
    have "split_point (int n) = int (2 ^ j)"
      unfolding split_point_def Let_def nat_int j by (simp flip: i)
    then show ?thesis using n by (intro exI [of _ j]) simp
  next
    case False
    then have "2 ^ (?b - 1) \<noteq> int n" by (metis of_nat_eq_iff of_nat_numeral of_nat_power)
    then have "split_point (int n) = int (2 ^ (?b - 1))"
      by (simp add: split_point_def Let_def)
    moreover have "n \<le> 2 * 2 ^ (?b - 1)" using b by (cases ?b) auto
    ultimately show ?thesis using b(1) False by (intro exI [of _ "?b - 1"]) auto
  qed
qed

lemma split_nat_bounds:
  "2 \<le> length items \<Longrightarrow> 0 < split_nat items \<and> split_nat items < length items
     \<and> length items \<le> 2 * split_nat items"
  using split_point_power [of "length items"] by (auto simp: nat_power_eq)

lemma split_nat_less:
  "length items \<noteq> 0 \<Longrightarrow> length items \<noteq> 1 \<Longrightarrow>
   length (take (split_nat items) items) < length items \<and> length (drop (split_nat items) items) < length items"
proof -
  assume "length items \<noteq> 0" "length items \<noteq> 1"
  then have "2 \<le> length items" by linarith
  from split_nat_bounds [OF this] show ?thesis unfolding length_take length_drop by linarith
qed

function HashFromByteSlices :: "hash_fn \<Rightarrow> bytes list \<Rightarrow> bytes" where
  "HashFromByteSlices H items =
     (if length items = 0 then emptyHash H
      else if length items = 1 then leafHash H (items ! 0)
      else (let k = split_nat items;
                left = HashFromByteSlices H (take k items);
                right = HashFromByteSlices H (drop k items)
            in innerHash H left right))"
  by pat_completeness auto
termination
  by (relation "measure (\<lambda>(H, items). length items)")
    (simp only: wf_measure, (simp only: in_measure prod.case, use split_nat_less in blast)+)

declare HashFromByteSlices.simps [simp del]

text \<open>
  The iterative variant: one pass of the inner loop pairs the first \<open>size\<close> hashes in place
  with a read and a write position; the outer loop repeats it until one hash is left.
\<close>

function level_loop :: "hash_fn \<Rightarrow> bytes list \<Rightarrow> nat \<Rightarrow> nat \<Rightarrow> nat \<Rightarrow> bytes list \<times> nat" where
  "level_loop H items rp wp sz =
     (if rp < sz then
        if rp + 1 < sz
        then level_loop H (items[wp := innerHash H (items ! rp) (items ! (rp + 1))])
               (rp + 2) (wp + 1) sz
        else level_loop H (items[wp := items ! rp]) (rp + 1) (wp + 1) sz
      else (items, wp))"
  by pat_completeness auto
termination
  by (relation "measure (\<lambda>(H, items, rp, wp, sz). sz - rp)") auto

declare level_loop.simps [simp del]

lemma level_loop_wp: "snd (level_loop H items rp wp sz) = wp + (sz - rp + 1) div 2"
proof (induction H items rp wp sz rule: level_loop.induct)
  case (1 H items rp wp sz)
  show ?case
  proof (cases "rp < sz")
    case False
    then show ?thesis by (simp add: level_loop.simps [of H items])
  next
    case True
    then show ?thesis
      using "1.IH" by (simp add: level_loop.simps [of H items]) linarith
  qed
qed

function iterative_loop :: "hash_fn \<Rightarrow> bytes list \<Rightarrow> nat \<Rightarrow> bytes" where
  "iterative_loop H items sz =
     (if sz = 0 then emptyHash H
      else if sz = 1 then items ! 0
      else (let r = level_loop H items 0 0 sz in iterative_loop H (fst r) (snd r)))"
  by pat_completeness auto
termination
  by (relation "measure (\<lambda>(H, items, sz). sz)") (auto simp: level_loop_wp)

declare iterative_loop.simps [simp del]

definition HashFromByteSlicesIterative :: "hash_fn \<Rightarrow> bytes list \<Rightarrow> bytes" where
  "HashFromByteSlicesIterative H input =
     (let items = map (leafHash H) input in iterative_loop H items (length items))"

section \<open>The iterative tree hash\<close>

text \<open>The recursive hash over leaf hashes, and one level of pairing.\<close>

function tree_of :: "hash_fn \<Rightarrow> bytes list \<Rightarrow> bytes" where
  "tree_of H hs =
     (if length hs = 0 then emptyHash H
      else if length hs = 1 then hs ! 0
      else innerHash H (tree_of H (take (split_nat hs) hs)) (tree_of H (drop (split_nat hs) hs)))"
  by pat_completeness auto
termination
  by (relation "measure (\<lambda>(H, hs). length hs)")
    (simp only: wf_measure, (simp only: in_measure prod.case, use split_nat_less in blast)+)

declare tree_of.simps [simp del]

fun pairs :: "hash_fn \<Rightarrow> bytes list \<Rightarrow> bytes list" where
  "pairs H (x # y # zs) = innerHash H x y # pairs H zs"
| "pairs H [x] = [x]"
| "pairs H [] = []"

lemma HashFromByteSlices_tree_of: "HashFromByteSlices H items = tree_of H (map (leafHash H) items)"
proof (induction H items rule: HashFromByteSlices.induct)
  case (1 H items)
  let ?k = "split_nat items"
  show ?case
  proof (cases "length items = 0 \<or> length items = 1")
    case True
    then show ?thesis
      by (auto simp: HashFromByteSlices.simps [of H items] tree_of.simps [of H "map (leafHash H) items"])
  next
    case False
    then have l: "HashFromByteSlices H (take ?k items) = tree_of H (take ?k (map (leafHash H) items))"
      and r: "HashFromByteSlices H (drop ?k items) = tree_of H (drop ?k (map (leafHash H) items))"
      using "1.IH"(1) [OF _ _ refl] "1.IH"(2) [OF _ _ refl refl] by (auto simp: take_map drop_map)
    have "HashFromByteSlices H items =
        innerHash H (HashFromByteSlices H (take ?k items)) (HashFromByteSlices H (drop ?k items))"
      using False by (simp add: HashFromByteSlices.simps [of H items] Let_def)
    then show ?thesis
      using False unfolding l r tree_of.simps [of H "map (leafHash H) items"] by simp
  qed
qed

lemma length_pairs: "length (pairs H hs) = (length hs + 1) div 2"
  by (induction H hs rule: pairs.induct) auto

lemma pairs_take_drop:
  "even k \<Longrightarrow> k \<le> length hs \<Longrightarrow>
   take (k div 2) (pairs H hs) = pairs H (take k hs) \<and> drop (k div 2) (pairs H hs) = pairs H (drop k hs)"
proof (induction H hs arbitrary: k rule: pairs.induct)
  case (1 H x y zs)
  show ?case
  proof (cases "k = 0")
    case False
    from "1.prems"(1) obtain q where q: "k = 2 * q" by (elim evenE)
    then obtain r where r: "q = Suc r" using False by (cases q) auto
    have "2 * r \<le> length zs" using "1.prems"(2) q r by simp
    then show ?thesis using "1.IH" [of "2 * r"] by (simp add: q r)
  qed simp
next
  case (2 H x)
  then have "k = 0" by (cases "k = 1") auto
  then show ?case by simp
next
  case (3 H)
  then show ?case by simp
qed

lemma split_half:
  assumes "3 \<le> length hs"
  shows "even (split_nat hs) \<and> split_nat (pairs H hs) = split_nat hs div 2"
proof -
  let ?n = "length hs" and ?m = "length (pairs H hs)"
  obtain j where j: "split_point (int ?n) = int (2 ^ j)" "2 ^ j < ?n" "?n \<le> 2 * 2 ^ j"
    using split_point_power [of ?n] assms by auto
  have "j \<noteq> 0" using j(3) assms by (cases j) auto
  then obtain j' where j': "j = Suc j'" by (cases j) auto
  have m: "?m = (?n + 1) div 2" "2 \<le> ?m" using assms by (auto simp: length_pairs)
  obtain i where i: "split_point (int ?m) = int (2 ^ i)" "2 ^ i < ?m" "?m \<le> 2 * 2 ^ i"
    using split_point_power [of ?m] m by auto
  have bounds: "2 ^ j' < ?m" "?m \<le> 2 * 2 ^ j'" using j j' m by auto
  have "2 ^ i < (2::nat) ^ Suc j'" "2 ^ j' < (2::nat) ^ Suc i" using bounds i by auto
  then have "i = j'" using power_less_imp_less_exp [of "2::nat"] by (metis less_Suc_eq_le le_antisym one_less_numeral_iff semiring_norm(76))
  then show ?thesis unfolding i(1) j(1) nat_int j' by simp
qed

lemma tree_of_pairs: "2 \<le> length hs \<Longrightarrow> tree_of H (pairs H hs) = tree_of H hs"
proof (induction "length hs" arbitrary: hs rule: less_induct)
  case less
  show ?case
  proof (cases "length hs = 2")
    case True
    then obtain x y where xy: "hs = [x, y]" by (auto simp: numeral_2_eq_2 length_Suc_conv)
    have one: "tree_of H [z] = z" for z by (simp add: tree_of.simps [of H "[z]"])
    have "split_nat hs = 1" using split_nat_bounds [OF less.prems] True by linarith
    then show ?thesis using one by (simp add: xy tree_of.simps [of H "[x, y]"])
  next
    case False
    then have n: "3 \<le> length hs" using less.prems by linarith
    let ?k = "split_nat hs"
    have k: "even ?k" "split_nat (pairs H hs) = ?k div 2" using split_half [OF n, of H] by auto
    have kb: "0 < ?k" "?k < length hs" using split_nat_bounds [OF less.prems] by auto
    then have k2: "2 \<le> ?k" using k(1) by (cases "?k = 1") auto
    have td: "take (?k div 2) (pairs H hs) = pairs H (take ?k hs)"
      "drop (?k div 2) (pairs H hs) = pairs H (drop ?k hs)"
      using pairs_take_drop [OF k(1), of hs H] kb by auto
    have l: "tree_of H (pairs H (take ?k hs)) = tree_of H (take ?k hs)"
      by (rule less.hyps) (use kb k2 in auto)
    have r: "tree_of H (pairs H (drop ?k hs)) = tree_of H (drop ?k hs)"
    proof (cases "length (drop ?k hs) = 1")
      case True
      then obtain z where "drop ?k hs = [z]" unfolding One_nat_def length_Suc_conv length_0_conv by blast
      then show ?thesis by simp
    next
      case False
      then show ?thesis by (intro less.hyps) (use kb in auto)
    qed
    have "2 \<le> length (pairs H hs)" using n by (simp add: length_pairs)
    then have "tree_of H (pairs H hs) = innerHash H (tree_of H (take ?k hs)) (tree_of H (drop ?k hs))"
      unfolding tree_of.simps [of H "pairs H hs"] k(2) td l r by auto
    then show ?thesis using less.prems unfolding tree_of.simps [of H hs] by auto
  qed
qed

text \<open>One pass of the inner loop is one level of pairing, in place.\<close>

lemma level_loop_length: "length (fst (level_loop H items rp wp sz)) = length items"
proof (induction H items rp wp sz rule: level_loop.induct)
  case (1 H items rp wp sz)
  then show ?case by (simp add: level_loop.simps [of H items])
qed

lemma level_loop_pairs:
  "wp \<le> rp \<Longrightarrow> rp \<le> sz \<Longrightarrow> sz \<le> length items \<Longrightarrow>
   take (snd (level_loop H items rp wp sz)) (fst (level_loop H items rp wp sz))
     = take wp items @ pairs H (take (sz - rp) (drop rp items))"
proof (induction H items rp wp sz rule: level_loop.induct)
  case (1 H items rp wp sz)
  note b = "1.prems"
  consider "rp = sz" | "sz = Suc rp" | "rp + 2 \<le> sz" using b by linarith
  then show ?case
  proof cases
    case 1
    then have "level_loop H items rp wp sz = (items, wp)"
      unfolding level_loop.simps [of H items rp wp sz] by simp
    then show ?thesis using 1 by simp
  next
    case 2
    let ?i = "items[wp := items ! rp]"
    have "level_loop H items rp wp sz = (?i, wp + 1)"
      unfolding level_loop.simps [of H items rp wp sz] level_loop.simps [of H ?i "rp + 1" "wp + 1" sz]
      using 2 by simp
    moreover have "take (sz - rp) (drop rp items) = [items ! rp]"
      using 2 b by (simp add: take_Suc_conv_app_nth)
    ultimately show ?thesis using 2 b by (simp add: take_Suc_conv_app_nth)
  next
    case 3
    let ?v = "innerHash H (items ! rp) (items ! (rp + 1))"
    let ?r = "level_loop H (items[wp := ?v]) (rp + 2) (wp + 1) sz"
    have step: "level_loop H items rp wp sz = ?r"
      unfolding level_loop.simps [of H items rp wp sz] using 3 by simp
    have IH: "take (snd ?r) (fst ?r) =
        take (wp + 1) (items[wp := ?v]) @ pairs H (take (sz - (rp + 2)) (drop (rp + 2) (items[wp := ?v])))"
      by (rule "1.IH"(1)) (use 3 b in auto)
    have d: "drop rp items = items ! rp # items ! (rp + 1) # drop (rp + 2) items"
      using 3 b by (metis Cons_nth_drop_Suc Suc_eq_plus1 Suc_le_lessD add_2_eq_Suc' le_trans less_Suc_eq less_le_trans)
    have "sz - rp = Suc (Suc (sz - (rp + 2)))" using 3 by linarith
    then have "pairs H (take (sz - rp) (drop rp items)) = ?v # pairs H (take (sz - (rp + 2)) (drop (rp + 2) items))"
      unfolding d by simp
    moreover have "take (wp + 1) (items[wp := ?v]) = take wp items @ [?v]"
      using 3 b by (simp add: take_Suc_conv_app_nth)
    moreover have "drop (rp + 2) (items[wp := ?v]) = drop (rp + 2) items" using b by simp
    ultimately show ?thesis unfolding step IH by simp
  qed
qed

lemma iterative_loop_tree_of: "sz \<le> length items \<Longrightarrow> iterative_loop H items sz = tree_of H (take sz items)"
proof (induction H items sz rule: iterative_loop.induct)
  case (1 H items sz)
  show ?case
  proof (cases "2 \<le> sz")
    case True
    let ?r = "level_loop H items 0 0 sz"
    have le: "snd ?r \<le> length (fst ?r)"
      using "1.prems" True by (simp add: level_loop_wp level_loop_length)
    have "iterative_loop H items sz = iterative_loop H (fst ?r) (snd ?r)"
      using True by (simp add: iterative_loop.simps [of H items] Let_def)
    also have "\<dots> = tree_of H (take (snd ?r) (fst ?r))"
      by (rule "1.IH") (use True le in auto)
    also have "take (snd ?r) (fst ?r) = pairs H (take sz items)"
      using level_loop_pairs [of 0 0 sz items H] "1.prems" by simp
    also have "tree_of H \<dots> = tree_of H (take sz items)"
      by (rule tree_of_pairs) (use True "1.prems" in simp)
    finally show ?thesis .
  next
    case False
    then have "sz = 0 \<or> sz = 1" by linarith
    then show ?thesis
      using "1.prems" by (auto simp: iterative_loop.simps [of H items] tree_of.simps [of H "take sz items"])
  qed
qed

text \<open>C29: The iterative tree hash returns the same root as the recursive one, for every hash
  function and every list of items.\<close>

theorem HashFromByteSlicesIterative_correct:
  "HashFromByteSlicesIterative H items = HashFromByteSlices H items"
  by (simp add: HashFromByteSlicesIterative_def Let_def iterative_loop_tree_of HashFromByteSlices_tree_of)

end
