(* ===== verification/Merkle_Proof.thy ===== *)
theory Merkle_Proof
  imports Merkle
begin

text \<open>
  Merkle inclusion proofs, \<open>src/source/crypto/merkle/proof.go\<close>. The proof builder links
  and mutates \<open>ProofNode\<close>s; the model keeps them in an explicit heap, a list of nodes
  indexed by address, so that \<open>Parent\<close>, \<open>Left\<close> and \<open>Right\<close> are the pointers
  of the code. The lemmas show that the builder's root is the tree hash, that every proof it
  builds verifies, and that, for 32-byte digests without collision among the strings hashed,
  a proof that verifies is about an item of the tree.
\<close>

section \<open>Model\<close>

record Proof =
  Total :: int
  Index :: int
  LeafHash :: "bytes option"
  Aunts :: "bytes list"

datatype proof_error =
    TotalNegative | IndexNegative | InvalidLeafHash | InvalidRootHash
  | LeafHashSize | TooManyAunts | AuntSize nat

definition hash_size :: nat where
  "hash_size = 32"

definition MaxAunts :: nat where
  "MaxAunts = 100"

text \<open>The result \<open>None\<close> is the nil slice. The panic of \<open>case 0\<close> is behind the first guard.\<close>

function computeHashFromAunts :: "hash_fn \<Rightarrow> int \<Rightarrow> int \<Rightarrow> bytes option \<Rightarrow> bytes list \<Rightarrow> bytes option" where
  "computeHashFromAunts H idx tot leaf innerHashes =
     (if idx \<ge> tot \<or> idx < 0 \<or> tot \<le> 0 then None
      else if tot = 1 then (if innerHashes \<noteq> [] then None else leaf)
      else if innerHashes = [] then None
      else (let numLeft = split_point tot in
        if idx < numLeft then
          (case computeHashFromAunts H idx numLeft leaf (butlast innerHashes) of
             None \<Rightarrow> None
           | Some leftHash \<Rightarrow> Some (innerHash H leftHash (last innerHashes)))
        else
          (case computeHashFromAunts H (idx - numLeft) (tot - numLeft) leaf (butlast innerHashes) of
             None \<Rightarrow> None
           | Some rightHash \<Rightarrow> Some (innerHash H (last innerHashes) rightHash))))"
  by pat_completeness auto
termination
  by (relation "measure (\<lambda>(H, i, t, l, hs). length hs)") auto

declare computeHashFromAunts.simps [simp del]

definition ComputeRootHash :: "hash_fn \<Rightarrow> Proof \<Rightarrow> bytes option" where
  "ComputeRootHash H sp = computeHashFromAunts H (Index sp) (Total sp) (LeafHash sp) (Aunts sp)"

definition Proof_Verify :: "hash_fn \<Rightarrow> Proof \<Rightarrow> bytes \<Rightarrow> bytes \<Rightarrow> proof_error + unit" where
  "Proof_Verify H sp rootHash leaf =
     (if Total sp < 0 then Inl TotalNegative
      else if Index sp < 0 then Inl IndexNegative
      else if slice_bytes (LeafHash sp) \<noteq> leafHash H leaf then Inl InvalidLeafHash
      else if slice_bytes (ComputeRootHash H sp) \<noteq> rootHash then Inl InvalidRootHash
      else Inr ())"

fun check_aunts :: "nat \<Rightarrow> bytes list \<Rightarrow> proof_error + unit" where
  "check_aunts i [] = Inr ()"
| "check_aunts i (a # as) = (if length a \<noteq> hash_size then Inl (AuntSize i) else check_aunts (Suc i) as)"

definition Proof_ValidateBasic :: "Proof \<Rightarrow> proof_error + unit" where
  "Proof_ValidateBasic sp =
     (if Total sp < 0 then Inl TotalNegative
      else if Index sp < 0 then Inl IndexNegative
      else if length (slice_bytes (LeafHash sp)) \<noteq> hash_size then Inl LeafHashSize
      else if length (Aunts sp) > MaxAunts then Inl TooManyAunts
      else check_aunts 0 (Aunts sp))"

definition Proof_ContentHash :: "hash_fn \<Rightarrow> Proof \<Rightarrow> bytes" where
  "Proof_ContentHash H p =
     HashFromByteSlices H
       [slice_bytes (IntToBytes (Int64 (word_of_int (Index p)))),
        slice_bytes (IntToBytes (Int64 (word_of_int (Total p)))),
        slice_bytes (LeafHash p),
        HashFromByteSlices H (Aunts p)]"

record ProofNode =
  Hash :: bytes
  Parent :: "nat option"
  Left :: "nat option"
  Right :: "nat option"

type_synonym node_heap = "ProofNode list"

definition new_node :: "bytes \<Rightarrow> ProofNode" where
  "new_node h = \<lparr>Hash = h, Parent = None, Left = None, Right = None\<rparr>"

function trailsFromByteSlices :: "hash_fn \<Rightarrow> bytes list \<Rightarrow> node_heap \<Rightarrow> node_heap \<times> nat list \<times> nat" where
  "trailsFromByteSlices H items hp =
     (if length items = 0 then (hp @ [new_node (emptyHash H)], [], length hp)
      else if length items = 1 then (hp @ [new_node (leafHash H (items ! 0))], [length hp], length hp)
      else
        (let k = split_nat items;
             (hp1, lefts, leftRoot) = trailsFromByteSlices H (take k items) hp;
             (hp2, rights, rightRoot) = trailsFromByteSlices H (drop k items) hp1;
             rootHash = innerHash H (Hash (hp2 ! leftRoot)) (Hash (hp2 ! rightRoot));
             root = length hp2;
             hp3 = hp2 @ [new_node rootHash];
             hp4 = hp3[leftRoot := (hp3 ! leftRoot)\<lparr>Parent := Some root, Right := Some rightRoot\<rparr>];
             hp5 = hp4[rightRoot := (hp4 ! rightRoot)\<lparr>Parent := Some root, Left := Some leftRoot\<rparr>]
         in (hp5, lefts @ rights, root)))"
  by pat_completeness auto
termination
  by (relation "measure (\<lambda>(H, items, hp). length items)")
    (simp only: wf_measure, (simp only: in_measure prod.case, use split_nat_less in blast)+)

declare trailsFromByteSlices.simps [simp del]

text \<open>
  The walk to the root. \<open>None\<close> is a walk that never reaches a node without parent, or an
  address outside the heap.
\<close>

partial_function (option) flatten_loop :: "node_heap \<Rightarrow> nat option \<Rightarrow> bytes list \<Rightarrow> bytes list option" where
  "flatten_loop hp spn innerHashes = (case spn of
      None \<Rightarrow> Some innerHashes
    | Some p \<Rightarrow>
        if p < length hp then
          flatten_loop hp (Parent (hp ! p))
            (case Left (hp ! p) of
               Some l \<Rightarrow> innerHashes @ [Hash (hp ! l)]
             | None \<Rightarrow> (case Right (hp ! p) of
                   Some r \<Rightarrow> innerHashes @ [Hash (hp ! r)]
                 | None \<Rightarrow> innerHashes))
        else None)"

definition FlattenAunts :: "node_heap \<Rightarrow> nat \<Rightarrow> bytes list option" where
  "FlattenAunts hp spn = flatten_loop hp (Some spn) []"

fun build_proofs :: "node_heap \<Rightarrow> int \<Rightarrow> nat \<Rightarrow> nat list \<Rightarrow> Proof list option" where
  "build_proofs hp tot i [] = Some []"
| "build_proofs hp tot i (trail # trails) = (case FlattenAunts hp trail of
      None \<Rightarrow> None
    | Some aunts \<Rightarrow>
        map_option (\<lambda>ps. \<lparr>Total = tot, Index = int i, LeafHash = Some (Hash (hp ! trail)),
            Aunts = aunts\<rparr> # ps) (build_proofs hp tot (Suc i) trails))"

definition ProofsFromByteSlices :: "hash_fn \<Rightarrow> bytes list \<Rightarrow> (bytes \<times> Proof list) option" where
  "ProofsFromByteSlices H items =
     (let (hp, trails, root) = trailsFromByteSlices H items []
      in map_option (\<lambda>ps. (Hash (hp ! root), ps)) (build_proofs hp (int (length items)) 0 trails))"

section \<open>Reference definitions\<close>

text \<open>The aunts of the item at an index, from the leaf's sibling to a child of the root.\<close>

function aunts_of :: "hash_fn \<Rightarrow> bytes list \<Rightarrow> nat \<Rightarrow> bytes list" where
  "aunts_of H items i =
     (if length items = 0 then [] else if length items = 1 then []
      else if i < split_nat items
        then aunts_of H (take (split_nat items) items) i @ [HashFromByteSlices H (drop (split_nat items) items)]
        else aunts_of H (drop (split_nat items) items) (i - split_nat items)
               @ [HashFromByteSlices H (take (split_nat items) items)])"
  by pat_completeness auto
termination
  by (relation "measure (\<lambda>(H, items, i). length items)")
    (simp only: wf_measure, (simp only: in_measure prod.case, use split_nat_less in blast)+)

declare aunts_of.simps [simp del]

text \<open>The strings hashed while the tree hash, and while a proof, is computed.\<close>

function tree_inputs :: "hash_fn \<Rightarrow> bytes list \<Rightarrow> bytes set" where
  "tree_inputs H items =
     (if length items = 0 then {[]} else if length items = 1 then {0 # items ! 0}
      else insert (1 # HashFromByteSlices H (take (split_nat items) items)
                     @ HashFromByteSlices H (drop (split_nat items) items))
             (tree_inputs H (take (split_nat items) items) \<union> tree_inputs H (drop (split_nat items) items)))"
  by pat_completeness auto
termination
  by (relation "measure (\<lambda>(H, items). length items)")
    (simp only: wf_measure, (simp only: in_measure prod.case, use split_nat_less in blast)+)

declare tree_inputs.simps [simp del]

function path_inputs :: "hash_fn \<Rightarrow> int \<Rightarrow> int \<Rightarrow> bytes \<Rightarrow> bytes list \<Rightarrow> bytes set" where
  "path_inputs H idx tot leaf hs =
     (if idx \<ge> tot \<or> idx < 0 \<or> tot \<le> 1 \<or> hs = [] then {}
      else if idx < split_point tot then
        insert (1 # slice_bytes (computeHashFromAunts H idx (split_point tot) (Some leaf) (butlast hs)) @ last hs)
          (path_inputs H idx (split_point tot) leaf (butlast hs))
      else
        insert (1 # last hs @ slice_bytes (computeHashFromAunts H (idx - split_point tot)
                   (tot - split_point tot) (Some leaf) (butlast hs)))
          (path_inputs H (idx - split_point tot) (tot - split_point tot) leaf (butlast hs)))"
  by pat_completeness auto
termination
  by (relation "measure (\<lambda>(H, i, t, l, hs). length hs)") auto

declare path_inputs.simps [simp del]

definition proof_inputs :: "hash_fn \<Rightarrow> Proof \<Rightarrow> bytes \<Rightarrow> bytes set" where
  "proof_inputs H sp leaf =
     insert (0 # leaf) (path_inputs H (Index sp) (Total sp) (leafHash H leaf) (Aunts sp))"

section \<open>One step of each recursion\<close>

lemma HashFromByteSlices_node:
  "2 \<le> length items \<Longrightarrow> HashFromByteSlices H items =
     innerHash H (HashFromByteSlices H (take (split_nat items) items)) (HashFromByteSlices H (drop (split_nat items) items))"
  unfolding HashFromByteSlices.simps [of H items] Let_def by auto

lemma computeHash_node:
  assumes "0 \<le> i" "i < t" "2 \<le> t" "hs \<noteq> []"
  shows "computeHashFromAunts H i t lf hs =
     (if i < split_point t
      then map_option (\<lambda>l. innerHash H l (last hs)) (computeHashFromAunts H i (split_point t) lf (butlast hs))
      else map_option (\<lambda>r. innerHash H (last hs) r)
             (computeHashFromAunts H (i - split_point t) (t - split_point t) lf (butlast hs)))"
  unfolding computeHashFromAunts.simps [of H i t lf hs] Let_def using assms by (simp add: map_option_case)

lemma split_obtain:
  assumes "2 \<le> length items"
  obtains k where "split_point (int (length items)) = int k" "split_nat items = k"
    "0 < k" "k < length items"
  using split_nat_bounds [OF assms] by (intro that [of "split_nat items"]) auto

section \<open>Completeness\<close>

lemma compute_aunts_of:
  "i < length items \<Longrightarrow>
   computeHashFromAunts H (int i) (int (length items)) (Some (leafHash H (items ! i))) (aunts_of H items i)
     = Some (HashFromByteSlices H items)"
proof (induction H items i rule: aunts_of.induct)
  case (1 H items i)
  show ?case
  proof (cases "length items = 1")
    case True
    then show ?thesis
      using "1.prems" by (simp add: aunts_of.simps [of H items] HashFromByteSlices.simps [of H items]
          computeHashFromAunts.simps [of H 0 1])
  next
    case False
    then have two: "2 \<le> length items" using "1.prems" by linarith
    obtain k where k: "split_point (int (length items)) = int k" "split_nat items = k" "0 < k" "k < length items"
      using split_obtain [OF two] .
    note root = HashFromByteSlices_node [OF two, unfolded k(2)]
    show ?thesis
    proof (cases "i < k")
      case True
      have "computeHashFromAunts H (int i) (int (length (take k items))) (Some (leafHash H (take k items ! i)))
          (aunts_of H (take k items) i) = Some (HashFromByteSlices H (take k items))"
        by (rule "1.IH"(1) [unfolded k(2)]) (use two True k in auto)
      moreover have "aunts_of H items i = aunts_of H (take k items) i @ [HashFromByteSlices H (drop k items)]"
        unfolding aunts_of.simps [of H items i] k(2) using two True by auto
      ultimately show ?thesis
        using True two k "1.prems" by (simp add: root computeHash_node)
    next
      case F: False
      have "computeHashFromAunts H (int (i - k)) (int (length (drop k items)))
          (Some (leafHash H (drop k items ! (i - k)))) (aunts_of H (drop k items) (i - k))
          = Some (HashFromByteSlices H (drop k items))"
        by (rule "1.IH"(2) [unfolded k(2)]) (use two F k "1.prems" in auto)
      moreover have "aunts_of H items i = aunts_of H (drop k items) (i - k) @ [HashFromByteSlices H (take k items)]"
        unfolding aunts_of.simps [of H items i] k(2) using two F by auto
      ultimately show ?thesis
        using F two k "1.prems" by (simp add: root computeHash_node of_nat_diff)
    qed
  qed
qed

text \<open>
  The walk from a leaf to the root of its subtree, inside the part of the heap that the
  subtree allocated. It reads no pointer of the subtree's root, so linking that root into a
  larger tree keeps it.
\<close>

definition aunt_ptr :: "ProofNode \<Rightarrow> nat option" where
  "aunt_ptr n = (case Left n of Some l \<Rightarrow> Some l | None \<Rightarrow> Right n)"

fun climbs :: "node_heap \<Rightarrow> nat \<Rightarrow> nat \<Rightarrow> nat \<Rightarrow> nat \<Rightarrow> bytes list \<Rightarrow> bool" where
  "climbs hp lo hi p r [] \<longleftrightarrow> p = r \<and> lo \<le> p \<and> p < hi"
| "climbs hp lo hi p r (a # as) \<longleftrightarrow> lo \<le> p \<and> p < hi \<and> p \<noteq> r \<and>
     (\<exists>q s. Parent (hp ! p) = Some q \<and> aunt_ptr (hp ! p) = Some s \<and> lo \<le> s \<and> s < hi
        \<and> Hash (hp ! s) = a \<and> climbs hp lo hi q r as)"

lemma climbs_cong:
  assumes "climbs hp lo hi p r as"
    and "\<And>a. lo \<le> a \<Longrightarrow> a < hi \<Longrightarrow> Hash (hp' ! a) = Hash (hp ! a)"
    and "\<And>a. lo \<le> a \<Longrightarrow> a < hi \<Longrightarrow> a \<noteq> r \<Longrightarrow> hp' ! a = hp ! a"
  shows "climbs hp' lo hi p r as"
  using assms(1)
proof (induction as arbitrary: p)
  case (Cons a as)
  then show ?case using assms(2,3) by fastforce
qed simp

lemma climbs_snoc:
  assumes "climbs hp lo hi p r as" "lo' \<le> lo" "hi \<le> hi'" "hi \<le> r'" "r' < hi'"
    and "Parent (hp ! r) = Some r'" "aunt_ptr (hp ! r) = Some s" "lo' \<le> s" "s < hi'" "Hash (hp ! s) = a"
  shows "climbs hp lo' hi' p r' (as @ [a])"
  using assms(1)
proof (induction as arbitrary: p)
  case Nil
  then show ?case using assms(2-) by auto
next
  case (Cons b as)
  then obtain q t where "Parent (hp ! p) = Some q" "aunt_ptr (hp ! p) = Some t" "lo \<le> t" "t < hi"
    "Hash (hp ! t) = b" "climbs hp lo hi q r as" "lo \<le> p" "p < hi" by auto
  then show ?case using Cons.IH [of q] assms(2-5) by (auto intro!: exI [of _ t])
qed

lemma flatten_loop_climbs:
  "climbs hp lo (length hp) p r as \<Longrightarrow> hp ! r = new_node h \<Longrightarrow> flatten_loop hp (Some p) acc = Some (acc @ as)"
proof (induction as arbitrary: p acc)
  case Nil
  then show ?case
    by (simp add: flatten_loop.simps [of hp "Some r"] flatten_loop.simps [of hp None] new_node_def)
next
  case (Cons a as)
  then obtain q s where q: "Parent (hp ! p) = Some q" "aunt_ptr (hp ! p) = Some s" "Hash (hp ! s) = a"
    "climbs hp lo (length hp) q r as" "p < length hp" by auto
  have "flatten_loop hp (Some p) acc = flatten_loop hp (Some q) (acc @ [a])"
    using q(1,2,3,5) unfolding flatten_loop.simps [of hp "Some p"] aunt_ptr_def
    by (auto split: option.splits)
  then show ?case using Cons.IH [OF q(4) Cons.prems(2)] by simp
qed

text \<open>What \<open>trailsFromByteSlices\<close> establishes of the heap above address \<open>n\<close>.\<close>

definition trails_ok :: "hash_fn \<Rightarrow> bytes list \<Rightarrow> nat \<Rightarrow> node_heap \<Rightarrow> nat list \<Rightarrow> nat \<Rightarrow> bool" where
  "trails_ok H items n hp ts r \<longleftrightarrow>
     n \<le> r \<and> r < length hp \<and> hp ! r = new_node (HashFromByteSlices H items) \<and> length ts = length items
     \<and> (\<forall>i < length items. climbs hp n (length hp) (ts ! i) r (aunts_of H items i)
          \<and> n \<le> ts ! i \<and> ts ! i < length hp \<and> Hash (hp ! (ts ! i)) = leafHash H (items ! i))"

lemma trails_merge:
  assumes L: "trails_ok H (take k items) n hp1 lefts lr"
    and pre: "take (length hp1) hp2 = hp1"
    and R: "trails_ok H (drop k items) (length hp1) hp2 rights rr"
    and two: "2 \<le> length items" and k: "split_nat items = k" "0 < k" "k < length items"
    and hp3: "hp3 = hp2 @ [new_node (innerHash H (Hash (hp2 ! lr)) (Hash (hp2 ! rr)))]"
    and hp4: "hp4 = hp3[lr := (hp3 ! lr)\<lparr>Parent := Some (length hp2), Right := Some rr\<rparr>]"
    and hp5: "hp5 = hp4[rr := (hp4 ! rr)\<lparr>Parent := Some (length hp2), Left := Some lr\<rparr>]"
  shows "trails_ok H items n hp5 (lefts @ rights) (length hp2) \<and> take n hp5 = take n hp1"
proof -
  let ?n1 = "length hp1" and ?n2 = "length hp2"
  have le: "?n1 \<le> ?n2" using pre by (metis length_take min.cobounded1)
  have old: "hp2 ! a = hp1 ! a" if "a < ?n1" for a using that pre by (metis nth_take)
  have l: "n \<le> lr" "lr < ?n1" "hp1 ! lr = new_node (HashFromByteSlices H (take k items))" "length lefts = k"
    using L k by (auto simp: trails_ok_def)
  have r: "?n1 \<le> rr" "rr < ?n2" "hp2 ! rr = new_node (HashFromByteSlices H (drop k items))"
    "length rights = length items - k"
    using R by (auto simp: trails_ok_def)
  have len: "length hp5 = Suc ?n2" by (simp add: hp3 hp4 hp5)
  have root: "hp5 ! ?n2 = new_node (HashFromByteSlices H items)"
    using l r le old [of lr] by (simp add: hp3 hp4 hp5 nth_append HashFromByteSlices_node [OF two] k new_node_def)
  have nl: "hp5 ! lr = (hp2 ! lr)\<lparr>Parent := Some ?n2, Right := Some rr\<rparr>"
    using l r le by (simp add: hp3 hp4 hp5 nth_append)
  have nr: "hp5 ! rr = (hp2 ! rr)\<lparr>Parent := Some ?n2, Left := Some lr\<rparr>"
    using l r le by (simp add: hp3 hp4 hp5 nth_append)
  have oth: "hp5 ! a = hp2 ! a" if "a < ?n2" "a \<noteq> lr" "a \<noteq> rr" for a
    using that by (simp add: hp3 hp4 hp5 nth_append)
  have hash: "Hash (hp5 ! a) = Hash (hp2 ! a)" if "a < ?n2" for a
    using that nl nr oth [of a] by (cases "a = lr"; cases "a = rr") auto
  have "climbs hp5 n (length hp5) ((lefts @ rights) ! i) ?n2 (aunts_of H items i)
      \<and> n \<le> (lefts @ rights) ! i \<and> (lefts @ rights) ! i < length hp5
      \<and> Hash (hp5 ! ((lefts @ rights) ! i)) = leafHash H (items ! i)"
    if i: "i < length items" for i
  proof (cases "i < k")
    case True
    then have c: "climbs hp1 n ?n1 (lefts ! i) lr (aunts_of H (take k items) i)"
      and b: "n \<le> lefts ! i" "lefts ! i < ?n1" "Hash (hp1 ! (lefts ! i)) = leafHash H (items ! i)"
      using L k by (auto simp: trails_ok_def)
    have "climbs hp5 n ?n1 (lefts ! i) lr (aunts_of H (take k items) i)"
      by (rule climbs_cong [OF c]) (use old hash oth r le in auto)
    then have "climbs hp5 n (Suc ?n2) (lefts ! i) ?n2
        (aunts_of H (take k items) i @ [HashFromByteSlices H (drop k items)])"
      by (rule climbs_snoc [where s = rr])
        (use l r le nl old [of lr] hash [of rr] in \<open>auto simp: aunt_ptr_def new_node_def\<close>)
    moreover have "aunts_of H items i = aunts_of H (take k items) i @ [HashFromByteSlices H (drop k items)]"
      unfolding aunts_of.simps [of H items i] k(1) using two True by auto
    ultimately show ?thesis using b l True len le old hash by (simp add: nth_append)
  next
    case False
    then have j: "i - k < length (drop k items)" using i by simp
    have c: "climbs hp2 ?n1 ?n2 (rights ! (i - k)) rr (aunts_of H (drop k items) (i - k))"
      and b: "?n1 \<le> rights ! (i - k)" "rights ! (i - k) < ?n2"
        "Hash (hp2 ! (rights ! (i - k))) = leafHash H (items ! i)"
      using R j False k by (auto simp: trails_ok_def)
    have "climbs hp5 ?n1 ?n2 (rights ! (i - k)) rr (aunts_of H (drop k items) (i - k))"
      by (rule climbs_cong [OF c]) (use hash oth l in auto)
    then have "climbs hp5 n (Suc ?n2) (rights ! (i - k)) ?n2
        (aunts_of H (drop k items) (i - k) @ [HashFromByteSlices H (take k items)])"
      by (rule climbs_snoc [where s = lr])
        (use l r le nr old [of lr] hash [of lr] in \<open>auto simp: aunt_ptr_def new_node_def\<close>)
    moreover have "aunts_of H items i = aunts_of H (drop k items) (i - k) @ [HashFromByteSlices H (take k items)]"
      unfolding aunts_of.simps [of H items i] k(1) using two False by auto
    ultimately show ?thesis using b l False len le hash by (simp add: nth_append)
  qed
  moreover have "take n hp5 = take n hp1"
    using l r le pre by (simp add: hp3 hp4 hp5) (metis min.absorb2 min.strict_order_iff order_le_less_trans take_take)
  ultimately show ?thesis using l r le len root k by (simp add: trails_ok_def)
qed

lemma trails_correct:
  "trailsFromByteSlices H items hp = (hp', ts, r) \<Longrightarrow>
   trails_ok H items (length hp) hp' ts r \<and> take (length hp) hp' = hp"
proof (induction H items hp arbitrary: hp' ts r rule: trailsFromByteSlices.induct)
  case (1 H items hp)
  show ?case
  proof (cases "2 \<le> length items")
    case False
    have "length items = 0 \<or> length items = 1" using False by linarith
    then show ?thesis
    proof
      assume z: "length items = 0"
      then have "trailsFromByteSlices H items hp = (hp @ [new_node (emptyHash H)], [], length hp)"
        "HashFromByteSlices H items = emptyHash H"
        unfolding trailsFromByteSlices.simps [of H items] HashFromByteSlices.simps [of H items] by simp_all
      then show ?thesis using "1.prems" z by (auto simp: trails_ok_def)
    next
      assume o: "length items = 1"
      then have "trailsFromByteSlices H items hp =
          (hp @ [new_node (leafHash H (items ! 0))], [length hp], length hp)"
        "HashFromByteSlices H items = leafHash H (items ! 0)" "aunts_of H items 0 = []"
        unfolding trailsFromByteSlices.simps [of H items] HashFromByteSlices.simps [of H items]
          aunts_of.simps [of H items] by simp_all
      then show ?thesis using "1.prems" o by (auto simp: trails_ok_def new_node_def)
    qed
  next
    case two: True
    obtain k where k: "split_nat items = k" "0 < k" "k < length items" using split_obtain [OF two] .
    obtain hp1 lefts lr where t1: "trailsFromByteSlices H (take k items) hp = (hp1, lefts, lr)"
      using prod_cases3 by blast
    obtain hp2 rights rr where t2: "trailsFromByteSlices H (drop k items) hp1 = (hp2, rights, rr)"
      using prod_cases3 by blast
    have n01: "length items \<noteq> 0" "length items \<noteq> 1" using two by auto
    have L: "trails_ok H (take k items) (length hp) hp1 lefts lr \<and> take (length hp) hp1 = hp"
      by (rule "1.IH"(1) [OF n01 refl, unfolded k(1), OF t1])
    have R: "trails_ok H (drop k items) (length hp1) hp2 rights rr \<and> take (length hp1) hp2 = hp1"
      by (rule "1.IH"(2) [OF n01 refl _ refl, unfolded k(1), OF t1 [symmetric] refl t2])
    define hp3 where "hp3 = hp2 @ [new_node (innerHash H (Hash (hp2 ! lr)) (Hash (hp2 ! rr)))]"
    define hp4 where "hp4 = hp3[lr := (hp3 ! lr)\<lparr>Parent := Some (length hp2), Right := Some rr\<rparr>]"
    define hp5 where "hp5 = hp4[rr := (hp4 ! rr)\<lparr>Parent := Some (length hp2), Left := Some lr\<rparr>]"
    have "trailsFromByteSlices H items hp = (hp5, lefts @ rights, length hp2)"
      using n01 unfolding trailsFromByteSlices.simps [of H items hp] k(1) Let_def t1 prod.case t2
        hp5_def hp4_def hp3_def by (simp only: if_False)
    then have eq: "hp' = hp5" "ts = lefts @ rights" "r = length hp2" using "1.prems" by auto
    from L R have "trails_ok H items (length hp) hp5 (lefts @ rights) (length hp2)
        \<and> take (length hp) hp5 = take (length hp) hp1"
      by (intro trails_merge [OF _ _ _ two k hp3_def hp4_def hp5_def]) auto
    then show ?thesis using L unfolding eq by simp
  qed
qed

lemma build_proofs_eq:
  assumes "\<And>j. j < length ts \<Longrightarrow> FlattenAunts hp (ts ! j) = Some (f (n + j))"
  shows "build_proofs hp tot n ts = Some (map (\<lambda>j. \<lparr>Total = tot, Index = int (n + j),
      LeafHash = Some (Hash (hp ! (ts ! j))), Aunts = f (n + j)\<rparr>) [0..<length ts])"
  using assms
proof (induction ts arbitrary: n)
  case (Cons t ts)
  have "FlattenAunts hp t = Some (f n)" using Cons.prems [of 0] by simp
  moreover have "build_proofs hp tot (Suc n) ts = Some (map (\<lambda>j. \<lparr>Total = tot, Index = int (Suc n + j),
      LeafHash = Some (Hash (hp ! (ts ! j))), Aunts = f (Suc n + j)\<rparr>) [0..<length ts])"
    by (rule Cons.IH) (use Cons.prems [of "Suc j" for j] in simp)
  ultimately show ?case
    by (simp add: upt_conv_Cons map_Suc_upt [symmetric] comp_def del: upt_Suc)
qed simp

text \<open>The proof the builder makes for the item at an index.\<close>

definition honest_proof :: "hash_fn \<Rightarrow> bytes list \<Rightarrow> nat \<Rightarrow> Proof" where
  "honest_proof H items i = \<lparr>Total = int (length items), Index = int i,
     LeafHash = Some (leafHash H (items ! i)), Aunts = aunts_of H items i\<rparr>"

lemma ProofsFromByteSlices_eq:
  "ProofsFromByteSlices H items =
     Some (HashFromByteSlices H items, map (honest_proof H items) [0..<length items])"
proof -
  obtain hp ts r where t: "trailsFromByteSlices H items [] = (hp, ts, r)" using prod_cases3 by blast
  then have ok: "trails_ok H items 0 hp ts r" using trails_correct [OF t] by simp
  then have root: "hp ! r = new_node (HashFromByteSlices H items)" and len: "length ts = length items"
    by (auto simp: trails_ok_def)
  have fl: "FlattenAunts hp (ts ! j) = Some (aunts_of H items (0 + j))" if "j < length ts" for j
  proof -
    have "climbs hp 0 (length hp) (ts ! j) r (aunts_of H items j)"
      using ok that len by (auto simp: trails_ok_def)
    from flatten_loop_climbs [OF this root] show ?thesis by (simp add: FlattenAunts_def)
  qed
  show ?thesis
    using build_proofs_eq [of ts hp "aunts_of H items" 0 "int (length items)", OF fl] ok t root
    by (auto simp: ProofsFromByteSlices_def trails_ok_def honest_proof_def new_node_def)
qed

lemma honest_proof_verifies:
  "i < length items \<Longrightarrow> Proof_Verify H (honest_proof H items i) (HashFromByteSlices H items) (items ! i) = Inr ()"
  by (simp add: Proof_Verify_def honest_proof_def ComputeRootHash_def compute_aunts_of slice_bytes_def)

section \<open>Soundness\<close>

lemma inner_inj:
  assumes "inj_on H S" "1 # a @ b \<in> S" "1 # c @ d \<in> S" "innerHash H a b = innerHash H c d"
    "length a = length c \<or> length b = length d"
  shows "a = c \<and> b = d"
  using inj_onD [OF assms(1), of "1 # a @ b" "1 # c @ d"] assms(2-) by (auto simp: innerHash_def)

text \<open>The string whose digest the root is.\<close>

definition root_input :: "hash_fn \<Rightarrow> bytes list \<Rightarrow> bytes" where
  "root_input H items =
     (if length items = 0 then [] else if length items = 1 then 0 # items ! 0
      else 1 # HashFromByteSlices H (take (split_nat items) items) @ HashFromByteSlices H (drop (split_nat items) items))"

lemma root_input:
  "HashFromByteSlices H items = H (root_input H items)" "root_input H items \<in> tree_inputs H items"
  unfolding HashFromByteSlices.simps [of H items] tree_inputs.simps [of H items] root_input_def
  by (auto simp: emptyHash_def leafHash_def innerHash_def Let_def)

lemma tree_inputs_sub:
  "2 \<le> length items \<Longrightarrow> tree_inputs H (take (split_nat items) items) \<subseteq> tree_inputs H items
     \<and> tree_inputs H (drop (split_nat items) items) \<subseteq> tree_inputs H items"
  unfolding tree_inputs.simps [of H items] by auto

lemma computeHash_Some:
  assumes "computeHashFromAunts H i t lf hs = Some x" "t \<noteq> 1"
  shows "0 \<le> i" "i < t" "2 \<le> t" "hs \<noteq> []"
  using assms unfolding computeHashFromAunts.simps [of H i t lf hs] by (auto split: if_splits)

lemma computeHash_length:
  assumes "\<And>x. length (H x) = hash_size"
  shows "computeHashFromAunts H i t (Some (leafHash H leaf)) hs = Some x \<Longrightarrow> length x = hash_size"
  using assms unfolding computeHashFromAunts.simps [of H i t _ hs]
  by (auto simp: Let_def leafHash_def innerHash_def split: if_splits option.splits)

lemma root_length: "(\<And>x. length (H x) = hash_size) \<Longrightarrow> length (HashFromByteSlices H items) = hash_size"
  by (simp add: root_input(1))

lemma root_input_leaf: "root_input H items = 0 # leaf \<Longrightarrow> length items = 1 \<and> items ! 0 = leaf"
  by (auto simp: root_input_def split: if_splits)

lemma root_input_node:
  assumes len: "\<And>x. length (H x) = hash_size"
    and w: "root_input H items = 1 # l @ r" "length l = hash_size \<or> length r = hash_size"
  obtains k where "split_point (int (length items)) = int k" "k < length items"
    "l = HashFromByteSlices H (take k items)" "tree_inputs H (take k items) \<subseteq> tree_inputs H items"
    "r = HashFromByteSlices H (drop k items)" "tree_inputs H (drop k items) \<subseteq> tree_inputs H items"
proof -
  have n: "length items \<noteq> 0" "length items \<noteq> 1" using w(1) by (auto simp: root_input_def split: if_splits)
  then have two: "2 \<le> length items" by linarith
  obtain k where k: "split_point (int (length items)) = int k" "split_nat items = k" "0 < k" "k < length items"
    using split_obtain [OF two] .
  have "l @ r = HashFromByteSlices H (take k items) @ HashFromByteSlices H (drop k items)"
    using w(1) n unfolding root_input_def k(2) by simp
  then have "l = HashFromByteSlices H (take k items) \<and> r = HashFromByteSlices H (drop k items)"
    using w(2) root_length [OF len] by (auto simp: append_eq_append_conv)
  then show ?thesis using that k tree_inputs_sub [OF two, of H] by auto
qed

lemma proof_sound:
  assumes len: "\<And>x. length (H x) = hash_size"
  shows "computeHashFromAunts H i t (Some (leafHash H leaf)) hs = Some (HashFromByteSlices H items) \<Longrightarrow>
    inj_on H (tree_inputs H items \<union> insert (0 # leaf) (path_inputs H i t (leafHash H leaf) hs)) \<Longrightarrow>
    leaf \<in> set items \<and> (t = int (length items) \<longrightarrow> 0 \<le> i \<and> i < t \<and> items ! nat i = leaf)"
proof (induction hs arbitrary: i t items rule: rev_induct)
  case Nil
  have t: "t = 1" using computeHash_Some(4) [OF Nil.prems(1)] by blast
  have b: "i = 0" and "H (0 # leaf) = H (root_input H items)"
    using Nil.prems(1) unfolding computeHashFromAunts.simps [of H i 1 _ "[]"] t root_input(1) [of H items]
    by (auto simp: leafHash_def split: if_splits)
  then have "root_input H items = 0 # leaf"
    using inj_onD [OF Nil.prems(2), of "0 # leaf" "root_input H items"] root_input(2) by auto
  from root_input_leaf [OF this] show ?case using b t by (auto simp: in_set_conv_nth)
next
  case (snoc a hs)
  let ?lf = "Some (leafHash H leaf)" and ?p = "split_point t"
  have "t \<noteq> 1" using snoc.prems(1) unfolding computeHashFromAunts.simps [of H i t ?lf "hs @ [a]"]
    by (auto split: if_splits)
  note b = computeHash_Some [OF snoc.prems(1) this]
  note node = computeHash_node [OF b, of H ?lf, simplified butlast_snoc last_snoc]
  have root: "root_input H items = w" if "H w = HashFromByteSlices H items"
    "w \<in> path_inputs H i t (leafHash H leaf) (hs @ [a])" for w
    using inj_onD [OF snoc.prems(2), of w "root_input H items"] that root_input [of H items] by auto
  show ?case
  proof (cases "i < ?p")
    case True
    obtain x where x: "computeHashFromAunts H i ?p ?lf hs = Some x" "innerHash H x a = HashFromByteSlices H items"
      using snoc.prems(1) True unfolding node by auto
    have pin: "path_inputs H i t (leafHash H leaf) (hs @ [a])
        = insert (1 # x @ a) (path_inputs H i ?p (leafHash H leaf) hs)"
      unfolding path_inputs.simps [of H i t _ "hs @ [a]"] using b True x(1) by (simp add: slice_bytes_def)
    have rt: "root_input H items = 1 # x @ a" by (rule root) (use x(2) pin in \<open>auto simp: innerHash_def\<close>)
    have "length x = hash_size \<or> length a = hash_size" using computeHash_length [OF len x(1)] by blast
    from root_input_node [OF len rt this]
    obtain k where k: "split_point (int (length items)) = int k" "k < length items"
      and "x = HashFromByteSlices H (take k items)" and sub: "tree_inputs H (take k items) \<subseteq> tree_inputs H items"
      by blast
    moreover have "inj_on H (tree_inputs H (take k items) \<union> insert (0 # leaf) (path_inputs H i ?p (leafHash H leaf) hs))"
      by (rule inj_on_subset [OF snoc.prems(2)]) (use sub pin in auto)
    ultimately have IH: "leaf \<in> set (take k items) \<and>
        (?p = int (length (take k items)) \<longrightarrow> 0 \<le> i \<and> i < ?p \<and> take k items ! nat i = leaf)"
      using snoc.IH x(1) by blast
    then show ?thesis using k b True by (auto dest: in_set_takeD)
  next
    case False
    obtain x where x: "computeHashFromAunts H (i - ?p) (t - ?p) ?lf hs = Some x"
      "innerHash H a x = HashFromByteSlices H items"
      using snoc.prems(1) False unfolding node by auto
    have pin: "path_inputs H i t (leafHash H leaf) (hs @ [a])
        = insert (1 # a @ x) (path_inputs H (i - ?p) (t - ?p) (leafHash H leaf) hs)"
      unfolding path_inputs.simps [of H i t _ "hs @ [a]"] using b False x(1) by (simp add: slice_bytes_def)
    have rt: "root_input H items = 1 # a @ x" by (rule root) (use x(2) pin in \<open>auto simp: innerHash_def\<close>)
    have "length a = hash_size \<or> length x = hash_size" using computeHash_length [OF len x(1)] by blast
    from root_input_node [OF len rt this]
    obtain k where k: "split_point (int (length items)) = int k" "k < length items"
      and "x = HashFromByteSlices H (drop k items)" and sub: "tree_inputs H (drop k items) \<subseteq> tree_inputs H items"
      by blast
    moreover have "inj_on H (tree_inputs H (drop k items)
        \<union> insert (0 # leaf) (path_inputs H (i - ?p) (t - ?p) (leafHash H leaf) hs))"
      by (rule inj_on_subset [OF snoc.prems(2)]) (use sub pin in auto)
    ultimately have IH: "leaf \<in> set (drop k items) \<and> (t - ?p = int (length (drop k items)) \<longrightarrow>
        0 \<le> i - ?p \<and> i - ?p < t - ?p \<and> drop k items ! nat (i - ?p) = leaf)"
      using snoc.IH x(1) by blast
    then show ?thesis using k b False by (auto dest: in_set_dropD simp: nat_diff_distrib)
  qed
qed

lemma Verify_sound:
  assumes len: "\<And>x. length (H x) = hash_size"
    and ok: "Proof_Verify H sp (HashFromByteSlices H items) leaf = Inr ()"
    and inj: "inj_on H (tree_inputs H items \<union> proof_inputs H sp leaf)"
  shows "leaf \<in> set items \<and> (Total sp = int (length items) \<longrightarrow>
     0 \<le> Index sp \<and> Index sp < int (length items) \<and> items ! nat (Index sp) = leaf)"
proof -
  have ne: "HashFromByteSlices H items \<noteq> []" "leafHash H leaf \<noteq> []"
    using root_length [of H items, OF len] len [of "0 # leaf"] by (auto simp: hash_size_def leafHash_def)
  have "LeafHash sp = Some (leafHash H leaf)" "ComputeRootHash H sp = Some (HashFromByteSlices H items)"
    using ok ne by (auto simp: Proof_Verify_def slice_bytes_def split: if_splits option.splits)
  then have "computeHashFromAunts H (Index sp) (Total sp) (Some (leafHash H leaf)) (Aunts sp)
      = Some (HashFromByteSlices H items)"
    by (simp add: ComputeRootHash_def)
  from proof_sound [OF len this] inj show ?thesis by (simp add: proof_inputs_def)
qed

lemma root_inj:
  assumes len: "\<And>x. length (H x) = hash_size"
  shows "HashFromByteSlices H xs = HashFromByteSlices H ys \<Longrightarrow> inj_on H (tree_inputs H xs \<union> tree_inputs H ys) \<Longrightarrow> xs = ys"
proof (induction "length xs" arbitrary: xs ys rule: less_induct)
  case less
  have eq: "root_input H xs = root_input H ys"
    using inj_onD [OF less.prems(2), of "root_input H xs" "root_input H ys"] less.prems(1) root_input by auto
  consider "length xs = 0" | "length xs = 1" | "2 \<le> length xs" by linarith
  then show ?case
  proof cases
    case 1
    then show ?thesis using eq by (auto simp: root_input_def split: if_splits)
  next
    case 2
    then have "root_input H ys = 0 # xs ! 0" using eq by (simp add: root_input_def)
    from root_input_leaf [OF this] 2 show ?thesis by (auto simp: length_Suc_conv)
  next
    case 3
    obtain k where k: "split_nat xs = k" "0 < k" "k < length xs" using split_obtain [OF 3] by blast
    have "root_input H xs = 1 # HashFromByteSlices H (take k xs) @ HashFromByteSlices H (drop k xs)"
      unfolding root_input_def k(1) using 3 by auto
    then have w: "root_input H ys = 1 # HashFromByteSlices H (take k xs) @ HashFromByteSlices H (drop k xs)" by (simp only: eq)
    have sz: "length (HashFromByteSlices H (take k xs)) = hash_size \<or> length (HashFromByteSlices H (drop k xs)) = hash_size"
      by (rule disjI1) (rule root_length [OF len])
    obtain m where m: "HashFromByteSlices H (take k xs) = HashFromByteSlices H (take m ys)" "tree_inputs H (take m ys) \<subseteq> tree_inputs H ys"
      "HashFromByteSlices H (drop k xs) = HashFromByteSlices H (drop m ys)" "tree_inputs H (drop m ys) \<subseteq> tree_inputs H ys"
      by (rule root_input_node [OF len w sz]) (rule that)
    have sub: "tree_inputs H (take k xs) \<subseteq> tree_inputs H xs" "tree_inputs H (drop k xs) \<subseteq> tree_inputs H xs"
      using tree_inputs_sub [OF 3, of H] k(1) by auto
    have "take k xs = take m ys"
      by (rule less.hyps [OF _ m(1)]) (use k in simp, rule inj_on_subset [OF less.prems(2)], use sub m in blast)
    moreover have "drop k xs = drop m ys"
      by (rule less.hyps [OF _ m(3)]) (use k in simp, rule inj_on_subset [OF less.prems(2)], use sub m in blast)
    ultimately show ?thesis by (metis append_take_drop_id)
  qed
qed

lemma leaf_input: "i < length items \<Longrightarrow> 0 # items ! i \<in> tree_inputs H items"
proof (induction H items arbitrary: i rule: tree_inputs.induct)
  case (1 H items)
  show ?case
  proof (cases "length items = 1")
    case True
    then show ?thesis using "1.prems" by (simp add: tree_inputs.simps [of H items])
  next
    case False
    then have two: "2 \<le> length items" "length items \<noteq> 0" using "1.prems" by linarith+
    obtain k where k: "split_nat items = k" "0 < k" "k < length items" using split_obtain [OF two(1)] by blast
    note sub = tree_inputs_sub [OF two(1), of H, unfolded k(1)]
    show ?thesis
    proof (cases "i < k")
      case True
      have "0 # take k items ! i \<in> tree_inputs H (take k items)"
        by (rule "1.IH"(1) [OF two(2) False, unfolded k(1)]) (use True k in simp)
      then show ?thesis using sub True by auto
    next
      case F: False
      have "0 # drop k items ! (i - k) \<in> tree_inputs H (drop k items)"
        by (rule "1.IH"(2) [OF two(2) False, unfolded k(1)]) (use F k "1.prems" in simp)
      then show ?thesis using sub F k by auto
    qed
  qed
qed

lemma honest_path_inputs:
  "i < length items \<Longrightarrow>
     path_inputs H (int i) (int (length items)) (leafHash H (items ! i)) (aunts_of H items i) \<subseteq> tree_inputs H items"
proof (induction H items i rule: aunts_of.induct)
  case (1 H items i)
  show ?case
  proof (cases "length items = 1")
    case True
    then show ?thesis by (simp add: path_inputs.simps [of H _ 1])
  next
    case False
    then have two: "2 \<le> length items" "length items \<noteq> 0" using "1.prems" by linarith+
    obtain k where k: "split_point (int (length items)) = int k" "split_nat items = k" "0 < k" "k < length items"
      using split_obtain [OF two(1)] .
    note sub = tree_inputs_sub [OF two(1), of H, unfolded k(2)]
    have node: "1 # HashFromByteSlices H (take k items) @ HashFromByteSlices H (drop k items) \<in> tree_inputs H items"
      unfolding tree_inputs.simps [of H items] k(2) using False two(2) by simp
    show ?thesis
    proof (cases "i < k")
      case True
      have a: "aunts_of H items i = aunts_of H (take k items) i @ [HashFromByteSlices H (drop k items)]"
        unfolding aunts_of.simps [of H items i] k(2) using False two True by simp
      have c: "computeHashFromAunts H (int i) (int k) (Some (leafHash H (items ! i))) (aunts_of H (take k items) i)
          = Some (HashFromByteSlices H (take k items))"
        using compute_aunts_of [of i "take k items" H] True k by simp
      have "path_inputs H (int i) (int k) (leafHash H (items ! i)) (aunts_of H (take k items) i) \<subseteq> tree_inputs H (take k items)"
        using "1.IH"(1) [OF two(2) False, unfolded k(2), OF True] True k by simp
      then show ?thesis using True two k sub node
        unfolding path_inputs.simps [of H "int i" "int (length items)"] a by (auto simp: c slice_bytes_def)
    next
      case F: False
      have a: "aunts_of H items i = aunts_of H (drop k items) (i - k) @ [HashFromByteSlices H (take k items)]"
        unfolding aunts_of.simps [of H items i] k(2) using False two F by simp
      have c: "computeHashFromAunts H (int i - int k) (int (length items) - int k) (Some (leafHash H (items ! i))) (aunts_of H (drop k items) (i - k))
          = Some (HashFromByteSlices H (drop k items))"
        using compute_aunts_of [of "i - k" "drop k items" H] F k "1.prems" by (simp add: of_nat_diff)
      have "path_inputs H (int i - int k) (int (length items) - int k) (leafHash H (items ! i)) (aunts_of H (drop k items) (i - k))
          \<subseteq> tree_inputs H (drop k items)"
        using "1.IH"(2) [OF two(2) False, unfolded k(2), OF F] F k "1.prems" by (simp add: of_nat_diff)
      then show ?thesis using F two k sub node
        unfolding path_inputs.simps [of H "int i" "int (length items)"] a by (auto simp: c slice_bytes_def)
    qed
  qed
qed

lemma honest_inputs: "i < length items \<Longrightarrow> proof_inputs H (honest_proof H items i) (items ! i) \<subseteq> tree_inputs H items"
  using honest_path_inputs [of i items H] leaf_input [of i items H] by (simp add: proof_inputs_def honest_proof_def)

section \<open>Size of the generated proofs\<close>

lemma aunts_of_length: "length items \<le> 2 ^ j \<Longrightarrow> length (aunts_of H items i) \<le> j"
proof (induction j arbitrary: items i)
  case 0
  then have "length items \<le> 1" by simp
  then have "length items = 0 \<or> length items = 1" by linarith
  then show ?case unfolding aunts_of.simps [of H items i] by auto
next
  case (Suc j)
  show ?case
  proof (cases "2 \<le> length items")
    case False
    then have "length items = 0 \<or> length items = 1" by linarith
    then show ?thesis unfolding aunts_of.simps [of H items i] by auto
  next
    case True
    obtain m where m: "split_point (int (length items)) = int (2 ^ m)" "2 ^ m < length items"
      "length items \<le> 2 * 2 ^ m" using split_point_power [OF True] by blast
    have "(2::nat) ^ m < 2 ^ Suc j" using m(2) Suc.prems by linarith
    then have "m \<le> j" using power_less_imp_less_exp [of "2::nat" m "Suc j"] by auto
    then have le: "(2::nat) ^ m \<le> 2 ^ j" by simp
    have "length (aunts_of H (take (2 ^ m) items) i) \<le> j" by (rule Suc.IH) (use le m in auto)
    moreover have "length (drop (2 ^ m) items) \<le> 2 ^ j" using le m(3) unfolding length_drop by linarith
    then have "length (aunts_of H (drop (2 ^ m) items) (i - 2 ^ m)) \<le> j" by (rule Suc.IH)
    ultimately show ?thesis unfolding aunts_of.simps [of H items i] m(1) nat_int by auto
  qed
qed

lemma aunts_of_size:
  assumes "\<And>x. length (H x) = hash_size"
  shows "\<forall>a \<in> set (aunts_of H items i). length a = hash_size"
proof (induction "length items" arbitrary: items i rule: less_induct)
  case less
  show ?case
  proof (cases "length items = 0 \<or> length items = 1")
    case True
    then show ?thesis unfolding aunts_of.simps [of H items i] by auto
  next
    case False
    then show ?thesis
      using less [of "take (split_nat items) items"] less [of "drop (split_nat items) items"]
        split_nat_less [of items] root_length [OF assms]
      unfolding aunts_of.simps [of H items i] by (auto simp only: if_False if_True set_append list.set split: if_split)
  qed
qed

lemma check_aunts_ok: "(\<forall>a \<in> set as. length a = hash_size) \<Longrightarrow> check_aunts n as = Inr ()"
  by (induction as arbitrary: n) auto

section \<open>The interface: commitments to a list\<close>

locale vector_commitment =
  fixes commit :: "'x list \<Rightarrow> 'r"
    and openings :: "'x list \<Rightarrow> 'p list"
    and verify :: "'p \<Rightarrow> 'r \<Rightarrow> 'x \<Rightarrow> bool"
    and pos :: "'p \<Rightarrow> int"
    and width :: "'p \<Rightarrow> int"
    and binding :: "'x list \<Rightarrow> 'p \<Rightarrow> 'x \<Rightarrow> bool"
  assumes openings_length: "length (openings xs) = length xs"
    and complete: "i < length xs \<Longrightarrow> verify (openings xs ! i) (commit xs) (xs ! i)"
    and position: "i < length xs \<Longrightarrow>
      pos (openings xs ! i) = int i \<and> width (openings xs ! i) = int (length xs)"
    and sound: "binding xs p x \<Longrightarrow> verify p (commit xs) x \<Longrightarrow> width p = int (length xs) \<Longrightarrow>
      0 \<le> pos p \<and> pos p < int (length xs) \<and> xs ! nat (pos p) = x"
begin

text \<open>Elements received with verified openings for every position are the committed list.\<close>

lemma collected_unique:
  assumes "length ys = length xs" "length ps = length xs"
    and "\<And>i. i < length xs \<Longrightarrow> verify (ps ! i) (commit xs) (ys ! i) \<and> pos (ps ! i) = int i
        \<and> width (ps ! i) = int (length xs) \<and> binding xs (ps ! i) (ys ! i)"
  shows "ys = xs"
proof (rule nth_equalityI)
  fix i assume "i < length ys"
  then show "ys ! i = xs ! i" using assms sound [of xs "ps ! i" "ys ! i"] by auto
qed (rule assms(1))

end

definition proofs_of :: "hash_fn \<Rightarrow> bytes list \<Rightarrow> Proof list" where
  "proofs_of H items = (case ProofsFromByteSlices H items of None \<Rightarrow> [] | Some (_, ps) \<Rightarrow> ps)"

definition no_collision :: "hash_fn \<Rightarrow> bytes list \<Rightarrow> Proof \<Rightarrow> bytes \<Rightarrow> bool" where
  "no_collision H items sp leaf \<longleftrightarrow>
     (\<forall>x. length (H x) = hash_size) \<and> inj_on H (tree_inputs H items \<union> proof_inputs H sp leaf)"

interpretation merkle: vector_commitment "HashFromByteSlices H" "proofs_of H"
  "\<lambda>sp root leaf. Proof_Verify H sp root leaf = Inr ()" Index Total "no_collision H" for H
proof unfold_locales
  fix xs p x
  assume "no_collision H xs p x" "Proof_Verify H p (HashFromByteSlices H xs) x = Inr ()" "Total p = int (length xs)"
  then show "0 \<le> Index p \<and> Index p < int (length xs) \<and> xs ! nat (Index p) = x"
    using Verify_sound [of H p xs x] by (simp add: no_collision_def)
qed (simp_all add: proofs_of_def ProofsFromByteSlices_eq honest_proof_verifies, simp add: honest_proof_def)

section \<open>A 32-byte function for concrete instances\<close>

definition pad_hash :: hash_fn where
  "pad_hash x = take hash_size (x @ replicate hash_size 0)"

lemma pad_hash_length: "length (pad_hash x) = hash_size"
  by (simp add: pad_hash_def)

lemma pad_hash_nth: "i < hash_size \<Longrightarrow> pad_hash x ! i = (if i < length x then x ! i else 0)"
  by (simp add: pad_hash_def nth_append)

lemma pad_hash_inj:
  "inj_on pad_hash (tree_inputs pad_hash [[5], [7]]
     \<union> proof_inputs pad_hash (honest_proof pad_hash [[5], [7]] 1) [7])"
proof -
  have sp: "split_point 2 = 1" by code_simp
  have one: "HashFromByteSlices pad_hash [x] = pad_hash (0 # x)" "tree_inputs pad_hash [x] = {0 # x}" for x
    unfolding HashFromByteSlices.simps [of _ "[x]"] tree_inputs.simps [of _ "[x]"] by (simp_all add: leafHash_def)
  have tree: "tree_inputs pad_hash [[5], [7]] =
      {1 # pad_hash [0, 5] @ pad_hash [0, 7], [0, 5], [0, 7]}"
    unfolding tree_inputs.simps [of _ "[[5], [7]]"] by (simp add: sp one insert_commute)
  have aunts: "aunts_of pad_hash [[5], [7]] 1 = [pad_hash [0, 5]]"
    unfolding aunts_of.simps [of _ "[[5], [7]]"] by (simp add: sp one aunts_of.simps [of _ "[[7]]"])
  have leaf: "computeHashFromAunts pad_hash 0 1 (Some lf) [] = Some lf" "path_inputs pad_hash 0 1 lf [] = {}" for lf
    unfolding computeHashFromAunts.simps [of _ 0 1] path_inputs.simps [of _ 0 1] by simp_all
  have pin: "proof_inputs pad_hash (honest_proof pad_hash [[5], [7]] 1) [7] =
      {[0, 7], 1 # pad_hash [0, 5] @ pad_hash [0, 7]}"
    unfolding proof_inputs_def honest_proof_def path_inputs.simps [of _ 1 2]
    by (simp add: aunts [unfolded One_nat_def] path_inputs.simps [of _ 1 2] sp leaf leafHash_def slice_bytes_def)
  define c where "c = 1 # pad_hash [0, 5] @ pad_hash [0, 7]"
  have nth: "pad_hash [0, 5] ! 0 = 0" "pad_hash [0, 7] ! 0 = 0" "pad_hash c ! 0 = 1"
    "pad_hash [0, 5] ! 1 = 5" "pad_hash [0, 7] ! 1 = 7"
    by (simp_all add: pad_hash_nth c_def hash_size_def)
  have "pad_hash [0, 5] \<noteq> pad_hash [0, 7]" "pad_hash [0, 5] \<noteq> pad_hash c" "pad_hash [0, 7] \<noteq> pad_hash c"
    using nth by force+
  then show ?thesis unfolding tree pin c_def [symmetric] by (auto simp: inj_on_def)
qed

section \<open>Properties\<close>

text \<open>
  C28: building proofs always returns; its root is the tree hash, the proofs are numbered in
  order, and each of them verifies its own item against that root.
\<close>

theorem ProofsFromByteSlices_complete:
  "\<exists>ps. ProofsFromByteSlices H items = Some (HashFromByteSlices H items, ps)
     \<and> map Index ps = map int [0..<length items]
     \<and> list_all2 (\<lambda>sp leaf. Proof_Verify H sp (HashFromByteSlices H items) leaf = Inr ()) ps items"
  unfolding ProofsFromByteSlices_eq
  by (auto simp: honest_proof_def [abs_def] list_all2_conv_all_nth
      honest_proof_verifies [unfolded honest_proof_def])

text \<open>
  C9: with 32-byte digests and no collision among the strings hashed, a proof that verifies
  against the root of a list is about an item of that list; if the proof also states the
  list's length, it is about the item at the stated index.
\<close>

theorem Verify_soundness:
  assumes "\<And>x. length (H x) = hash_size"
    and "Proof_Verify H sp (HashFromByteSlices H items) leaf = Inr ()"
    and "inj_on H (tree_inputs H items \<union> proof_inputs H sp leaf)"
  shows "leaf \<in> set items \<and> (Total sp = int (length items) \<longrightarrow>
     0 \<le> Index sp \<and> Index sp < int (length items) \<and> items ! nat (Index sp) = leaf)"
  using assms by (rule Verify_sound)

theorem Verify_soundness_witness:
  "Proof_Verify pad_hash (honest_proof pad_hash [[5], [7]] 1) (HashFromByteSlices pad_hash [[5], [7]]) [7] = Inr ()
     \<and> [7] \<in> set [[5::byte], [7]]
     \<and> Index (honest_proof pad_hash [[5], [7]] 1) < int (length [[5::byte], [7]])
     \<and> [[5::byte], [7]] ! nat (Index (honest_proof pad_hash [[5], [7]] 1)) = [7]"
proof -
  have v: "Proof_Verify pad_hash (honest_proof pad_hash [[5], [7]] 1)
      (HashFromByteSlices pad_hash [[5], [7]]) [7] = Inr ()"
    using honest_proof_verifies [of 1 "[[5], [7]]" pad_hash] by simp
  have t: "Total (honest_proof pad_hash [[5], [7]] 1) = int (length [[5::byte], [7]])"
    by (simp add: honest_proof_def)
  from Verify_soundness [of pad_hash, OF pad_hash_length v pad_hash_inj] t v show ?thesis by blast
qed

text \<open>
  With 32-byte digests every proof built for at most 2^100 items passes
  \<open>ValidateBasic\<close>, so a receiver does not drop it.
\<close>

theorem honest_proofs_validate:
  assumes "\<And>x. length (H x) = hash_size" and "length items \<le> 2 ^ MaxAunts"
    and "ProofsFromByteSlices H items = Some (root, ps)" and "sp \<in> set ps"
  shows "Proof_ValidateBasic sp = Inr ()"
  using assms aunts_of_length [of items MaxAunts H] aunts_of_size [of H items, OF assms(1)]
  by (auto simp: ProofsFromByteSlices_eq honest_proof_def Proof_ValidateBasic_def slice_bytes_def
      leafHash_def not_less intro!: check_aunts_ok)

theorem honest_proofs_validate_witness:
  "Proof_ValidateBasic (honest_proof pad_hash [[5], [7]] 1) = Inr ()"
proof (rule honest_proofs_validate)
  show "length (pad_hash x) = hash_size" for x by (rule pad_hash_length)
  show "length [[5::byte], [7]] \<le> 2 ^ MaxAunts" by (simp add: MaxAunts_def)
  show "ProofsFromByteSlices pad_hash [[5], [7]] = Some (HashFromByteSlices pad_hash [[5], [7]],
      map (honest_proof pad_hash [[5], [7]]) [0..<2])"
    by (simp add: ProofsFromByteSlices_eq numeral_2_eq_2)
qed simp

text \<open>
  Against an empty root \<open>Verify\<close> accepts a proof for any leaf whatever: a malformed
  proof computes the nil hash, and nil equals the empty root.
\<close>

theorem Verify_empty_root:
  "Proof_Verify H \<lparr>Total = 0, Index = 0, LeafHash = Some (leafHash H leaf), Aunts = aunts\<rparr> [] leaf = Inr ()"
  by (simp add: Proof_Verify_def ComputeRootHash_def computeHashFromAunts.simps [of H 0 0] slice_bytes_def)

end
