(* ===== verification/Range_List.thy ===== *)
theory Range_List
  imports Urd_Prelude "HOL-Library.Monad_Syntax"
begin

text \<open>
  Sets of keys as sorted lists of range borders, \<open>src/source/utils/RangeList.go\<close>: the
  shard of a replica is the half-open ranges at the even positions. The lemmas show that the
  binary search returns, without a panic, the last border that is not above the key, and that
  adding, deleting and searching ranges are union, difference and membership. The interface
  \<open>RangeStore\<close> of the code is the locale \<open>range_store\<close>.
\<close>

section \<open>Model\<close>

record RangeList =
  lists :: "string list option"

abbreviation borders :: "RangeList \<Rightarrow> string list" where
  "borders r \<equiv> (case lists r of None \<Rightarrow> [] | Some xs \<Rightarrow> xs)"

definition NewRangeList :: RangeList where
  "NewRangeList = \<lparr>lists = None\<rparr>"

definition nilRagne :: "RangeList \<Rightarrow> bool" where
  "nilRagne r \<longleftrightarrow> length (borders r) = 0"

definition get :: "RangeList \<Rightarrow> int \<Rightarrow> string option" where
  "get r plc = index (borders r) plc"

definition stepThere :: "RangeList \<Rightarrow> string \<Rightarrow> int \<Rightarrow> bool option" where
  "stepThere r s plc = (if plc \<ge> 0 then map_option (\<lambda>x. x = s) (get r plc) else Some False)"

definition redPlace :: "int \<Rightarrow> bool" where
  "redPlace plc \<longleftrightarrow> plc smod 2 = 0"

definition leftRange :: "RangeList \<Rightarrow> int \<Rightarrow> string list option" where
  "leftRange r plc =
     (if plc = -1 then Some []
      else if 0 \<le> plc \<and> plc \<le> int (length (borders r)) then Some (take (nat plc) (borders r)) else None)"

definition rightRange :: "RangeList \<Rightarrow> int \<Rightarrow> string list option" where
  "rightRange r plc =
     (if plc = int (length (borders r)) - 1 then Some []
      else if 0 \<le> plc + 1 \<and> plc + 1 \<le> int (length (borders r)) then Some (drop (nat (plc + 1)) (borders r))
      else None)"

definition goodPlace :: "RangeList \<Rightarrow> string \<Rightarrow> int \<Rightarrow> bool option" where
  "goodPlace r s plc = do {
     left \<leftarrow> (if plc = -1 then Some True else map_option (\<lambda>x. x \<le> s) (get r plc));
     if \<not> left then Some False
     else if plc = int (length (borders r)) - 1 then Some True
     else map_option (\<lambda>x. s < x) (get r (plc + 1)) }"

partial_function (option) find_loop :: "RangeList \<Rightarrow> string \<Rightarrow> int \<Rightarrow> int \<Rightarrow> int option" where
  "find_loop r s start stop =
     (let plc = (start + stop) sdiv 2 in
      Option.bind (goodPlace r s plc) (\<lambda>good.
        if good then Some plc
        else Option.bind (get r plc) (\<lambda>x.
          if s < x then find_loop r s start (plc - 1) else find_loop r s (plc + 1) stop)))"

definition range_find :: "RangeList \<Rightarrow> string \<Rightarrow> int option" where
  "range_find r s = find_loop r s (-1) (int (length (borders r)) - 1)"

definition Search :: "RangeList \<Rightarrow> string \<Rightarrow> bool option" where
  "Search r p = map_option redPlace (range_find r p)"

text \<open>
  \<open>AddRange\<close> and \<open>DeleteRange\<close> first choose what stays below and above the new range;
  \<open>add_left\<close>, \<open>add_right\<close>, \<open>del_left\<close> and \<open>del_right\<close> are those choices.
\<close>

definition add_left :: "RangeList \<Rightarrow> string \<Rightarrow> int \<Rightarrow> (string list \<times> string) option" where
  "add_left r rangeLow pl =
     (if redPlace pl then do { l \<leftarrow> leftRange r pl; x \<leftarrow> get r pl; Some (l, x) }
      else do {
        step \<leftarrow> stepThere r rangeLow pl;
        if step then do { l \<leftarrow> leftRange r (pl - 1); x \<leftarrow> get r (pl - 1); Some (l, x) }
        else do { l \<leftarrow> leftRange r (pl + 1); Some (l, rangeLow) } })"

definition add_right :: "RangeList \<Rightarrow> string \<Rightarrow> int \<Rightarrow> (string list \<times> string) option" where
  "add_right r rangeHigh pr =
     (if redPlace pr then do { l \<leftarrow> rightRange r (pr + 1); x \<leftarrow> get r (pr + 1); Some (l, x) }
      else do {
        step \<leftarrow> stepThere r rangeHigh pr;
        if step then do { l \<leftarrow> rightRange r pr; x \<leftarrow> get r pr; Some (l, x) }
        else do { l \<leftarrow> rightRange r pr; Some (l, rangeHigh) } })"

definition AddRange :: "RangeList \<Rightarrow> string \<Rightarrow> string \<Rightarrow> RangeList option" where
  "AddRange r rangeLow rangeHigh =
     (if rangeHigh \<le> rangeLow then Some r
      else if nilRagne r then Some \<lparr>lists = Some (borders r @ [rangeLow] @ [rangeHigh])\<rparr>
      else do {
        pl \<leftarrow> range_find r rangeLow;
        pr \<leftarrow> range_find r rangeHigh;
        if pr = pl \<and> redPlace pl then Some r
        else do {
          (plList, low) \<leftarrow> add_left r rangeLow pl;
          (prList, high) \<leftarrow> add_right r rangeHigh pr;
          Some \<lparr>lists = Some (plList @ [low, high] @ prList)\<rparr> } })"

definition del_left :: "RangeList \<Rightarrow> string \<Rightarrow> int \<Rightarrow> (string list \<times> string list) option" where
  "del_left r rangeLow pl =
     (if redPlace pl then do {
        step \<leftarrow> stepThere r rangeLow pl;
        if step then do { l \<leftarrow> leftRange r pl; Some (l, []) }
        else do { l \<leftarrow> leftRange r (pl + 1); Some (l, [rangeLow]) } }
      else do { l \<leftarrow> leftRange r (pl + 1); Some (l, []) })"

definition del_right :: "RangeList \<Rightarrow> string \<Rightarrow> int \<Rightarrow> (string list \<times> string list) option" where
  "del_right r rangeHigh pr =
     (if redPlace pr then do {
        step \<leftarrow> stepThere r rangeHigh pr;
        if step then do { l \<leftarrow> rightRange r (pr - 1); Some ([], l) }
        else do { l \<leftarrow> rightRange r pr; Some ([rangeHigh], l) } }
      else do { l \<leftarrow> rightRange r pr; Some ([], l) })"

definition DeleteRange :: "RangeList \<Rightarrow> string \<Rightarrow> string \<Rightarrow> RangeList option" where
  "DeleteRange r rangeLow rangeHigh =
     (if rangeHigh \<le> rangeLow then Some r
      else if nilRagne r then Some r
      else do {
        pl \<leftarrow> range_find r rangeLow;
        pr \<leftarrow> range_find r rangeHigh;
        if pr = pl \<and> \<not> redPlace pl then Some r
        else do {
          (plList, mid1) \<leftarrow> del_left r rangeLow pl;
          (mid2, prList) \<leftarrow> del_right r rangeHigh pr;
          Some \<lparr>lists = Some (plList @ (mid1 @ mid2) @ prList)\<rparr> } })"

text \<open>\<open>StartKey\<close> and \<open>EndKey\<close> index a list that may be empty without being nil.\<close>

definition StartKey :: "RangeList \<Rightarrow> string option" where
  "StartKey r = (case lists r of None \<Rightarrow> Some [] | Some xs \<Rightarrow> index xs 0)"

definition EndKey :: "RangeList \<Rightarrow> string option" where
  "EndKey r = (case lists r of None \<Rightarrow> Some [] | Some xs \<Rightarrow> index xs (int (length xs) - 1))"

definition Range :: "RangeList \<Rightarrow> string list list" where
  "Range r = map (\<lambda>i. [borders r ! (i * 2), borders r ! (i * 2 + 1)]) [0..<length (borders r) div 2]"

fun add_all :: "RangeList \<Rightarrow> string list list \<Rightarrow> RangeList option" where
  "add_all r [] = Some r"
| "add_all r (rg # rgs) = (case rg of
      [lo, hi] \<Rightarrow> Option.bind (AddRange r lo hi) (\<lambda>r'. add_all r' rgs)
    | _ \<Rightarrow> add_all r rgs)"

definition Add :: "RangeList \<Rightarrow> RangeList \<Rightarrow> RangeList option" where
  "Add r other = add_all r (Range other)"

text \<open>\<open>strings.Split\<close> and \<open>strings.Join\<close> of the standard library, for a one-character separator.\<close>

fun Split :: "string \<Rightarrow> char \<Rightarrow> string list" where
  "Split [] c = [[]]"
| "Split (x # xs) c =
     (if x = c then [] # Split xs c
      else (case Split xs c of [] \<Rightarrow> [[x]] | w # ws \<Rightarrow> (x # w) # ws))"

fun Join :: "string list \<Rightarrow> char \<Rightarrow> string" where
  "Join [] c = []"
| "Join [w] c = w"
| "Join (w # ws) c = w @ c # Join ws c"

fun add_labels :: "RangeList \<Rightarrow> string list \<Rightarrow> RangeList option" where
  "add_labels r (lo # hi # ls) = Option.bind (AddRange r lo hi) (\<lambda>r'. add_labels r' ls)"
| "add_labels r _ = Some r"

text \<open>The inner option is the returned pointer, nil for an odd number of labels.\<close>

definition NewRangeListFromString :: "string \<Rightarrow> RangeList option option" where
  "NewRangeListFromString s =
     (let labels = Split s (CHR '','') in
      if length labels mod 2 = 1 then Some None else map_option Some (add_labels NewRangeList labels))"

definition RangeList_String :: "RangeList \<Rightarrow> string" where
  "RangeList_String r = Join (concat (Range r)) (CHR '','')"

section \<open>Invariant and meaning\<close>

definition wf_ranges :: "RangeList \<Rightarrow> bool" where
  "wf_ranges r \<longleftrightarrow> sorted_wrt (<) (borders r) \<and> even (length (borders r))"

definition keys_of :: "RangeList \<Rightarrow> string set" where
  "keys_of r = {k. \<exists>rg \<in> set (Range r). rg ! 0 \<le> k \<and> k < rg ! 1}"

text \<open>The number of borders not above a key: it is odd exactly inside a range.\<close>

definition below :: "'a::linorder list \<Rightarrow> 'a \<Rightarrow> nat" where
  "below xs k = length (filter (\<lambda>x. x \<le> k) xs)"

section \<open>Counting borders\<close>

lemma below_append [simp]: "below (xs @ ys) k = below xs k + below ys k"
  by (simp add: below_def)

lemma below_Cons: "below (x # xs) k = (if x \<le> k then 1 else 0) + below xs k"
  by (simp add: below_def)

lemma below_all: "\<forall>x \<in> set xs. x \<le> k \<Longrightarrow> below xs k = length xs"
  by (simp add: below_def)

lemma below_none: "\<forall>x \<in> set xs. k < x \<Longrightarrow> below xs k = 0"
  by (auto simp: below_def filter_empty_conv not_le)

lemma below_le: "below xs k \<le> length xs"
  by (simp add: below_def)

lemma below_mono: "k \<le> l \<Longrightarrow> below xs k \<le> below xs l"
  by (induction xs) (auto simp: below_Cons below_def [of "[]"])

lemma below_nth:
  assumes "sorted_wrt (<) xs" "i < length xs"
  shows "xs ! i \<le> k \<longleftrightarrow> i < below xs k"
  using assms
proof (induction xs arbitrary: i)
  case (Cons x xs)
  show ?case
  proof (cases "x \<le> k")
    case True
    then show ?thesis using Cons by (cases i) (auto simp: below_Cons)
  next
    case False
    then have "below (x # xs) k = 0" using Cons.prems by (intro below_none) auto
    moreover have "x \<le> (x # xs) ! i" using Cons.prems by (cases i) (auto intro: less_imp_le)
    ultimately show ?thesis using False by auto
  qed
qed simp

lemma below_take: "sorted_wrt (<) xs \<Longrightarrow> below xs k \<le> n \<Longrightarrow> below (take n xs) k = below xs k"
proof -
  assume a: "sorted_wrt (<) xs" "below xs k \<le> n"
  have "below (drop n xs) k = 0"
    by (rule below_none) (use a below_nth [OF a(1), of _ k] in \<open>auto simp: in_set_conv_nth not_le [symmetric]\<close>)
  then show ?thesis using below_append [of "take n xs" "drop n xs" k] by simp
qed

section \<open>The binary search\<close>

lemma half_bounds:
  "-1 \<le> (a::int) \<Longrightarrow> a \<le> b \<Longrightarrow> a \<le> (a + b) sdiv 2 \<and> (a + b) sdiv 2 \<le> b \<and> ((a + b) sdiv 2 = -1 \<longrightarrow> b = -1)"
proof -
  assume a: "-1 \<le> a" "a \<le> b"
  have "(a + b) sdiv 2 = (if a + b < 0 then - ((- (a + b)) div 2) else (a + b) div 2)"
    by (auto simp: signed_divide_int_def sgn_if)
  then show ?thesis using a by (auto split: if_splits)
qed

lemma goodPlace_iff:
  assumes "wf_ranges r" "-1 \<le> plc" "plc < int (length (borders r))"
  shows "goodPlace r s plc = Some (plc = int (below (borders r) s) - 1)"
proof -
  let ?xs = "borders r"
  have srt: "sorted_wrt (<) ?xs" using assms(1) by (simp add: wf_ranges_def)
  have left: "(if plc = -1 then Some True else map_option (\<lambda>x. x \<le> s) (get r plc)) = Some (plc < int (below ?xs s))"
    using assms(2,3) below_nth [OF srt, of "nat plc" s] by (auto simp: get_def index_def)
  have right: "(if plc = int (length ?xs) - 1 then Some True else map_option (\<lambda>x. s < x) (get r (plc + 1)))
      = Some (int (below ?xs s) \<le> plc + 1)"
    using assms(2,3) below_nth [OF srt, of "nat (plc + 1)" s] below_le [of ?xs s]
    by (auto simp: get_def index_def not_le [symmetric])
  show ?thesis unfolding goodPlace_def left right bind.simps by auto
qed

lemma find_loop_below:
  assumes wf: "wf_ranges r"
  shows "-1 \<le> start \<Longrightarrow> stop < int (length (borders r)) \<Longrightarrow> start \<le> int (below (borders r) s) - 1 \<Longrightarrow>
    int (below (borders r) s) - 1 \<le> stop \<Longrightarrow> find_loop r s start stop = Some (int (below (borders r) s) - 1)"
proof (induction "nat (stop - start)" arbitrary: start stop rule: less_induct)
  case less
  let ?c = "int (below (borders r) s) - 1" and ?plc = "(start + stop) sdiv 2"
  have b: "start \<le> ?plc" "?plc \<le> stop" "?plc = -1 \<longrightarrow> stop = -1" using half_bounds [of start stop] less.prems by auto
  have good: "goodPlace r s ?plc = Some (?plc = ?c)" by (rule goodPlace_iff [OF wf]) (use b less.prems in auto)
  show ?case
  proof (cases "?plc = ?c")
    case True
    then show ?thesis unfolding find_loop.simps [of r s start stop] Let_def good by simp
  next
    case False
    then have plc: "0 \<le> ?plc" "?plc < int (length (borders r))" using b less.prems by linarith+
    have srt: "sorted_wrt (<) (borders r)" using wf by (simp add: wf_ranges_def)
    have get: "get r ?plc = Some (borders r ! nat ?plc)" using plc by (simp add: get_def index_def)
    have cmp: "s < borders r ! nat ?plc \<longleftrightarrow> ?c < ?plc"
      using below_nth [OF srt, of "nat ?plc" s] plc by (auto simp: not_le [symmetric])
    have "find_loop r s start stop =
        (if ?c < ?plc then find_loop r s start (?plc - 1) else find_loop r s (?plc + 1) stop)"
      unfolding find_loop.simps [of r s start stop] Let_def good get bind.simps cmp using False by simp
    also have "\<dots> = Some ?c"
    proof (cases "?c < ?plc")
      case True
      then have "find_loop r s start (?plc - 1) = Some ?c"
        by (intro less.hyps) (use b plc less.prems in linarith)+
      then show ?thesis using True by simp
    next
      case nl: False
      then have "find_loop r s (?plc + 1) stop = Some ?c"
        by (intro less.hyps) (use b plc less.prems False in linarith)+
      then show ?thesis using nl by simp
    qed
    finally show ?thesis .
  qed
qed

lemma range_find_below: "wf_ranges r \<Longrightarrow> range_find r s = Some (int (below (borders r) s) - 1)"
  unfolding range_find_def by (rule find_loop_below) (use below_le [of "borders r" s] in auto)

lemma redPlace_iff: "redPlace (int n - 1) \<longleftrightarrow> odd n"
proof (cases n)
  case (Suc m)
  then show ?thesis by (simp add: redPlace_def signed_modulo_int_def even_iff_mod_2_eq_zero sgn_if) presburger
qed (simp add: redPlace_def signed_modulo_int_def)

lemma Search_below: "wf_ranges r \<Longrightarrow> Search r p = Some (odd (below (borders r) p))"
  by (simp add: Search_def range_find_below redPlace_iff)

section \<open>Odd counts are ranges\<close>

fun pairs_of :: "'a list \<Rightarrow> ('a \<times> 'a) list" where
  "pairs_of (a # b # xs) = (a, b) # pairs_of xs"
| "pairs_of _ = []"

lemma Range_pairs: "Range r = map (\<lambda>(a, b). [a, b]) (pairs_of (borders r))"
proof -
  have "map (\<lambda>i. [xs ! (i * 2), xs ! (i * 2 + 1)]) [0..<length xs div 2] = map (\<lambda>(a, b). [a, b]) (pairs_of xs)"
    for xs :: "string list"
    by (induction xs rule: pairs_of.induct)
      (simp_all add: upt_conv_Cons map_Suc_upt [symmetric] comp_def del: upt_Suc)
  then show ?thesis by (simp add: Range_def)
qed

lemma odd_below_iff:
  "sorted_wrt (<) xs \<Longrightarrow> even (length xs) \<Longrightarrow>
   odd (below xs k) \<longleftrightarrow> (\<exists>(a, b) \<in> set (pairs_of xs). a \<le> k \<and> k < b)"
proof (induction xs rule: pairs_of.induct)
  case (1 a b xs)
  show ?case
  proof (cases "k < b")
    case True
    then have "below xs k = 0" using 1 by (intro below_none) (auto dest: less_trans)
    moreover have "\<not> (\<exists>(c, d) \<in> set (pairs_of xs). c \<le> k \<and> k < d)"
      using 1 \<open>below xs k = 0\<close> by auto
    ultimately show ?thesis using True by (auto simp: below_Cons)
  next
    case False
    then have "a \<le> k" "b \<le> k" using 1 by auto
    then show ?thesis using 1 False by (simp add: below_Cons)
  qed
qed (simp_all add: below_def)

lemma keys_of_odd: "wf_ranges r \<Longrightarrow> k \<in> keys_of r \<longleftrightarrow> odd (below (borders r) k)"
  unfolding wf_ranges_def keys_of_def by (force simp: odd_below_iff Range_pairs)

section \<open>Adding and deleting a range as cutting the list\<close>

text \<open>
  What the two operations keep below the new range and above it. The left part ends with the
  border that opens (\<open>True\<close>) or does not open the range; the right part begins with the
  border that closes it.
\<close>

definition cut_left :: "bool \<Rightarrow> 'a::linorder list \<Rightarrow> 'a \<Rightarrow> 'a list" where
  "cut_left op xs lo = (let a = below xs lo in
     if odd a = op then take a xs
     else if a > 0 \<and> xs ! (a - 1) = lo then take (a - 1) xs else take a xs @ [lo])"

definition cut_right :: "bool \<Rightarrow> 'a::linorder list \<Rightarrow> 'a \<Rightarrow> 'a list" where
  "cut_right op xs hi = (let b = below xs hi in if odd b = op then drop b xs else hi # drop b xs)"

lemma cut_left_props:
  assumes "sorted_wrt (<) xs"
  shows "sorted_wrt (<) (cut_left op xs lo)" "\<forall>x \<in> set (cut_left op xs lo). x \<le> lo"
    "odd (length (cut_left op xs lo)) = op"
    "k < lo \<Longrightarrow> below (cut_left op xs lo) k = below xs k"
proof -
  let ?a = "below xs lo"
  have le: "?a \<le> length xs" by (rule below_le)
  have nth: "i < length xs \<Longrightarrow> xs ! i \<le> lo \<longleftrightarrow> i < ?a" for i by (rule below_nth [OF assms])
  have all: "\<forall>x \<in> set (take ?a xs). x \<le> lo" using nth le by (auto simp: in_set_conv_nth)
  have srt: "sorted_wrt (<) (take n xs)" for n using assms by (rule sorted_wrt_take)
  have lt: "\<forall>x \<in> set (take ?a xs). x < lo" if "\<not> (?a > 0 \<and> xs ! (?a - 1) = lo)"
  proof
    fix x assume "x \<in> set (take ?a xs)"
    then obtain i where i: "i < ?a" "x = xs ! i" using le by (auto simp: in_set_conv_nth)
    then have "xs ! i \<le> xs ! (?a - 1)"
      using assms le by (cases "i = ?a - 1") (auto simp: sorted_wrt_iff_nth_less intro: less_imp_le)
    moreover have "xs ! (?a - 1) \<le> lo" "xs ! (?a - 1) \<noteq> lo" using that i nth [of "?a - 1"] le by auto
    ultimately show "x < lo" using i by auto
  qed
  show "sorted_wrt (<) (cut_left op xs lo)"
    using srt lt by (auto simp: cut_left_def Let_def sorted_wrt_append)
  show "\<forall>x \<in> set (cut_left op xs lo). x \<le> lo"
    using all by (auto simp: cut_left_def Let_def dest: in_set_takeD [of _ "?a - 1" "take ?a xs", simplified])
  show "odd (length (cut_left op xs lo)) = op"
    using le by (auto simp: cut_left_def Let_def min_def)
  assume k: "k < lo"
  then have ka: "below xs k \<le> ?a" by (intro below_mono) simp
  have "below xs k \<le> ?a - 1" if "?a > 0" "xs ! (?a - 1) = lo"
    using below_nth [OF assms, of "?a - 1" k] that k le by (auto simp: not_less [symmetric])
  then show "below (cut_left op xs lo) k = below xs k"
    using ka k by (auto simp: cut_left_def Let_def below_take [OF assms] below_Cons below_def [of "[]"])
qed

lemma cut_right_props:
  assumes "sorted_wrt (<) xs" "even (length xs)"
  shows "sorted_wrt (<) (cut_right op xs hi)" "\<forall>x \<in> set (cut_right op xs hi). hi \<le> x"
    "odd (length (cut_right op xs hi)) = op"
    "hi \<le> k \<Longrightarrow> odd (below (cut_right op xs hi) k) = (odd (below xs k) \<noteq> op)"
proof -
  let ?b = "below xs hi"
  have le: "?b \<le> length xs" by (rule below_le)
  have all: "\<forall>x \<in> set (drop ?b xs). hi < x"
    using below_nth [OF assms(1), of _ hi] by (auto simp: in_set_conv_nth not_le [symmetric])
  show "sorted_wrt (<) (cut_right op xs hi)"
    using all sorted_wrt_drop [OF assms(1)] by (auto simp: cut_right_def Let_def)
  show "\<forall>x \<in> set (cut_right op xs hi). hi \<le> x" using all by (auto simp: cut_right_def Let_def)
  show "odd (length (cut_right op xs hi)) = op" using le assms(2) by (auto simp: cut_right_def Let_def)
  assume k: "hi \<le> k"
  have "\<forall>x \<in> set (take ?b xs). x \<le> hi"
    using below_nth [OF assms(1), of _ hi] le by (auto simp: in_set_conv_nth)
  then have "\<forall>x \<in> set (take ?b xs). x \<le> k" using k by (meson order_trans)
  then have "below xs k = ?b + below (drop ?b xs) k"
    using below_append [of "take ?b xs" "drop ?b xs" k] le by (simp add: below_all)
  then show "odd (below (cut_right op xs hi) k) = (odd (below xs k) \<noteq> op)"
    using k by (auto simp: cut_right_def Let_def below_Cons)
qed

text \<open>Putting the two parts together.\<close>

lemma cut_join:
  fixes op :: bool
  assumes "sorted_wrt (<) xs" "even (length xs)" "lo < hi"
  defines "ys \<equiv> cut_left op xs lo @ cut_right op xs hi"
  shows "sorted_wrt (<) ys \<and> even (length ys)"
    "odd (below ys k) \<longleftrightarrow> (if lo \<le> k \<and> k < hi then op else odd (below xs k))"
proof -
  note L = cut_left_props [OF assms(1), where op = op and lo = lo] and R = cut_right_props [OF assms(1,2), where op = op and hi = hi]
  have "\<forall>x \<in> set (cut_left op xs lo). \<forall>y \<in> set (cut_right op xs hi). x < y"
    using L(2) R(2) assms(3) by (meson le_less_trans less_le_trans)
  then show "sorted_wrt (<) ys \<and> even (length ys)"
    using L(1,3) R(1,3) unfolding ys_def by (auto simp: sorted_wrt_append)
  have high: "below (cut_right op xs hi) k = 0" if "k < hi" using R(2) that by (intro below_none) force
  have low: "below (cut_left op xs lo) k = length (cut_left op xs lo)" if "lo \<le> k"
    using L(2) that by (intro below_all) force
  consider "k < lo" | "lo \<le> k" "k < hi" | "hi \<le> k" by force
  then show "odd (below ys k) \<longleftrightarrow> (if lo \<le> k \<and> k < hi then op else odd (below xs k))"
  proof cases
    case 1
    then show ?thesis using L(4) [of k] high assms(3) unfolding ys_def by auto
  next
    case 2
    then show ?thesis using L(3) high low unfolding ys_def by auto
  next
    case 3
    then have "lo \<le> k" using assms(3) by simp
    then show ?thesis using 3 L(3) R(4) [of k] low unfolding ys_def by auto
  qed
qed

section \<open>The operations are such cuts\<close>

lemma places:
  assumes "wf_ranges r"
  defines "xs \<equiv> borders r" and "a \<equiv> \<lambda>s. below (borders r) s"
  shows "range_find r s = Some (int (a s) - 1)" "redPlace (int (a s) - 1) \<longleftrightarrow> odd (a s)"
    "odd (a s) \<Longrightarrow> a s < length xs"
    "stepThere r s (int (a s) - 1) = Some (a s > 0 \<and> xs ! (a s - 1) = s)"
    "n \<le> length xs \<Longrightarrow> leftRange r (int n) = Some (take n xs)"
    "n \<le> length xs \<Longrightarrow> rightRange r (int n - 1) = Some (drop n xs)"
    "n < length xs \<Longrightarrow> get r (int n) = Some (xs ! n)"
proof -
  have le: "a s \<le> length xs" unfolding a_def xs_def by (rule below_le)
  show "odd (a s) \<Longrightarrow> a s < length xs" using le assms(1) by (cases "a s = length xs") (auto simp: wf_ranges_def xs_def)
  show "stepThere r s (int (a s) - 1) = Some (a s > 0 \<and> xs ! (a s - 1) = s)"
    using le by (cases "a s") (auto simp: stepThere_def get_def index_def xs_def)
qed (auto simp: a_def xs_def range_find_below [OF assms(1)] redPlace_iff leftRange_def rightRange_def get_def index_def)

lemma add_left_cut:
  assumes wf: "wf_ranges r"
  shows "\<exists>l x. add_left r lo (int (below (borders r) lo) - 1) = Some (l, x) \<and> l @ [x] = cut_left True (borders r) lo"
proof -
  define xs where x: "xs = borders r"
  define a where v: "a = below xs lo"
  note P = places [OF wf, folded x] and Pv = places(1-4) [OF wf, of lo, folded x, folded v]
  have le: "a \<le> length xs" unfolding v by (rule below_le)
  consider m where "odd a" "a = Suc m" | m where "even a" "xs ! (a - 1) = lo" "a = Suc (Suc m)"
    | "even a" "\<not> (a > 0 \<and> xs ! (a - 1) = lo)"
    by (metis One_nat_def even_Suc neq0_conv not0_implies_Suc odd_pos)
  then show ?thesis
  proof cases
    case 1
    then show ?thesis using le Pv P(5,7) [of m]
      unfolding add_left_def cut_left_def Let_def x [symmetric] v [symmetric]
      by (simp add: take_Suc_conv_app_nth)
  next
    case 2
    then show ?thesis using le Pv P(5,7) [of m]
      unfolding add_left_def cut_left_def Let_def x [symmetric] v [symmetric]
      by (simp add: take_Suc_conv_app_nth)
  next
    case 3
    then show ?thesis using le Pv P(5) [of a]
      unfolding add_left_def cut_left_def Let_def x [symmetric] v [symmetric]
      by auto
  qed
qed

lemma add_right_cut:
  assumes wf: "wf_ranges r"
  shows "\<exists>l x. add_right r hi (int (below (borders r) hi) - 1) = Some (l, x) \<and> x # l = cut_right True (borders r) hi"
proof -
  define xs where x: "xs = borders r"
  define b where v: "b = below xs hi"
  note P = places [OF wf, folded x] and Pv = places(1-4) [OF wf, of hi, folded x, folded v]
  have le: "b \<le> length xs" unfolding v by (rule below_le)
  consider "odd b" | m where "even b" "b = Suc m" "xs ! m = hi" | "even b" "\<not> (b > 0 \<and> xs ! (b - 1) = hi)"
    by (metis diff_Suc_1 gr0_implies_Suc)
  then show ?thesis
  proof cases
    case 1
    then have lt: "b < length xs" using Pv by simp
    then show ?thesis using 1 Pv P(6) [of "Suc b"] P(7) [of b]
      unfolding add_right_def cut_right_def Let_def x [symmetric] v [symmetric]
      by (simp add: Cons_nth_drop_Suc)
  next
    case 2
    then show ?thesis using le Pv P(6) [of b] P(7) [of m]
      unfolding add_right_def cut_right_def Let_def x [symmetric] v [symmetric]
      by simp
  next
    case 3
    then show ?thesis using le Pv P(6) [of b]
      unfolding add_right_def cut_right_def Let_def x [symmetric] v [symmetric]
      by auto
  qed
qed

lemma del_left_cut:
  assumes wf: "wf_ranges r"
  shows "\<exists>l m. del_left r lo (int (below (borders r) lo) - 1) = Some (l, m) \<and> l @ m = cut_left False (borders r) lo"
proof -
  define xs where x: "xs = borders r"
  define a where v: "a = below xs lo"
  note P = places [OF wf, folded x] and Pv = places(1-4) [OF wf, of lo, folded x, folded v]
  have le: "a \<le> length xs" unfolding v by (rule below_le)
  show ?thesis
  proof (cases "odd a")
    case True
    then obtain m where "a = Suc m" by (cases a) auto
    then show ?thesis using True le Pv P(5) [of m] P(5) [of a]
      unfolding del_left_def cut_left_def Let_def x [symmetric] v [symmetric]
      by (simp add: add.commute)
  next
    case False
    then show ?thesis using le Pv P(5) [of a]
      unfolding del_left_def cut_left_def Let_def x [symmetric] v [symmetric] by simp
  qed
qed

lemma del_right_cut:
  assumes wf: "wf_ranges r"
  shows "\<exists>m l. del_right r hi (int (below (borders r) hi) - 1) = Some (m, l) \<and> m @ l = cut_right False (borders r) hi"
proof -
  define xs where x: "xs = borders r"
  define b where v: "b = below xs hi"
  note P = places [OF wf, folded x] and Pv = places(1-4) [OF wf, of hi, folded x, folded v]
  have le: "b \<le> length xs" unfolding v by (rule below_le)
  show ?thesis
  proof (cases "odd b")
    case True
    then obtain m where m: "b = Suc m" by (cases b) auto
    have "drop m xs = xs ! m # drop (Suc m) xs" using le m by (simp add: Cons_nth_drop_Suc)
    then show ?thesis using True m le Pv P(6) [of m] P(6) [of b]
      unfolding del_right_def cut_right_def Let_def x [symmetric] v [symmetric] by simp
  next
    case False
    then show ?thesis using le Pv P(6) [of b]
      unfolding del_right_def cut_right_def Let_def x [symmetric] v [symmetric] by simp
  qed
qed

text \<open>Both operations on a non-empty list, unless the new range changes nothing.\<close>

lemma range_ops_cut:
  assumes wf: "wf_ranges r" and lh: "lo < hi" and ne: "borders r \<noteq> []"
  defines "a \<equiv> below (borders r) lo" and "b \<equiv> below (borders r) hi"
  shows "AddRange r lo hi = Some (if b = a \<and> odd a then r else
      \<lparr>lists = Some (cut_left True (borders r) lo @ cut_right True (borders r) hi)\<rparr>)"
    "DeleteRange r lo hi = Some (if b = a \<and> even a then r else
      \<lparr>lists = Some (cut_left False (borders r) lo @ cut_right False (borders r) hi)\<rparr>)"
proof -
  note F = range_find_below [OF wf]
  have g: "\<not> hi \<le> lo" "\<not> nilRagne r" using lh ne by (auto simp: nilRagne_def)
  show "AddRange r lo hi = Some (if b = a \<and> odd a then r else
      \<lparr>lists = Some (cut_left True (borders r) lo @ cut_right True (borders r) hi)\<rparr>)"
  proof -
    obtain l x where 1: "add_left r lo (int a - 1) = Some (l, x)" "l @ [x] = cut_left True (borders r) lo"
      using add_left_cut [OF wf] unfolding a_def by blast
    obtain l' x' where 2: "add_right r hi (int b - 1) = Some (l', x')" "x' # l' = cut_right True (borders r) hi"
      using add_right_cut [OF wf] unfolding b_def by blast
    show ?thesis
      using g 1(1) 2(1) unfolding AddRange_def F a_def [symmetric] b_def [symmetric] 1(2) [symmetric] 2(2) [symmetric]
      by (auto simp: redPlace_iff)
  qed
  show "DeleteRange r lo hi = Some (if b = a \<and> even a then r else
      \<lparr>lists = Some (cut_left False (borders r) lo @ cut_right False (borders r) hi)\<rparr>)"
  proof -
    obtain l m where 1: "del_left r lo (int a - 1) = Some (l, m)" "l @ m = cut_left False (borders r) lo"
      using del_left_cut [OF wf] unfolding a_def by blast
    obtain m' l' where 2: "del_right r hi (int b - 1) = Some (m', l')" "m' @ l' = cut_right False (borders r) hi"
      using del_right_cut [OF wf] unfolding b_def by blast
    show ?thesis
      using g 1(1) 2(1) unfolding DeleteRange_def F a_def [symmetric] b_def [symmetric] 1(2) [symmetric] 2(2) [symmetric]
      by (auto simp: redPlace_iff)
  qed
qed

text \<open>When the range lies between two neighbouring borders the count is constant on it.\<close>

lemma below_between: "lo \<le> k \<Longrightarrow> k < hi \<Longrightarrow> below xs hi = below xs lo \<Longrightarrow> below xs k = below xs lo"
  using below_mono [of lo k xs] below_mono [of k hi xs] by auto

lemma cut_list_keys:
  fixes op :: bool
  assumes "wf_ranges r" "lo < hi"
  defines "r' \<equiv> \<lparr>lists = Some (cut_left op (borders r) lo @ cut_right op (borders r) hi)\<rparr>"
  shows "wf_ranges r'" "keys_of r' = (if op then keys_of r \<union> {lo..<hi} else keys_of r - {lo..<hi})"
proof -
  have srt: "sorted_wrt (<) (borders r)" "even (length (borders r))" using assms(1) by (auto simp: wf_ranges_def)
  note J = cut_join [OF srt assms(2), where op = op]
  show wf: "wf_ranges r'" using J(1) unfolding wf_ranges_def r'_def by simp
  show "keys_of r' = (if op then keys_of r \<union> {lo..<hi} else keys_of r - {lo..<hi})"
  proof -
    have b: "borders r' = cut_left op (borders r) lo @ cut_right op (borders r) hi" by (simp add: r'_def)
    have k: "k \<in> keys_of r' \<longleftrightarrow> (if lo \<le> k \<and> k < hi then op else k \<in> keys_of r)" for k
      unfolding keys_of_odd [OF wf] keys_of_odd [OF assms(1)] b by (rule J(2))
    show ?thesis
    proof (rule set_eqI)
      show "k \<in> keys_of r' \<longleftrightarrow> k \<in> (if op then keys_of r \<union> {lo..<hi} else keys_of r - {lo..<hi})" for k
        unfolding k [of k] by (cases op) (simp_all, blast)
    qed
  qed
qed

lemma AddRange_keys:
  assumes wf: "wf_ranges r"
  shows "\<exists>r'. AddRange r lo hi = Some r' \<and> wf_ranges r' \<and> keys_of r' = keys_of r \<union> {lo..<hi}"
proof -
  consider "hi \<le> lo" | "lo < hi" "borders r = []" | "lo < hi" "borders r \<noteq> []" by force
  then show ?thesis
  proof cases
    case 1
    then show ?thesis using wf by (simp add: AddRange_def)
  next
    case 2
    then show ?thesis by (auto simp: AddRange_def nilRagne_def wf_ranges_def keys_of_def Range_def)
  next
    case 3
    have "{lo..<hi} \<subseteq> keys_of r" if "below (borders r) hi = below (borders r) lo" "odd (below (borders r) lo)"
      using that below_between [of lo _ hi "borders r"] by (auto simp: keys_of_odd [OF wf])
    then show ?thesis
      using range_ops_cut(1) [OF wf 3] cut_list_keys [OF wf 3(1), where op = True] wf by auto
  qed
qed

lemma DeleteRange_keys:
  assumes wf: "wf_ranges r"
  shows "\<exists>r'. DeleteRange r lo hi = Some r' \<and> wf_ranges r' \<and> keys_of r' = keys_of r - {lo..<hi}"
proof -
  consider "hi \<le> lo" | "lo < hi" "borders r = []" | "lo < hi" "borders r \<noteq> []" by force
  then show ?thesis
  proof cases
    case 1
    then show ?thesis using wf by (simp add: DeleteRange_def)
  next
    case 2
    then show ?thesis using wf by (auto simp: DeleteRange_def nilRagne_def keys_of_def Range_def)
  next
    case 3
    have "{lo..<hi} \<inter> keys_of r = {}" if "below (borders r) hi = below (borders r) lo" "even (below (borders r) lo)"
      using that below_between [of lo _ hi "borders r"] by (auto simp: keys_of_odd [OF wf])
    then show ?thesis
      using range_ops_cut(2) [OF wf 3] cut_list_keys [OF wf 3(1), where op = False] wf by auto
  qed
qed

section \<open>The interface \<open>RangeStore\<close>\<close>

locale range_store =
  fixes inv :: "'r \<Rightarrow> bool"
    and keys :: "'r \<Rightarrow> 'k::order set"
    and search :: "'r \<Rightarrow> 'k \<Rightarrow> bool option"
    and add :: "'r \<Rightarrow> 'k \<Rightarrow> 'k \<Rightarrow> 'r option"
    and del :: "'r \<Rightarrow> 'k \<Rightarrow> 'k \<Rightarrow> 'r option"
  assumes search_law: "inv r \<Longrightarrow> search r k = Some (k \<in> keys r)"
    and add_law: "inv r \<Longrightarrow> \<exists>r'. add r lo hi = Some r' \<and> inv r' \<and> keys r' = keys r \<union> {lo..<hi}"
    and del_law: "inv r \<Longrightarrow> \<exists>r'. del r lo hi = Some r' \<and> inv r' \<and> keys r' = keys r - {lo..<hi}"
begin

lemma add_many:
  "inv r \<Longrightarrow> \<exists>r'. foldl (\<lambda>ro (lo, hi). Option.bind ro (\<lambda>r. add r lo hi)) (Some r) ps = Some r' \<and> inv r'
     \<and> keys r' = keys r \<union> (\<Union>(lo, hi) \<in> set ps. {lo..<hi})"
proof (induction ps arbitrary: r)
  case (Cons p ps)
  obtain lo hi where p: "p = (lo, hi)" by (cases p)
  obtain r1 where r1: "add r lo hi = Some r1" "inv r1" "keys r1 = keys r \<union> {lo..<hi}"
    using add_law [OF Cons.prems] by blast
  then show ?case using Cons.IH [OF r1(2)] by (auto simp: p)
qed simp

text \<open>Moving a range from one store to another keeps disjoint stores disjoint.\<close>

lemma move_range:
  assumes "inv r" "inv s" "keys r \<inter> keys s = {}"
  obtains r' s' where "del r lo hi = Some r'" "add s lo hi = Some s'" "keys r' \<inter> keys s' = {}"
    "keys r' \<union> keys s' = keys r \<union> keys s \<union> {lo..<hi}"
proof -
  obtain r' where "del r lo hi = Some r'" "keys r' = keys r - {lo..<hi}" using del_law [OF assms(1)] by blast
  moreover obtain s' where "add s lo hi = Some s'" "keys s' = keys s \<union> {lo..<hi}" using add_law [OF assms(2)] by blast
  ultimately show ?thesis using that assms(3) by blast
qed

end

interpretation ranges: range_store wf_ranges keys_of Search AddRange DeleteRange
  by unfold_locales (simp_all add: Search_below keys_of_odd AddRange_keys DeleteRange_keys)

section \<open>Adding several ranges\<close>

lemma wf_NewRangeList: "wf_ranges NewRangeList" "keys_of NewRangeList = {}"
  by (simp_all add: NewRangeList_def wf_ranges_def keys_of_def Range_def)

lemma add_all_fold:
  "add_all r (map (\<lambda>(a, b). [a, b]) ps) = foldl (\<lambda>ro (lo, hi). Option.bind ro (\<lambda>r. AddRange r lo hi)) (Some r) ps"
proof (induction ps arbitrary: r)
  case (Cons p ps)
  have none: "foldl (\<lambda>ro (lo, hi). Option.bind ro (\<lambda>r. AddRange r lo hi)) None qs = None" for qs
    by (induction qs) auto
  show ?case using Cons by (cases p; cases "AddRange r (fst p) (snd p)") (simp_all add: none)
qed simp

lemma keys_of_pairs: "keys_of r = (\<Union>(lo, hi) \<in> set (pairs_of (borders r)). {lo..<hi})"
  by (force simp: keys_of_def Range_pairs)

lemma Add_keys:
  "wf_ranges r \<Longrightarrow> \<exists>r'. Add r other = Some r' \<and> wf_ranges r' \<and> keys_of r' = keys_of r \<union> keys_of other"
  unfolding Add_def Range_pairs add_all_fold keys_of_pairs [of other] by (rule ranges.add_many)

section \<open>Text form\<close>

lemma Split_word: "c \<notin> set w \<Longrightarrow> Split w c = [w]"
  by (induction w) auto

lemma Split_sep: "c \<notin> set w \<Longrightarrow> Split (w @ c # s) c = w # Split s c"
  by (induction w) auto

lemma Split_Join: "ws \<noteq> [] \<Longrightarrow> \<forall>w \<in> set ws. c \<notin> set w \<Longrightarrow> Split (Join ws c) c = ws"
  by (induction ws c rule: Join.induct) (auto simp: Split_word Split_sep)

lemma concat_pairs: "even (length xs) \<Longrightarrow> concat (map (\<lambda>(a, b). [a, b]) (pairs_of xs)) = xs"
  by (induction xs rule: pairs_of.induct) auto

lemma AddRange_append:
  assumes "sorted_wrt (<) (xs @ [lo, hi])" "even (length xs)" "xs \<noteq> []"
  shows "AddRange \<lparr>lists = Some xs\<rparr> lo hi = Some \<lparr>lists = Some (xs @ [lo, hi])\<rparr>"
proof -
  let ?r = "\<lparr>lists = Some xs\<rparr>"
  have lt: "\<forall>x \<in> set xs. x < lo \<and> x < hi" "lo < hi" "sorted_wrt (<) xs" using assms(1) by (auto simp: sorted_wrt_append)
  then have b: "below xs lo = length xs" "below xs hi = length xs" by (auto intro!: below_all less_imp_le)
  have "xs ! (length xs - 1) \<noteq> lo" using lt(1) assms(3) by (metis last_conv_nth last_in_set less_irrefl)
  then have "cut_left True xs lo = xs @ [lo]" "cut_right True xs hi = [hi]"
    using assms(2) by (auto simp: cut_left_def cut_right_def Let_def b)
  then show ?thesis
    using range_ops_cut(1) [of ?r lo hi] lt(2,3) assms(2,3) by (auto simp: wf_ranges_def b)
qed

lemma add_labels_append:
  "sorted_wrt (<) (xs @ ys) \<Longrightarrow> even (length xs) \<Longrightarrow> even (length ys) \<Longrightarrow> xs \<noteq> [] \<Longrightarrow>
   add_labels \<lparr>lists = Some xs\<rparr> ys = Some \<lparr>lists = Some (xs @ ys)\<rparr>"
proof (induction ys arbitrary: xs rule: pairs_of.induct)
  case (1 a b ys)
  have "AddRange \<lparr>lists = Some xs\<rparr> a b = Some \<lparr>lists = Some (xs @ [a, b])\<rparr>"
    by (rule AddRange_append) (use 1 in \<open>auto simp: sorted_wrt_append\<close>)
  then show ?case using "1.IH" [of "xs @ [a, b]"] "1.prems" by simp
qed simp_all

lemma FromString_String:
  assumes wf: "wf_ranges r" and ne: "borders r \<noteq> []" and c: "\<forall>x \<in> set (borders r). CHR '','' \<notin> set x"
  shows "NewRangeListFromString (RangeList_String r) = Some (Some r)"
proof -
  define xs where xs: "xs = borders r"
  have w: "sorted_wrt (<) xs" "even (length xs)" "xs \<noteq> []" using wf ne by (auto simp: wf_ranges_def xs)
  then obtain a b ys where ys: "xs = a # b # ys" by (cases xs rule: pairs_of.cases) auto
  have "Split (RangeList_String r) (CHR '','') = xs"
    using concat_pairs [OF w(2)] Split_Join [OF w(3)] c
    unfolding RangeList_String_def Range_pairs xs [symmetric] by simp
  moreover have "AddRange NewRangeList a b = Some \<lparr>lists = Some [a, b]\<rparr>"
    using w(1) by (auto simp: ys AddRange_def NewRangeList_def nilRagne_def)
  moreover have "add_labels \<lparr>lists = Some [a, b]\<rparr> ys = Some \<lparr>lists = Some ([a, b] @ ys)\<rparr>"
    by (rule add_labels_append) (use w in \<open>auto simp: ys\<close>)
  moreover have "r = \<lparr>lists = Some xs\<rparr>" using w(3) by (cases r) (auto simp: xs split: option.splits)
  ultimately show ?thesis using w(2) by (simp add: NewRangeListFromString_def ys)
qed

lemma DeleteRange_all:
  assumes "lo < hi"
  shows "DeleteRange \<lparr>lists = Some [lo, hi]\<rparr> lo hi = Some \<lparr>lists = Some []\<rparr>"
proof -
  have "below [lo, hi] lo = 1" "below [lo, hi] hi = 2" using assms by (auto simp: below_def)
  then have "cut_left False [lo, hi] lo = []" "cut_right False [lo, hi] hi = []"
    by (simp_all add: cut_left_def cut_right_def)
  then show ?thesis
    using range_ops_cut(2) [of "\<lparr>lists = Some [lo, hi]\<rparr>" lo hi] assms \<open>below [lo, hi] lo = 1\<close> \<open>below [lo, hi] hi = 2\<close>
    by (simp add: wf_ranges_def)
qed

section \<open>Properties\<close>

text \<open>
  C20: on a well-formed list the binary search ends without a panic and \<open>Search\<close> decides
  membership in the union of the ranges, \<open>AddRange\<close> adds and \<open>DeleteRange\<close> removes exactly
  the half-open range, and both keep the list well-formed.
\<close>

theorem RangeList_refines:
  assumes "wf_ranges r"
  shows "Search r k = Some (k \<in> keys_of r)
     \<and> (\<exists>r'. AddRange r lo hi = Some r' \<and> wf_ranges r' \<and> keys_of r' = keys_of r \<union> {lo..<hi})
     \<and> (\<exists>r'. DeleteRange r lo hi = Some r' \<and> wf_ranges r' \<and> keys_of r' = keys_of r - {lo..<hi})"
  using ranges.search_law [OF assms] ranges.add_law [OF assms] ranges.del_law [OF assms] by blast

theorem RangeList_refines_witness:
  "Search \<lparr>lists = Some [''a'', ''c'']\<rparr> ''b'' = Some (''b'' \<in> keys_of \<lparr>lists = Some [''a'', ''c'']\<rparr>)
     \<and> (\<exists>r'. AddRange \<lparr>lists = Some [''a'', ''c'']\<rparr> ''b'' ''e'' = Some r' \<and> wf_ranges r'
          \<and> keys_of r' = keys_of \<lparr>lists = Some [''a'', ''c'']\<rparr> \<union> {''b''..<''e''})
     \<and> (\<exists>r'. DeleteRange \<lparr>lists = Some [''a'', ''c'']\<rparr> ''b'' ''e'' = Some r' \<and> wf_ranges r'
          \<and> keys_of r' = keys_of \<lparr>lists = Some [''a'', ''c'']\<rparr> - {''b''..<''e''})"
  by (rule RangeList_refines) (simp add: wf_ranges_def less_char_def)

text \<open>
  Printing a non-empty list whose keys contain no comma and parsing the text gives the
  same list.
\<close>

theorem RangeList_String_roundtrip:
  assumes "wf_ranges r" and "borders r \<noteq> []" and "\<forall>x \<in> set (borders r). CHR '','' \<notin> set x"
  shows "NewRangeListFromString (RangeList_String r) = Some (Some r)"
  using assms by (rule FromString_String)

theorem RangeList_String_roundtrip_witness:
  "NewRangeListFromString (RangeList_String \<lparr>lists = Some [''a'', ''c'']\<rparr>)
     = Some (Some \<lparr>lists = Some [''a'', ''c'']\<rparr>)"
  by (rule RangeList_String_roundtrip) (simp_all add: wf_ranges_def less_char_def)

text \<open>
  After the only range of a list is deleted, \<open>StartKey\<close> and \<open>EndKey\<close> panic: the list
  is empty but not nil, and both test for nil only.
\<close>

theorem StartKey_panics:
  assumes "lo < hi"
  shows "\<exists>r r'. AddRange NewRangeList lo hi = Some r \<and> DeleteRange r lo hi = Some r'
     \<and> StartKey r' = None \<and> EndKey r' = None"
  using assms DeleteRange_all [OF assms]
  by (auto simp: AddRange_def NewRangeList_def nilRagne_def StartKey_def EndKey_def index_def)

theorem StartKey_panics_witness:
  "\<exists>r r'. AddRange NewRangeList ''a'' ''b'' = Some r \<and> DeleteRange r ''a'' ''b'' = Some r'
     \<and> StartKey r' = None \<and> EndKey r' = None"
  by (rule StartKey_panics) (simp add: less_char_def)

end
