(* ===== verification/Range_Tree.thy ===== *)
theory Range_Tree
  imports Range_List
begin

text \<open>
  The second store of key ranges, the tree of \<open>src/source/utils/RangeTree.go\<close>. A node has an upper
  key that is one of the borders of the range its parent gives it: the right border of a left
  child and the left border of a right child, so the children of a node leave the gap between
  their keys uncovered. A node has both children or none. Nodes belong to one tree only, so they
  are values; \<open>None\<close> is a panic.
\<close>

section \<open>Nodes\<close>

datatype RangeTreeNode =
    TLeaf (Ukey: string) (depth: int)
  | TInner (Ukey: string) (LeftChild: RangeTreeNode) (RightChild: RangeTreeNode) (depth: int)

definition IsLeaf :: "RangeTreeNode \<Rightarrow> bool" where
  "IsLeaf t = (case t of TLeaf _ _ \<Rightarrow> True | TInner _ _ _ _ \<Rightarrow> False)"

definition set_ukey :: "string \<Rightarrow> RangeTreeNode \<Rightarrow> RangeTreeNode" where
  "set_ukey k t = (case t of TLeaf _ d \<Rightarrow> TLeaf k d | TInner _ l r d \<Rightarrow> TInner k l r d)"

definition NewRangeTreeLeaf :: "string \<Rightarrow> RangeTreeNode" where
  "NewRangeTreeLeaf ukey = TLeaf ukey 0"

definition strInRange :: "string \<Rightarrow> string \<Rightarrow> string \<Rightarrow> bool" where
  "strInRange s u v \<longleftrightarrow> u \<le> s \<and> s \<le> v"

definition strInRangeRightOpen :: "string \<Rightarrow> string \<Rightarrow> string \<Rightarrow> bool" where
  "strInRangeRightOpen s u v \<longleftrightarrow> u \<le> s \<and> s < v"

fun nodes :: "RangeTreeNode \<Rightarrow> nat" where
  "nodes (TLeaf _ _) = 1"
| "nodes (TInner _ l r _) = Suc (nodes l + nodes r)"

lemma set_ukey_simps [simp]:
  "Ukey (set_ukey k t) = k" "nodes (set_ukey k t) = nodes t" "depth (set_ukey k t) = depth t" "IsLeaf (set_ukey k t) = IsLeaf t"
  "set_ukey k (TLeaf u d) = TLeaf k d" "set_ukey k (TInner u l r d) = TInner k l r d"
  by (cases t; simp add: set_ukey_def IsLeaf_def)+

text \<open>The deferred function of \<open>AddRange\<close>: adjoining leaves become one, otherwise the depth is adjusted.\<close>

definition settle :: "RangeTreeNode \<Rightarrow> RangeTreeNode" where
  "settle t = (case t of
      TLeaf u _ \<Rightarrow> TLeaf u 0
    | TInner u l r _ \<Rightarrow>
        if IsLeaf l \<and> IsLeaf r \<and> Ukey l = Ukey r then TLeaf u 0
        else TInner u l r (if depth l > depth r then depth l + 1 else depth r + 1))"

function node_AddRange :: "RangeTreeNode \<Rightarrow> string \<Rightarrow> string \<Rightarrow> string \<Rightarrow> string \<Rightarrow> RangeTreeNode option" where
  "node_AddRange (TLeaf u d) low rangeLow rangeHigh high = Some (TLeaf u d)"
| "node_AddRange (TInner u l r d) low rangeLow rangeHigh high = map_option settle
     (if strInRange rangeLow low (Ukey l) \<and> strInRange rangeHigh (Ukey r) high then do {
        l1 \<leftarrow> node_AddRange l low rangeLow (Ukey l) (Ukey l);
        r1 \<leftarrow> node_AddRange r (Ukey r) (Ukey r) rangeHigh high;
        Some (if depth l1 < depth r1 then TInner u (set_ukey (Ukey r1) l1) r1 d else TInner u l1 (set_ukey (Ukey l1) r1) d) }
      else if strInRange rangeLow low (Ukey l) \<and> strInRange rangeHigh low (Ukey l) then
        map_option (\<lambda>l1. TInner u l1 r d) (node_AddRange l low rangeLow rangeHigh (Ukey l))
      else if strInRange rangeLow (Ukey r) high \<and> strInRange rangeHigh (Ukey r) high then
        map_option (\<lambda>r1. TInner u l r1 d) (node_AddRange r (Ukey r) rangeLow rangeHigh high)
      else if strInRange rangeLow (Ukey l) (Ukey r) \<and> strInRange rangeHigh (Ukey r) high then
        map_option (\<lambda>r1. TInner u l r1 d) (node_AddRange (set_ukey rangeLow r) rangeLow rangeLow rangeHigh high)
      else if strInRange rangeLow low (Ukey l) \<and> strInRange rangeHigh (Ukey l) (Ukey r) then
        map_option (\<lambda>l1. TInner u l1 r d) (node_AddRange (set_ukey rangeHigh l) low rangeLow rangeHigh rangeHigh)
      else if strInRange rangeLow (Ukey l) (Ukey r) \<and> strInRange rangeHigh (Ukey l) (Ukey r) then
        Some (if depth l < depth r
          then TInner u (TInner rangeHigh l (NewRangeTreeLeaf rangeLow) (depth l + 1)) r d
          else TInner u l (TInner rangeLow (NewRangeTreeLeaf rangeHigh) r (depth r + 1)) d)
      else None)"
  by pat_completeness auto
termination
  by (relation "measure (\<lambda>(t, _). nodes t)") auto

text \<open>The end of \<open>DeleteRange\<close>: a node that has lost a child gives way to the other one.\<close>

definition rejoin :: "string \<Rightarrow> string \<Rightarrow> string \<Rightarrow> RangeTreeNode option \<Rightarrow> string \<Rightarrow> RangeTreeNode option \<Rightarrow> string
    \<Rightarrow> (RangeTreeNode option \<times> string \<times> string) option" where
  "rejoin u low high lc leftR rc rightR =
     (if lc = None \<and> rc = None then Some (None, leftR, rightR)
      else if u \<noteq> high \<and> u \<noteq> low then None
      else (let isLeft = (u = high); u1 = (if isLeft then rightR else leftR)
        in case (lc, rc) of
             (Some l, Some r) \<Rightarrow> Some (Some (TInner u1 l r (if depth l > depth r then depth l + 1 else depth r + 1)), leftR, rightR)
           | (Some l, None) \<Rightarrow> if isLeft then Some (Some l, leftR, Ukey l) else Some (Some (set_ukey leftR l), leftR, Ukey l)
           | (None, Some r) \<Rightarrow> if isLeft then Some (Some (set_ukey rightR r), Ukey r, rightR) else Some (Some r, Ukey r, rightR)
           | (None, None) \<Rightarrow> Some (None, leftR, rightR)))"

fun node_DeleteRange :: "RangeTreeNode \<Rightarrow> string \<Rightarrow> string \<Rightarrow> string \<Rightarrow> string \<Rightarrow> (RangeTreeNode option \<times> string \<times> string) option" where
  "node_DeleteRange (TLeaf u d) low rangeLow rangeHigh high =
     (if rangeLow = low \<and> rangeHigh = high then Some (None, low, high)
      else if rangeLow = rangeHigh then Some (Some (TLeaf u d), low, high)
      else if rangeHigh = high then Some (Some (TLeaf (if u = high then rangeLow else u) d), low, rangeLow)
      else if rangeLow = low then Some (Some (TLeaf (if u = low then rangeHigh else u) d), rangeHigh, high)
      else Some (Some (TInner u (NewRangeTreeLeaf rangeLow) (NewRangeTreeLeaf rangeHigh) (d + 1)), low, high))"
| "node_DeleteRange (TInner u l r d) low rangeLow rangeHigh high =
     (if rangeLow = low \<and> rangeHigh = high then Some (None, low, high)
      else if rangeLow = rangeHigh then Some (Some (TInner u l r d), low, high)
      else if strInRange rangeLow low (Ukey l) \<and> strInRange rangeHigh (Ukey r) high then do {
        (lc, leftR, _) \<leftarrow> node_DeleteRange l low rangeLow (Ukey l) (Ukey l);
        (rc, _, rightR) \<leftarrow> node_DeleteRange r (Ukey r) (Ukey r) rangeHigh high;
        rejoin u low high lc leftR rc rightR }
      else if strInRange rangeLow low (Ukey l) \<and> strInRange rangeHigh low (Ukey l) then do {
        (lc, leftR, _) \<leftarrow> node_DeleteRange l low rangeLow rangeHigh (Ukey l);
        rejoin u low high lc leftR (Some r) high }
      else if strInRange rangeLow (Ukey r) high \<and> strInRange rangeHigh (Ukey r) high then do {
        (rc, _, rightR) \<leftarrow> node_DeleteRange r (Ukey r) rangeLow rangeHigh high;
        rejoin u low high (Some l) low rc rightR }
      else if strInRange rangeLow (Ukey l) (Ukey r) \<and> strInRange rangeHigh (Ukey r) high then do {
        (rc, _, rightR) \<leftarrow> node_DeleteRange r (Ukey r) (Ukey r) rangeHigh high;
        rejoin u low high (Some l) low rc rightR }
      else if strInRange rangeLow low (Ukey l) \<and> strInRange rangeHigh (Ukey l) (Ukey r) then do {
        (lc, leftR, _) \<leftarrow> node_DeleteRange l low rangeLow (Ukey l) (Ukey l);
        rejoin u low high lc leftR (Some r) high }
      else rejoin u low high (Some l) low (Some r) high)"

fun node_Search :: "RangeTreeNode \<Rightarrow> string \<Rightarrow> string \<Rightarrow> string \<Rightarrow> bool" where
  "node_Search (TLeaf _ _) p low high = strInRangeRightOpen p low high"
| "node_Search (TInner _ l r _) p low high =
     (if p < Ukey l then node_Search l p low (Ukey l)
      else if p \<ge> Ukey r then node_Search r p (Ukey r) high else False)"

fun node_Range :: "RangeTreeNode \<Rightarrow> string list list \<Rightarrow> string \<Rightarrow> string \<Rightarrow> string list list" where
  "node_Range (TLeaf _ _) outputList start stop = outputList @ [[start, stop]]"
| "node_Range (TInner _ l r _) outputList start stop = node_Range r (node_Range l outputList start (Ukey l)) (Ukey r) stop"

section \<open>Trees\<close>

record RangeTree =
  t_start :: string
  t_end :: string
  t_root :: "RangeTreeNode option"

definition tree_StartKey :: "RangeTree \<Rightarrow> string" where "tree_StartKey t = t_start t"
definition tree_EndKey :: "RangeTree \<Rightarrow> string" where "tree_EndKey t = t_end t"

definition NewRangeTree :: RangeTree where
  "NewRangeTree = \<lparr>t_start = [], t_end = [], t_root = None\<rparr>"

definition tree_Search :: "RangeTree \<Rightarrow> string \<Rightarrow> bool" where
  "tree_Search t p = (case t_root t of None \<Rightarrow> False | Some n \<Rightarrow> node_Search n p (t_start t) (t_end t))"

definition tree_AddRange :: "RangeTree \<Rightarrow> string \<Rightarrow> string \<Rightarrow> RangeTree option" where
  "tree_AddRange t rangeLow rangeHigh =
     (if rangeHigh < rangeLow then Some t
      else (case t_root t of
          None \<Rightarrow> Some (t\<lparr>t_start := rangeLow, t_end := rangeHigh, t_root := Some (NewRangeTreeLeaf rangeHigh)\<rparr>)
        | Some n \<Rightarrow>
            if rangeHigh < t_start t then
              Some (t\<lparr>t_start := rangeLow,
                t_root := Some (TInner (t_end t) (NewRangeTreeLeaf rangeHigh) (set_ukey (t_start t) n) (depth n + 1))\<rparr>)
            else if rangeLow > t_end t then
              Some (t\<lparr>t_end := rangeHigh, t_root := Some (TInner rangeHigh n (NewRangeTreeLeaf rangeLow) (depth n + 1))\<rparr>)
            else do {
              let stop = (if rangeHigh > t_end t then rangeHigh else t_end t);
              let n1 = (if rangeHigh > t_end t then set_ukey rangeHigh n else n);
              let start = (if rangeLow < t_start t then rangeLow else t_start t);
              n2 \<leftarrow> node_AddRange n1 start rangeLow rangeHigh stop;
              Some (t\<lparr>t_start := start, t_end := stop, t_root := Some n2\<rparr>) }))"

definition tree_DeleteRange :: "RangeTree \<Rightarrow> string \<Rightarrow> string \<Rightarrow> RangeTree option" where
  "tree_DeleteRange t rangeLow rangeHigh = (case t_root t of
      None \<Rightarrow> Some t
    | Some n \<Rightarrow>
        if rangeHigh < rangeLow \<or> rangeHigh < t_start t \<or> rangeLow > t_end t then Some t
        else do {
          let lo = (if rangeLow < t_start t then t_start t else rangeLow);
          let hi = (if rangeHigh > t_end t then t_end t else rangeHigh);
          (n', start, stop) \<leftarrow> node_DeleteRange n (t_start t) lo hi (t_end t);
          Some (t\<lparr>t_start := start, t_end := stop, t_root := n'\<rparr>) })"

definition tree_Range :: "RangeTree \<Rightarrow> string list list" where
  "tree_Range t = (case t_root t of None \<Rightarrow> [] | Some n \<Rightarrow> node_Range n [] (t_start t) (t_end t))"

text \<open>A pair with fewer than two strings panics.\<close>

fun tree_add_all :: "RangeTree \<Rightarrow> string list list \<Rightarrow> RangeTree option" where
  "tree_add_all t [] = Some t"
| "tree_add_all t (pair # pairs) = (if length pair < 2 then None
     else Option.bind (tree_AddRange t (pair ! 0) (pair ! 1)) (\<lambda>t'. tree_add_all t' pairs))"

definition tree_Add :: "RangeTree \<Rightarrow> RangeTree \<Rightarrow> RangeTree option" where
  "tree_Add t other = tree_add_all t (tree_Range other)"

text \<open>Cutting off the first and the last character panics on a string of fewer than two.\<close>

fun cut_all :: "string list \<Rightarrow> string list list option" where
  "cut_all [] = Some []"
| "cut_all (x # xs) = (if length x < 2 then None else map_option ((#) (Split (butlast (tl x)) (CHR '',''))) (cut_all xs))"

definition deserialize :: "string \<Rightarrow> string list list option" where
  "deserialize s = cut_all (Split s (CHR ''+''))"

definition NewRangeTreeFromString :: "string \<Rightarrow> RangeTree option" where
  "NewRangeTreeFromString s = Option.bind (deserialize s) (tree_add_all NewRangeTree)"

section \<open>Meaning of a node\<close>

fun covers :: "RangeTreeNode \<Rightarrow> string \<Rightarrow> string \<Rightarrow> string set" where
  "covers (TLeaf _ _) lo hi = {lo..<hi}"
| "covers (TInner _ l r _) lo hi = covers l lo (Ukey l) \<union> covers r (Ukey r) hi"

fun wf_node :: "RangeTreeNode \<Rightarrow> string \<Rightarrow> string \<Rightarrow> bool" where
  "wf_node (TLeaf _ _) lo hi \<longleftrightarrow> lo \<le> hi"
| "wf_node (TInner _ l r _) lo hi \<longleftrightarrow> wf_node l lo (Ukey l) \<and> Ukey l \<le> Ukey r \<and> wf_node r (Ukey r) hi"

lemma wf_node_le: "wf_node t lo hi \<Longrightarrow> lo \<le> hi"
proof (induction t arbitrary: lo hi)
  case (TInner u l r d)
  then have "lo \<le> Ukey l" "Ukey l \<le> Ukey r" "Ukey r \<le> hi" by simp_all
  then show ?case by (rule order.trans [OF order.trans])
qed simp

lemma covers_bound: "wf_node t lo hi \<Longrightarrow> covers t lo hi \<subseteq> {lo..<hi}"
proof (induction t arbitrary: lo hi)
  case (TInner u l r d)
  then have "lo \<le> Ukey l" "Ukey r \<le> hi" by (auto dest: wf_node_le)
  moreover have "covers l lo (Ukey l) \<subseteq> {lo..<Ukey l}" "covers r (Ukey r) hi \<subseteq> {Ukey r..<hi}" using TInner by simp_all
  moreover have "Ukey l \<le> Ukey r" using TInner.prems by simp
  ultimately have "x \<in> {lo..<hi}" if "x \<in> covers l lo (Ukey l) \<or> x \<in> covers r (Ukey r) hi" for x
    using that by (elim disjE) (drule (1) subsetD, auto)+
  then show ?case by auto
qed simp

lemma meaning_ukey [simp]: "covers (set_ukey k t) lo hi = covers t lo hi" "wf_node (set_ukey k t) lo hi = wf_node t lo hi"
  by (cases t; simp)+

text \<open>Moving a border outwards makes the outermost leaf longer.\<close>

lemma extend_right: "wf_node t lo hi \<Longrightarrow> hi \<le> hi' \<Longrightarrow> wf_node t lo hi' \<and> covers t lo hi' = covers t lo hi \<union> {hi..<hi'}"
  by (induction t arbitrary: lo hi) (auto simp: ivl_disj_un)

lemma extend_left: "wf_node t lo hi \<Longrightarrow> lo' \<le> lo \<Longrightarrow> wf_node t lo' hi \<and> covers t lo' hi = covers t lo hi \<union> {lo'..<lo}"
  by (induction t arbitrary: lo hi) (auto simp: ivl_disj_un)

lemma node_Search_covers: "wf_node t lo hi \<Longrightarrow> node_Search t p lo hi \<longleftrightarrow> p \<in> covers t lo hi"
proof (induction t arbitrary: lo hi)
  case (TInner u l r d)
  have b: "covers l lo (Ukey l) \<subseteq> {lo..<Ukey l}" "covers r (Ukey r) hi \<subseteq> {Ukey r..<hi}" "Ukey l \<le> Ukey r" using TInner.prems covers_bound by simp_all
  then show ?case using TInner by (auto simp: subset_iff)
qed (simp add: strInRangeRightOpen_def)

lemma settle_meaning:
  assumes "wf_node t lo hi"
  shows "Ukey (settle t) = Ukey t \<and> wf_node (settle t) lo hi \<and> covers (settle t) lo hi = covers t lo hi"
proof (cases t)
  case (TInner u l r d)
  show ?thesis
  proof (cases "IsLeaf l \<and> IsLeaf r \<and> Ukey l = Ukey r")
    case True
    then obtain k dl dr where "l = TLeaf k dl" "r = TLeaf k dr" by (cases l; cases r) (auto simp: IsLeaf_def)
    then show ?thesis using assms TInner by (auto simp: settle_def IsLeaf_def ivl_disj_un)
  next
    case False
    then have "settle t = TInner u l r (if depth l > depth r then depth l + 1 else depth r + 1)" unfolding TInner settle_def by (simp only: RangeTreeNode.case if_False)
    then show ?thesis using assms TInner by simp
  qed
qed (use assms in \<open>simp add: settle_def\<close>)

section \<open>Adding a range\<close>

text \<open>The six places a range can have in a node, with the tests of the code that tell them apart.\<close>

abbreviation across :: "string \<Rightarrow> string \<Rightarrow> string \<Rightarrow> string \<Rightarrow> string \<Rightarrow> string \<Rightarrow> bool" where
  "across lo a b hi l r \<equiv> strInRange a lo l \<and> strInRange b r hi"

lemma placing:
  assumes "lo \<le> a" "a \<le> b" "b \<le> hi" "lo \<le> l" "l \<le> r" "r \<le> hi"
  obtains (c1) "a \<le> l" "r \<le> b" "across lo a b hi l r"
    | (c2) "a \<le> l" "b \<le> l" "\<not> r \<le> b" "\<not> across lo a b hi l r" "strInRange a lo l \<and> strInRange b lo l"
    | (c3) "r \<le> a" "l < a" "\<not> across lo a b hi l r" "\<not> (strInRange a lo l \<and> strInRange b lo l)" "strInRange a r hi \<and> strInRange b r hi"
    | (c4) "l < a" "a < r" "r \<le> b" "\<not> across lo a b hi l r" "\<not> (strInRange a lo l \<and> strInRange b lo l)" "\<not> (strInRange a r hi \<and> strInRange b r hi)"
        "strInRange a l r \<and> strInRange b r hi"
    | (c5) "a \<le> l" "l < b" "b < r" "\<not> across lo a b hi l r" "\<not> (strInRange a lo l \<and> strInRange b lo l)" "\<not> (strInRange a r hi \<and> strInRange b r hi)"
        "\<not> (strInRange a l r \<and> strInRange b r hi)" "strInRange a lo l \<and> strInRange b l r"
    | (c6) "l < a" "b < r" "\<not> across lo a b hi l r" "\<not> (strInRange a lo l \<and> strInRange b lo l)" "\<not> (strInRange a r hi \<and> strInRange b r hi)"
        "\<not> (strInRange a l r \<and> strInRange b r hi)" "\<not> (strInRange a lo l \<and> strInRange b l r)" "strInRange a l r \<and> strInRange b l r"
proof -
  consider "a \<le> l" "r \<le> b" | "a \<le> l" "b \<le> l" "\<not> r \<le> b" | "r \<le> a" "l < a" | "l < a" "a < r" "r \<le> b" | "a \<le> l" "l < b" "b < r" | "l < a" "b < r"
    using assms by force
  then show ?thesis
  proof cases
    case 1 then show ?thesis using assms by (intro c1) (simp_all add: strInRange_def)
  next
    case 2 then show ?thesis using assms by (intro c2) (simp_all add: strInRange_def)
  next
    case 3 then show ?thesis using assms by (intro c3) (auto simp: strInRange_def)
  next
    case 4 then show ?thesis using assms by (intro c4) (auto simp: strInRange_def)
  next
    case 5 then show ?thesis using assms by (intro c5) (auto simp: strInRange_def)
  next
    case 6 then show ?thesis using assms by (intro c6) (auto simp: strInRange_def)
  qed
qed

definition added :: "RangeTreeNode \<Rightarrow> string \<Rightarrow> string \<Rightarrow> string \<Rightarrow> string \<Rightarrow> RangeTreeNode \<Rightarrow> bool" where
  "added t lo a b hi t' \<longleftrightarrow> Ukey t' = Ukey t \<and> wf_node t' lo hi \<and> covers t' lo hi = covers t lo hi \<union> {a..<b}"

lemma added_settle: "added t lo a b hi t' \<Longrightarrow> added t lo a b hi (settle t')"
  using settle_meaning [of t' lo hi] by (simp add: added_def)

lemma join_ivl: "a \<le> b \<Longrightarrow> b \<le> c \<Longrightarrow> {a..<b} \<union> {b..<c} = {a..<c :: string}"
  by (rule ivl_disj_un_two(3))

lemma added_across:
  assumes wf: "wf_node (TInner u l r d) lo hi" and b: "a \<le> Ukey l" "Ukey r \<le> b"
    and l: "added l lo a (Ukey l) (Ukey l) l1" and r: "added r (Ukey r) (Ukey r) b hi r1"
  shows "added (TInner u l r d) lo a b hi (if depth l1 < depth r1 then TInner u (set_ukey (Ukey r1) l1) r1 d else TInner u l1 (set_ukey (Ukey l1) r1) d)"
proof -
  have k: "Ukey l1 = Ukey l" "Ukey r1 = Ukey r" "Ukey l \<le> Ukey r" using l r wf by (simp_all add: added_def)
  have 1: "wf_node l1 lo (Ukey r)" "covers l1 lo (Ukey r) = covers l1 lo (Ukey l) \<union> {Ukey l..<Ukey r}"
    using extend_right [of l1 lo "Ukey l" "Ukey r"] l k by (auto simp: added_def)
  have 2: "wf_node r1 (Ukey l) hi" "covers r1 (Ukey l) hi = covers r1 (Ukey r) hi \<union> {Ukey l..<Ukey r}"
    using extend_left [of r1 "Ukey r" hi "Ukey l"] r k by (auto simp: added_def)
  have 3: "{a..<Ukey l} \<union> {Ukey l..<Ukey r} \<union> {Ukey r..<b} = {a..<b}" using b k(3) by (simp add: join_ivl)
  have "covers l1 lo (Ukey l) \<union> {Ukey l..<Ukey r} \<union> covers r1 (Ukey r) hi = covers (TInner u l r d) lo hi \<union> {a..<b}"
    using l r unfolding 3 [symmetric] added_def by auto
  then show ?thesis using l r k 1 2 by (auto simp: added_def)
qed

lemma node_AddRange_added:
  "wf_node t lo hi \<Longrightarrow> lo \<le> a \<Longrightarrow> a \<le> b \<Longrightarrow> b \<le> hi \<Longrightarrow> \<exists>t'. node_AddRange t lo a b hi = Some t' \<and> added t lo a b hi t'"
proof (induction t lo a b hi rule: node_AddRange.induct)
  case (1 u d lo a b hi)
  then have "{lo..<hi} \<union> {a..<b} = {lo..<hi}" by (auto intro: order.trans order.strict_trans2)
  then show ?case using 1 by (simp add: added_def)
next
  case (2 u l r d lo a b hi)
  let ?L = "Ukey l" and ?R = "Ukey r"
  have w: "wf_node l lo ?L" "?L \<le> ?R" "wf_node r ?R hi" "lo \<le> ?L" "?R \<le> hi" using 2(7) by (auto dest: wf_node_le)
  note ab = 2(8-10)
  have fin: ?case if "node_AddRange (TInner u l r d) lo a b hi = Some (settle t')" "added (TInner u l r d) lo a b hi t'" for t'
    using that added_settle by blast
  from ab w(4,2,5) show ?case
  proof (cases rule: placing)
    case c1
    note c1(3)
    moreover obtain l1 where "node_AddRange l lo a ?L ?L = Some l1" "added l lo a ?L ?L l1" using 2(1) [OF calculation] w c1 ab by blast
    moreover obtain r1 where "node_AddRange r ?R ?R b hi = Some r1" "added r ?R ?R b hi r1" using 2(2) [OF calculation(1,2)] w c1 ab by blast
    ultimately show ?thesis using added_across [OF 2(7) c1(1,2)] by (intro fin) simp_all
  next
    case c2
    note g = c2(4,5)
    from 2(3) [OF g] w c2(1,2) ab obtain l1 where "node_AddRange l lo a b ?L = Some l1" "added l lo a b ?L l1" by blast
    then show ?thesis using g w by (intro fin [of "TInner u l1 r d"]) (auto simp: added_def)
  next
    case c3
    note g = c3(3-5)
    from 2(4) [OF g] w c3(1,2) ab obtain r1 where "node_AddRange r ?R a b hi = Some r1" "added r ?R a b hi r1" by blast
    then show ?thesis using g w by (intro fin [of "TInner u l r1 d"]) (auto simp: added_def)
  next
    case c4
    note g = c4(4-7)
    have e: "wf_node (set_ukey a r) a hi" "covers (set_ukey a r) a hi = covers r ?R hi \<union> {a..<?R}" using extend_left [OF w(3), of a] c4(2) by simp_all
    from 2(5) [OF g e(1)] ab obtain r1 where r1: "node_AddRange (set_ukey a r) a a b hi = Some r1" "added (set_ukey a r) a a b hi r1" by blast
    have "{a..<?R} \<union> {a..<b} = {a..<b}" using c4(1-3) by auto
    then have "covers r1 a hi = covers r ?R hi \<union> {a..<b}" using r1(2) e(2) by (auto simp: added_def)
    then show ?thesis using g w r1 c4(1-3) by (intro fin [of "TInner u l r1 d"]) (auto simp: added_def)
  next
    case c5
    note g = c5(4-8)
    have e: "wf_node (set_ukey b l) lo b" "covers (set_ukey b l) lo b = covers l lo ?L \<union> {?L..<b}" using extend_right [OF w(1), of b] c5(2) by simp_all
    from 2(6) [OF g e(1)] ab obtain l1 where l1: "node_AddRange (set_ukey b l) lo a b b = Some l1" "added (set_ukey b l) lo a b b l1" by blast
    have "{?L..<b} \<union> {a..<b} = {a..<b}" using c5(1-3) by auto
    then have "covers l1 lo b = covers l lo ?L \<union> {a..<b}" using l1(2) e(2) by (auto simp: added_def)
    then show ?thesis using g w l1 c5(1-3) by (intro fin [of "TInner u l1 r d"]) (auto simp: added_def)
  next
    case c6
    note g = c6(3-8)
    show ?thesis
      by (rule fin [of "if depth l < depth r then TInner u (TInner b l (NewRangeTreeLeaf a) (depth l + 1)) r d
            else TInner u l (TInner a (NewRangeTreeLeaf b) r (depth r + 1)) d"])
        (use g w ab c6(1,2) in \<open>auto simp: added_def NewRangeTreeLeaf_def\<close>)
  qed
qed

section \<open>Deleting a range\<close>

definition deleted :: "RangeTreeNode \<Rightarrow> string \<Rightarrow> string \<Rightarrow> string \<Rightarrow> string \<Rightarrow> RangeTreeNode option \<times> string \<times> string \<Rightarrow> bool" where
  "deleted t lo a b hi res = (case res of
      (None, _, _) \<Rightarrow> covers t lo hi - {a..<b} = {}
    | (Some t', lo', hi') \<Rightarrow> lo < hi \<and> lo \<le> lo' \<and> hi' \<le> hi \<and> wf_node t' lo' hi' \<and> covers t' lo' hi' = covers t lo hi - {a..<b}
        \<and> (Ukey t = hi \<longrightarrow> Ukey t' = hi') \<and> (Ukey t = lo \<longrightarrow> Ukey t' = lo'))"

text \<open>What is left of a left child with the keys \<open>C\<close>, and of a right child.\<close>

definition left_rest :: "string \<Rightarrow> string \<Rightarrow> string set \<Rightarrow> RangeTreeNode option \<Rightarrow> string \<Rightarrow> bool" where
  "left_rest lo k C lc lr = (case lc of None \<Rightarrow> C = {}
     | Some l \<Rightarrow> lo \<le> lr \<and> Ukey l \<le> k \<and> wf_node l lr (Ukey l) \<and> covers l lr (Ukey l) = C)"

definition right_rest :: "string \<Rightarrow> string \<Rightarrow> string set \<Rightarrow> RangeTreeNode option \<Rightarrow> string \<Rightarrow> bool" where
  "right_rest k hi C rc rr = (case rc of None \<Rightarrow> C = {}
     | Some r \<Rightarrow> rr \<le> hi \<and> k \<le> Ukey r \<and> wf_node r (Ukey r) rr \<and> covers r (Ukey r) rr = C)"

lemma deleted_left: "deleted l lo a b (Ukey l) (lc, lr, x) \<Longrightarrow> left_rest lo (Ukey l) (covers l lo (Ukey l) - {a..<b}) lc lr"
  by (auto simp: deleted_def left_rest_def split: option.splits)

lemma deleted_right: "deleted r (Ukey r) a b hi (rc, x, rr) \<Longrightarrow> right_rest (Ukey r) hi (covers r (Ukey r) hi - {a..<b}) rc rr"
  by (auto simp: deleted_def right_rest_def split: option.splits)

lemma rejoin_deleted:
  assumes l: "left_rest lo L Cl lc lr" and r: "right_rest R hi Cr rc rr" and "L \<le> R" "lo \<le> L" "R \<le> hi" "lo < hi" "u = hi \<or> u = lo" "Ukey t = u"
    and C: "covers t lo hi - {a..<b} = Cl \<union> Cr"
  shows "\<exists>res. rejoin u lo hi lc lr rc rr = Some res \<and> deleted t lo a b hi res"
proof (cases lc)
  case None
  show ?thesis
  proof (cases rc)
    case None
    then show ?thesis using l r C \<open>lc = None\<close> by (simp add: rejoin_def deleted_def left_rest_def right_rest_def)
  next
    case (Some r')
    then have "Ukey r' \<le> rr" using r wf_node_le by (auto simp: right_rest_def)
    then show ?thesis using None Some assms by (auto simp: rejoin_def Let_def deleted_def left_rest_def right_rest_def)
  qed
next
  case (Some l')
  then have "lr \<le> Ukey l'" using l wf_node_le by (auto simp: left_rest_def)
  show ?thesis
  proof (cases rc)
    case None
    then show ?thesis using Some assms \<open>lr \<le> Ukey l'\<close> by (auto simp: rejoin_def Let_def deleted_def left_rest_def right_rest_def)
  next
    case (Some r')
    then have "Ukey l' \<le> Ukey r'" using assms(1-3) \<open>lc = Some l'\<close> by (auto simp: left_rest_def right_rest_def)
    then show ?thesis using Some \<open>lc = Some l'\<close> assms by (auto simp: rejoin_def Let_def deleted_def left_rest_def right_rest_def)
  qed
qed

lemma outside:
  assumes "C \<subseteq> {x..<y :: string}" "y \<le> a \<or> b \<le> x"
  shows "C - {a..<b} = C"
proof -
  have "z \<notin> {a..<b}" if "z \<in> C" for z using subsetD [OF assms(1) that] assms(2) by auto
  then show ?thesis by auto
qed

lemma cut_right:
  assumes "C \<subseteq> {x..<y :: string}" "y \<le> b"
  shows "C - {a..<b} = C - {a..<y}"
proof -
  have "z \<in> {a..<b} \<longleftrightarrow> z \<in> {a..<y}" if "z \<in> C" for z using subsetD [OF assms(1) that] assms(2) by auto
  then show ?thesis by auto
qed

lemma cut_left:
  assumes "C \<subseteq> {x..<y :: string}" "a \<le> x"
  shows "C - {a..<b} = C - {x..<b}"
proof -
  have "z \<in> {a..<b} \<longleftrightarrow> z \<in> {x..<b}" if "z \<in> C" for z using subsetD [OF assms(1) that] assms(2) by auto
  then show ?thesis by auto
qed

lemma node_DeleteRange_deleted:
  "wf_node t lo hi \<Longrightarrow> lo \<le> a \<Longrightarrow> a \<le> b \<Longrightarrow> b \<le> hi \<Longrightarrow> Ukey t = hi \<or> Ukey t = lo
    \<Longrightarrow> \<exists>res. node_DeleteRange t lo a b hi = Some res \<and> deleted t lo a b hi res"
proof (induction t arbitrary: lo a b hi)
  case (TLeaf u d)
  then show ?case by (auto simp: deleted_def NewRangeTreeLeaf_def)
next
  case (TInner u l r d)
  let ?L = "Ukey l" and ?R = "Ukey r" and ?t = "TInner u l r d"
  have w: "wf_node l lo ?L" "?L \<le> ?R" "wf_node r ?R hi" "lo \<le> ?L" "?R \<le> hi" using TInner.prems(1) by (auto dest: wf_node_le)
  note ab = TInner.prems(2-4)
  have bl: "covers l lo ?L \<subseteq> {lo..<?L}" and br: "covers r ?R hi \<subseteq> {?R..<hi}" using covers_bound w by blast+
  have cov: "covers ?t lo hi - {a..<b} = (covers l lo ?L - {a..<b}) \<union> (covers r ?R hi - {a..<b})" by auto
  show ?case
  proof (cases "a = lo \<and> b = hi \<or> a = b")
    case True
    have b: "covers ?t lo hi \<subseteq> {lo..<hi}" by (rule covers_bound [OF TInner.prems(1)])
    show ?thesis
    proof (cases "a = lo \<and> b = hi")
      case True
      then show ?thesis using b by (simp add: deleted_def)
    next
      case False
      then have "a = b" "lo < hi" using True ab by auto
      then show ?thesis using False TInner.prems(1) by (auto simp: deleted_def)
    qed
  next
    case False
    then have lt: "lo < hi" using ab by auto
    have whole: "left_rest lo ?L (covers l lo ?L) (Some l) lo" "right_rest ?R hi (covers r ?R hi) (Some r) hi" using w by (simp_all add: left_rest_def right_rest_def)
    note join = rejoin_deleted [OF _ _ w(2,4,5) lt, of _ _ _ _ _ _ u ?t a b]
    have u: "u = hi \<or> u = lo" "Ukey ?t = u" using TInner.prems(5) by simp_all
    have dl: "\<exists>lc lr x. node_DeleteRange l lo a' b' ?L = Some (lc, lr, x) \<and> left_rest lo ?L (covers l lo ?L - {a'..<b'}) lc lr"
      if "lo \<le> a'" "a' \<le> b'" "b' \<le> ?L" for a' b'
    proof -
      have "Ukey l = ?L \<or> Ukey l = lo" by simp
      from TInner.IH(1) [OF w(1) that this] obtain lc lr x where "node_DeleteRange l lo a' b' ?L = Some (lc, lr, x)" "deleted l lo a' b' ?L (lc, lr, x)" by (metis surj_pair)
      then show ?thesis using deleted_left by blast
    qed
    have dr: "\<exists>rc x rr. node_DeleteRange r ?R a' b' hi = Some (rc, x, rr) \<and> right_rest ?R hi (covers r ?R hi - {a'..<b'}) rc rr"
      if "?R \<le> a'" "a' \<le> b'" "b' \<le> hi" for a' b'
    proof -
      have "Ukey r = hi \<or> Ukey r = ?R" by simp
      from TInner.IH(2) [OF w(3) that this] obtain rc x rr where "node_DeleteRange r ?R a' b' hi = Some (rc, x, rr)" "deleted r ?R a' b' hi (rc, x, rr)" by (metis surj_pair)
      then show ?thesis using deleted_right by blast
    qed
    from ab w(4,2,5) show ?thesis
    proof (cases rule: placing)
      case c1
      obtain lc lr x where 1: "node_DeleteRange l lo a ?L ?L = Some (lc, lr, x)" "left_rest lo ?L (covers l lo ?L - {a..<?L}) lc lr" using dl [of a ?L] ab c1(1,2) by blast
      obtain rc y rr where 2: "node_DeleteRange r ?R ?R b hi = Some (rc, y, rr)" "right_rest ?R hi (covers r ?R hi - {?R..<b}) rc rr" using dr [of ?R b] ab c1(1,2) by blast
      have bl': "covers l lo ?L - {a..<b} = covers l lo ?L - {a..<?L}" by (rule cut_right [OF bl]) (use c1(1,2) w(2) in auto)
      have br': "covers r ?R hi - {a..<b} = covers r ?R hi - {?R..<b}" by (rule cut_left [OF br]) (use c1(1,2) w(2) in auto)
      from bl' br' have "\<exists>res. rejoin u lo hi lc lr rc rr = Some res \<and> deleted ?t lo a b hi res" by (intro join [OF 1(2) 2(2) u]) (simp only: cov)
      then show ?thesis using False 1(1) 2(1) c1(3) by auto
    next
      case c2
      obtain lc lr x where 1: "node_DeleteRange l lo a b ?L = Some (lc, lr, x)" "left_rest lo ?L (covers l lo ?L - {a..<b}) lc lr" using dl [of a b] ab c2(1-3) by blast
      have br': "covers r ?R hi - {a..<b} = covers r ?R hi" by (rule outside [OF br]) (use c2(1-3) w(2) in auto)
      from br' have "\<exists>res. rejoin u lo hi lc lr (Some r) hi = Some res \<and> deleted ?t lo a b hi res" by (intro join [OF 1(2) whole(2) u]) (simp only: cov)
      then show ?thesis using False 1(1) c2(4,5) by auto
    next
      case c3
      obtain rc y rr where 2: "node_DeleteRange r ?R a b hi = Some (rc, y, rr)" "right_rest ?R hi (covers r ?R hi - {a..<b}) rc rr" using dr [of a b] ab c3(1,2) by blast
      have bl': "covers l lo ?L - {a..<b} = covers l lo ?L" by (rule outside [OF bl]) (use c3(1,2) w(2) in auto)
      from bl' have "\<exists>res. rejoin u lo hi (Some l) lo rc rr = Some res \<and> deleted ?t lo a b hi res" by (intro join [OF whole(1) 2(2) u]) (simp only: cov)
      then show ?thesis using False 2(1) c3(3-5) by auto
    next
      case c4
      obtain rc y rr where 2: "node_DeleteRange r ?R ?R b hi = Some (rc, y, rr)" "right_rest ?R hi (covers r ?R hi - {?R..<b}) rc rr" using dr [of ?R b] ab c4(1-3) by blast
      have bl': "covers l lo ?L - {a..<b} = covers l lo ?L" by (rule outside [OF bl]) (use c4(1-3) w(2) in auto)
      have br': "covers r ?R hi - {a..<b} = covers r ?R hi - {?R..<b}" by (rule cut_left [OF br]) (use c4(1-3) w(2) in auto)
      from bl' br' have "\<exists>res. rejoin u lo hi (Some l) lo rc rr = Some res \<and> deleted ?t lo a b hi res" by (intro join [OF whole(1) 2(2) u]) (simp only: cov)
      then show ?thesis using False 2(1) c4(4-7) by auto
    next
      case c5
      obtain lc lr x where 1: "node_DeleteRange l lo a ?L ?L = Some (lc, lr, x)" "left_rest lo ?L (covers l lo ?L - {a..<?L}) lc lr" using dl [of a ?L] ab c5(1-3) by blast
      have bl': "covers l lo ?L - {a..<b} = covers l lo ?L - {a..<?L}" by (rule cut_right [OF bl]) (use c5(1-3) w(2) in auto)
      have br': "covers r ?R hi - {a..<b} = covers r ?R hi" by (rule outside [OF br]) (use c5(1-3) w(2) in auto)
      from bl' br' have "\<exists>res. rejoin u lo hi lc lr (Some r) hi = Some res \<and> deleted ?t lo a b hi res" by (intro join [OF 1(2) whole(2) u]) (simp only: cov)
      then show ?thesis using False 1(1) c5(4-8) by auto
    next
      case c6
      have bl': "covers l lo ?L - {a..<b} = covers l lo ?L" by (rule outside [OF bl]) (use c6(1,2) w(2) in auto)
      have br': "covers r ?R hi - {a..<b} = covers r ?R hi" by (rule outside [OF br]) (use c6(1,2) w(2) in auto)
      from bl' br' have "\<exists>res. rejoin u lo hi (Some l) lo (Some r) hi = Some res \<and> deleted ?t lo a b hi res" by (intro join [OF whole u]) (simp only: cov)
      then show ?thesis using False c6(3-8) by auto
    qed
  qed
qed

section \<open>Trees as sets of keys\<close>

definition wf_tree :: "RangeTree \<Rightarrow> bool" where
  "wf_tree t = (case t_root t of None \<Rightarrow> True | Some n \<Rightarrow> wf_node n (t_start t) (t_end t) \<and> Ukey n = t_end t)"

definition tree_keys :: "RangeTree \<Rightarrow> string set" where
  "tree_keys t = (case t_root t of None \<Rightarrow> {} | Some n \<Rightarrow> covers n (t_start t) (t_end t))"

lemma wf_New: "wf_tree NewRangeTree" "tree_keys NewRangeTree = {}"
  by (simp_all add: wf_tree_def tree_keys_def NewRangeTree_def)

lemma tree_Search_keys: "wf_tree t \<Longrightarrow> tree_Search t k \<longleftrightarrow> k \<in> tree_keys t"
  by (auto simp: wf_tree_def tree_Search_def tree_keys_def node_Search_covers split: option.splits)

text \<open>The part of \<open>AddRange\<close> in which the new range meets the old borders.\<close>

lemma tree_AddRange_inside:
  assumes n: "wf_node n s e" "Ukey n = e" and "a \<le> b" "s \<le> b" "a \<le> e"
    and start: "start = (if a < s then a else s)" and stop: "stop = (if b > e then b else e)"
  shows "\<exists>n2. node_AddRange (if b > e then set_ukey b n else n) start a b stop = Some n2 \<and> wf_node n2 start stop \<and> Ukey n2 = stop
     \<and> covers n2 start stop = covers n s e \<union> {a..<b}"
proof -
  let ?n = "if b > e then set_ukey b n else n"
  have r: "wf_node n s stop" "covers n s stop = covers n s e \<union> {e..<stop}" using extend_right [OF n(1), of stop] stop by auto
  have l: "wf_node ?n start stop" "covers ?n start stop = covers n s stop \<union> {start..<s}" using extend_left [OF r(1), of start] start by auto
  have "start \<le> a" "b \<le> stop" using start stop by auto
  from node_AddRange_added [OF l(1) this(1) assms(3) this(2)] obtain n2 where
    n2: "node_AddRange ?n start a b stop = Some n2" "added ?n start a b stop n2" by blast
  have "{e..<stop} \<union> {start..<s} \<union> {a..<b} = {a..<b}" using assms(3-) by auto
  then have "covers n2 start stop = covers n s e \<union> {a..<b}" using n2(2) l(2) r(2) by (auto simp: added_def)
  moreover have "Ukey ?n = stop" using n(2) stop by auto
  ultimately show ?thesis using n2 by (auto simp: added_def)
qed

lemma tree_AddRange_keys:
  assumes "wf_tree t"
  shows "\<exists>t'. tree_AddRange t a b = Some t' \<and> wf_tree t' \<and> tree_keys t' = tree_keys t \<union> {a..<b}"
proof (cases "b < a")
  case True
  then show ?thesis using assms by (simp add: tree_AddRange_def)
next
  case False
  show ?thesis
  proof (cases "t_root t")
    case None
    then show ?thesis using False by (simp add: tree_AddRange_def wf_tree_def tree_keys_def NewRangeTreeLeaf_def)
  next
    case (Some n)
    then have n: "wf_node n (t_start t) (t_end t)" "Ukey n = t_end t" using assms by (simp_all add: wf_tree_def)
    note se = wf_node_le [OF n(1)]
    consider "b < t_start t" | "\<not> b < t_start t" "a > t_end t" | "\<not> b < t_start t" "\<not> a > t_end t" by blast
    then show ?thesis
    proof cases
      case 1
      then show ?thesis using False Some n se by (auto simp: tree_AddRange_def wf_tree_def tree_keys_def NewRangeTreeLeaf_def)
    next
      case 2
      then show ?thesis using False Some n se by (auto simp: tree_AddRange_def wf_tree_def tree_keys_def NewRangeTreeLeaf_def)
    next
      case 3
      define start stop where "start = (if a < t_start t then a else t_start t)" and "stop = (if b > t_end t then b else t_end t)"
      have "a \<le> b" "t_start t \<le> b" "a \<le> t_end t" using False 3 by simp_all
      from tree_AddRange_inside [OF n this start_def stop_def] obtain n2 where
        "node_AddRange (if b > t_end t then set_ukey b n else n) start a b stop = Some n2" "wf_node n2 start stop" "Ukey n2 = stop"
        "covers n2 start stop = covers n (t_start t) (t_end t) \<union> {a..<b}" by blast
      then show ?thesis using False Some 3 by (simp add: tree_AddRange_def wf_tree_def tree_keys_def Let_def flip: start_def stop_def)
    qed
  qed
qed

lemma tree_DeleteRange_keys:
  assumes "wf_tree t"
  shows "\<exists>t'. tree_DeleteRange t a b = Some t' \<and> wf_tree t' \<and> tree_keys t' = tree_keys t - {a..<b}"
proof (cases "t_root t")
  case None
  then show ?thesis using assms by (simp add: tree_DeleteRange_def tree_keys_def)
next
  case (Some n)
  let ?s = "t_start t" and ?e = "t_end t"
  have n: "wf_node n ?s ?e" "Ukey n = ?e \<or> Ukey n = ?s" using assms Some by (simp_all add: wf_tree_def)
  have sub: "covers n ?s ?e \<subseteq> {?s..<?e}" by (rule covers_bound [OF n(1)])
  show ?thesis
  proof (cases "b < a \<or> b < ?s \<or> a > ?e")
    case True
    then have "covers n ?s ?e - {a..<b} = covers n ?s ?e" 
    proof (cases "b < a")
      case False
      then have "?e \<le> a \<or> b \<le> ?s" using True by auto
      then show ?thesis by (rule outside [OF sub])
    qed auto
    then show ?thesis using True Some assms by (auto simp: tree_DeleteRange_def tree_keys_def)
  next
    case False
    define lo hi where "lo = (if a < ?s then ?s else a)" and "hi = (if b > ?e then ?e else b)"
    have b: "?s \<le> lo" "lo \<le> hi" "hi \<le> ?e" using False wf_node_le [OF n(1)] by (auto simp: lo_def hi_def)
    from node_DeleteRange_deleted [OF n(1) b n(2)] obtain n' s' e' where
      d: "node_DeleteRange n ?s lo hi ?e = Some (n', s', e')" "deleted n ?s lo hi ?e (n', s', e')" by (metis surj_pair)
    have "z \<in> {lo..<hi} \<longleftrightarrow> z \<in> {a..<b}" if "z \<in> covers n ?s ?e" for z using subsetD [OF sub that] by (auto simp: lo_def hi_def)
    then have c: "covers n ?s ?e - {lo..<hi} = covers n ?s ?e - {a..<b}" by auto
    have "tree_DeleteRange t a b = Some (t\<lparr>t_start := s', t_end := e', t_root := n'\<rparr>)"
      using False Some d(1) by (simp add: tree_DeleteRange_def Let_def flip: lo_def hi_def)
    then show ?thesis using d(2) c Some assms
      by (cases n') (auto simp: deleted_def wf_tree_def tree_keys_def)
  qed
qed

interpretation trees: range_store wf_tree tree_keys "\<lambda>t k. Some (tree_Search t k)" tree_AddRange tree_DeleteRange
  by unfold_locales (simp_all add: tree_Search_keys tree_AddRange_keys tree_DeleteRange_keys)

section \<open>Listing and merging\<close>

lemma node_Range_append: "node_Range t out lo hi = out @ node_Range t [] lo hi"
proof (induction t arbitrary: out lo hi)
  case (TInner u l r d)
  show ?case using TInner.IH(1) [of out] TInner.IH(2) [of "node_Range l out lo (Ukey l)"] TInner.IH(2) [of "node_Range l [] lo (Ukey l)"]
    by simp
qed simp

lemma node_Range_covers: "\<exists>ps. node_Range t [] lo hi = map (\<lambda>(x, y). [x, y]) ps \<and> covers t lo hi = (\<Union>(x, y) \<in> set ps. {x..<y})"
proof (induction t arbitrary: lo hi)
  case (TLeaf u d)
  show ?case by (rule exI [of _ "[(lo, hi)]"]) simp
next
  case (TInner u l r d)
  obtain ps qs where "node_Range l [] lo (Ukey l) = map (\<lambda>(x, y). [x, y]) ps" "covers l lo (Ukey l) = (\<Union>(x, y) \<in> set ps. {x..<y})"
    "node_Range r [] (Ukey r) hi = map (\<lambda>(x, y). [x, y]) qs" "covers r (Ukey r) hi = (\<Union>(x, y) \<in> set qs. {x..<y})" using TInner.IH by meson
  then show ?case using node_Range_append [of r "map (\<lambda>(x, y). [x, y]) ps"] by (intro exI [of _ "ps @ qs"]) auto
qed

lemma tree_add_all_fold:
  "tree_add_all t (map (\<lambda>(x, y). [x, y]) ps) = foldl (\<lambda>ro (lo, hi). Option.bind ro (\<lambda>r. tree_AddRange r lo hi)) (Some t) ps"
proof (induction ps arbitrary: t)
  case (Cons p ps)
  have none: "foldl (\<lambda>ro (lo, hi). Option.bind ro (\<lambda>r. tree_AddRange r lo hi)) None qs = None" for qs
    by (induction qs) auto
  show ?case using Cons by (cases p; cases "tree_AddRange t (fst p) (snd p)") (simp_all add: none)
qed simp

lemma tree_Add_keys:
  assumes "wf_tree t"
  shows "\<exists>t'. tree_Add t other = Some t' \<and> wf_tree t' \<and> tree_keys t' = tree_keys t \<union> tree_keys other"
proof -
  obtain ps where "tree_Range other = map (\<lambda>(x, y). [x, y]) ps" "tree_keys other = (\<Union>(x, y) \<in> set ps. {x..<y})"
  proof (cases "t_root other")
    case None
    then show ?thesis using that [of "[]"] by (simp add: tree_Range_def tree_keys_def)
  next
    case (Some n)
    then show ?thesis using that node_Range_covers [of n "t_start other" "t_end other"] by (auto simp: tree_Range_def tree_keys_def)
  qed
  then show ?thesis using trees.add_many [OF assms, of ps] by (simp add: tree_Add_def tree_add_all_fold)
qed

section \<open>Sequences of operations\<close>

datatype 'k range_op = AddOp 'k 'k | DeleteOp 'k 'k

fun run_ranges :: "('r \<Rightarrow> 'k \<Rightarrow> 'k \<Rightarrow> 'r option) \<Rightarrow> ('r \<Rightarrow> 'k \<Rightarrow> 'k \<Rightarrow> 'r option) \<Rightarrow> 'r \<Rightarrow> 'k range_op list \<Rightarrow> 'r option" where
  "run_ranges add del r [] = Some r"
| "run_ranges add del r (AddOp lo hi # ops) = Option.bind (add r lo hi) (\<lambda>r'. run_ranges add del r' ops)"
| "run_ranges add del r (DeleteOp lo hi # ops) = Option.bind (del r lo hi) (\<lambda>r'. run_ranges add del r' ops)"

fun op_keys :: "'k::ord set \<Rightarrow> 'k range_op \<Rightarrow> 'k set" where
  "op_keys K (AddOp lo hi) = K \<union> {lo..<hi}"
| "op_keys K (DeleteOp lo hi) = K - {lo..<hi}"

context range_store
begin

lemma run_keys: "inv r \<Longrightarrow> \<exists>r'. run_ranges add del r ops = Some r' \<and> inv r' \<and> keys r' = foldl op_keys (keys r) ops"
proof (induction ops arbitrary: r)
  case (Cons x ops)
  show ?case
  proof (cases x)
    case (AddOp lo hi)
    obtain r1 where r1: "add r lo hi = Some r1" "inv r1" "keys r1 = keys r \<union> {lo..<hi}" using add_law [OF Cons.prems] by blast
    then show ?thesis using Cons.IH [OF r1(2)] by (simp add: AddOp)
  next
    case (DeleteOp lo hi)
    obtain r1 where r1: "del r lo hi = Some r1" "inv r1" "keys r1 = keys r - {lo..<hi}" using del_law [OF Cons.prems] by blast
    then show ?thesis using Cons.IH [OF r1(2)] by (simp add: DeleteOp)
  qed
qed simp

end

section \<open>Properties\<close>

text \<open>
  C19: The tree and the list of key ranges are interchangeable: after any sequence of added and
  deleted ranges both have run without a panic and answer every search alike, namely whether the
  key is in the set that the half-open ranges describe.
\<close>

theorem tree_and_list_agree:
  "\<exists>t l. run_ranges tree_AddRange tree_DeleteRange NewRangeTree ops = Some t \<and> run_ranges AddRange DeleteRange NewRangeList ops = Some l
     \<and> (\<forall>k. tree_Search t k = (k \<in> foldl op_keys {} ops) \<and> Search l k = Some (tree_Search t k))"
proof -
  obtain t where t: "run_ranges tree_AddRange tree_DeleteRange NewRangeTree ops = Some t" "wf_tree t" "tree_keys t = foldl op_keys {} ops"
    using trees.run_keys [OF wf_New(1), of ops] wf_New(2) by auto
  obtain l where l: "run_ranges AddRange DeleteRange NewRangeList ops = Some l" "wf_ranges l" "keys_of l = foldl op_keys {} ops"
    using ranges.run_keys [OF wf_NewRangeList(1), of ops] wf_NewRangeList(2) by auto
  have "tree_Search t k = (k \<in> foldl op_keys {} ops) \<and> Search l k = Some (tree_Search t k)" for k
    using tree_Search_keys [OF t(2)] ranges.search_law [OF l(2)] t(3) l(3) by simp
  then show ?thesis using t(1) l(1) by blast
qed

text \<open>Merging one tree into another unites their keys.\<close>

theorem tree_merge:
  assumes "wf_tree t" "wf_tree other"
  shows "\<exists>t'. tree_Add t other = Some t' \<and> wf_tree t' \<and> (\<forall>k. tree_Search t' k \<longleftrightarrow> tree_Search t k \<or> tree_Search other k)"
  using tree_Add_keys [OF assms(1), of other] tree_Search_keys assms by (metis Un_iff)

end
