(* ===== verification/Bls_Signer.thy ===== *)
theory Bls_Signer
  imports Bit_Vector "HOL-Library.Monad_Syntax"
begin

text \<open>
  The signature wrappers of \<open>src/source/utils/signer/bls.go\<close>. The curve library is not part
  of the repository: \<open>bls_lib\<close> is the record of the operations the wrappers call, an argument
  of every definition, and \<open>bls_homomorphic\<close> states the documented law of BLS aggregation that
  the facts about aggregated signatures assume. Signature strings are the hexadecimal form.
\<close>

section \<open>Model\<close>

record ('pk, 'sg) bls_lib =
  sign_of_hex :: "string \<Rightarrow> 'sg option"
  sign_to_hex :: "'sg \<Rightarrow> string"
  zero_sign :: 'sg
  add_sign :: "'sg \<Rightarrow> 'sg \<Rightarrow> 'sg"
  zero_key :: 'pk
  add_key :: "'pk \<Rightarrow> 'pk \<Rightarrow> 'pk"
  verify_byte :: "'sg \<Rightarrow> 'pk \<Rightarrow> bytes \<Rightarrow> bool"

record 'pk Verifier =
  publicKeys :: "'pk option list"

definition Verifier_Size :: "'pk Verifier \<Rightarrow> int" where
  "Verifier_Size s = int (length (publicKeys s))"

text \<open>The condition \<open>index >= len || keys[index] == nil\<close> panics on a negative index.\<close>

definition Verify :: "('pk, 'sg) bls_lib \<Rightarrow> 'pk Verifier \<Rightarrow> string \<Rightarrow> bytes \<Rightarrow> int \<Rightarrow> bool option" where
  "Verify b s aggSig msg i =
     (if i \<ge> Verifier_Size s then Some False
      else (case index (publicKeys s) i of
          None \<Rightarrow> None
        | Some None \<Rightarrow> Some False
        | Some (Some pk) \<Rightarrow> (case sign_of_hex b aggSig of
              None \<Rightarrow> Some False
            | Some sig \<Rightarrow> Some (verify_byte b sig pk msg))))"

text \<open>
  The loop that sums the keys of the set bits: \<open>Some None\<close> is the early \<open>return false\<close> at a
  missing key, the outer \<open>None\<close> a panic.
\<close>

fun sum_keys :: "('pk, 'sg) bls_lib \<Rightarrow> 'pk option list \<Rightarrow> BitVector option \<Rightarrow> nat \<Rightarrow> nat \<Rightarrow> 'pk \<Rightarrow> 'pk option option" where
  "sum_keys b keys bitMap i 0 acc = Some (Some acc)"
| "sum_keys b keys bitMap i (Suc m) acc = (case GetIndex bitMap (int i) of
      None \<Rightarrow> None
    | Some False \<Rightarrow> sum_keys b keys bitMap (Suc i) m acc
    | Some True \<Rightarrow> (case index keys (int i) of
          None \<Rightarrow> None
        | Some None \<Rightarrow> Some None
        | Some (Some pk) \<Rightarrow> sum_keys b keys bitMap (Suc i) m (add_key b acc pk)))"

definition VerifyAggregateSignature :: "('pk, 'sg) bls_lib \<Rightarrow> 'pk Verifier \<Rightarrow> string \<Rightarrow> bytes \<Rightarrow> bytes \<Rightarrow> bool option" where
  "VerifyAggregateSignature b s aggSig msg bitMapBytes = do {
     bitMap \<leftarrow> NewBitArrayFromByte bitMapBytes;
     if Verifier_Size s \<noteq> Size bitMap then Some False
     else (case sign_of_hex b aggSig of
         None \<Rightarrow> Some False
       | Some sig \<Rightarrow> (case sum_keys b (publicKeys s) bitMap 0 (nat (Size bitMap)) (zero_key b) of
             None \<Rightarrow> None
           | Some None \<Rightarrow> Some False
           | Some (Some pk) \<Rightarrow> Some (verify_byte b sig pk msg))) }"

text \<open>\<open>None\<close> is the error of a string that does not parse.\<close>

fun sum_signs :: "('pk, 'sg) bls_lib \<Rightarrow> string list \<Rightarrow> 'sg \<Rightarrow> 'sg option" where
  "sum_signs b [] acc = Some acc"
| "sum_signs b (sig # sigs) acc = (case sign_of_hex b sig of
      None \<Rightarrow> None
    | Some sub \<Rightarrow> sum_signs b sigs (add_sign b acc sub))"

definition AggregateSignatures :: "('pk, 'sg) bls_lib \<Rightarrow> string list \<Rightarrow> string option" where
  "AggregateSignatures b sigs = map_option (sign_to_hex b) (sum_signs b sigs (zero_sign b))"

section \<open>The law of aggregation\<close>

definition bls_homomorphic :: "('pk, 'sg) bls_lib \<Rightarrow> bool" where
  "bls_homomorphic b \<longleftrightarrow>
     (\<forall>s. sign_of_hex b (sign_to_hex b s) = Some s)
     \<and> (\<forall>s. add_sign b (zero_sign b) s = s) \<and> (\<forall>p. add_key b (zero_key b) p = p)
     \<and> (\<forall>s1 s2 p1 p2 m. verify_byte b s1 p1 m \<longrightarrow> verify_byte b s2 p2 m \<longrightarrow>
          verify_byte b (add_sign b s1 s2) (add_key b p1 p2) m)"

text \<open>The keys that a set of indices selects, in index order.\<close>

definition selected :: "'a list \<Rightarrow> (nat \<Rightarrow> bool) \<Rightarrow> 'a list" where
  "selected xs P = map ((!) xs) (filter P [0..<length xs])"

lemma Verify_True:
  "Verify b s sg msg i = Some True \<longleftrightarrow> 0 \<le> i \<and> i < Verifier_Size s \<and>
     (\<exists>pk sig. publicKeys s ! nat i = Some pk \<and> sign_of_hex b sg = Some sig \<and> verify_byte b sig pk msg)"
  by (auto simp: Verify_def Verifier_Size_def index_def split: option.splits)

lemma Verify_panics: "Verify b s sg msg i = None \<longleftrightarrow> i < 0"
  by (auto simp: Verify_def Verifier_Size_def index_def split: option.splits)

text \<open>Signatures that verify one by one add up to one that verifies under the added keys.\<close>

lemma fold_verifies:
  assumes "bls_homomorphic b"
  shows "list_all2 (\<lambda>s p. verify_byte b s p m) ss ps \<Longrightarrow> verify_byte b s0 p0 m \<Longrightarrow>
     verify_byte b (foldl (add_sign b) s0 ss) (foldl (add_key b) p0 ps) m"
  by (induction arbitrary: s0 p0 rule: list_all2_induct) (use assms in \<open>auto simp: bls_homomorphic_def\<close>)

lemma fold_verifies_zero:
  assumes "bls_homomorphic b" "list_all2 (\<lambda>s p. verify_byte b s p m) ss ps" "ss \<noteq> []"
  shows "verify_byte b (foldl (add_sign b) (zero_sign b) ss) (foldl (add_key b) (zero_key b) ps) m"
proof -
  obtain s ss' p ps' where "ss = s # ss'" "ps = p # ps'"
    using assms(2,3) by (cases ss; cases ps) auto
  then show ?thesis using fold_verifies [OF assms(1), of m ss' ps' s p] assms(1,2)
    by (simp add: bls_homomorphic_def)
qed

lemma sum_signs_fold: "list_all2 (\<lambda>x s. sign_of_hex b x = Some s) xs ss \<Longrightarrow> sum_signs b xs acc = Some (foldl (add_sign b) acc ss)"
  by (induction arbitrary: acc rule: list_all2_induct) auto

lemma sum_keys_fold:
  assumes "wf_bv bm" "i + m = nat (Bits bm)" "nat (Bits bm) = length keys"
    and "\<And>j. j < length keys \<Longrightarrow> bv_bit bm j \<Longrightarrow> keys ! j = Some (pk j)"
  shows "sum_keys b keys (Some bm) i m acc = Some (Some (foldl (add_key b) acc (map pk (filter (bv_bit bm) [i..<i + m]))))"
  using assms(2)
proof (induction m arbitrary: i acc)
  case (Suc m)
  have i: "i < length keys" using Suc.prems assms(3) by simp
  have g: "GetIndex (Some bm) (int i) = Some (bv_bit bm i)" by (rule GetIndex_bit [OF assms(1)])
  have u: "[i..<i + Suc m] = i # [Suc i..<Suc i + m]" by (simp add: upt_conv_Cons)
  have IH: "sum_keys b keys (Some bm) (Suc i) m acc' =
      Some (Some (foldl (add_key b) acc' (map pk (filter (bv_bit bm) [Suc i..<Suc i + m]))))" for acc'
    by (rule Suc.IH) (use Suc.prems in simp)
  show ?case
    unfolding u using assms(4) [OF i] i by (cases "bv_bit bm i") (simp_all add: g index_def IH del: upt_Suc)
qed simp

end
