(* ===== verification/Hot_Stuff.thy ===== *)
theory Hot_Stuff
  imports Bls_Signer
begin

text \<open>
  Vote collection, \<open>src/source/core/hotstuff\<close>: votes and aggregated votes (\<open>votes.go\<close>), the
  package that counts the votes of one view and round (\<open>height_datas.go\<close>) and the state that
  owns it (\<open>main.go\<close>). The protobuf encoder of votes and the curve library are arguments.
  The lemmas show that the counters always equal the weights of the stored votes, that a
  validator counts once, when the two outcomes exclude each other, and when the aggregated
  signature verifies.
\<close>

section \<open>Votes\<close>

definition CodeTypeNil :: int where "CodeTypeNil = 0"
definition CodeTypeOK :: int where "CodeTypeOK = 1"
definition CodeTypeReject :: int where "CodeTypeReject = 2"

datatype hs_error =
    ErrInvalidVoteCode | ErrInvalidValidatorIndex | ErrInvalidView | ErrInvalidRound
  | ErrInvalidSign | ErrDuplicatedVote | ErrNoMaj23 | ErrAggregate

record Vote =
  v_Code :: int
  v_View :: int
  v_Round :: int
  v_ForHash :: bytes
  v_ForNecessaryData :: "bytes list"
  v_Sign :: string
  v_ValidatorIndex :: int

text \<open>The message of the protobuf schema, with its field types.\<close>

record pb_Vote =
  pb_Code :: "32 word"
  pb_View :: "64 word"
  pb_Round :: "32 word"
  pb_ForHash :: bytes
  pb_ForNecessaryData :: "bytes list"
  pb_Sign :: string
  pb_ValidatorIndex :: "32 word"

definition NewVote :: "int \<Rightarrow> int \<Rightarrow> bytes \<Rightarrow> bytes list \<Rightarrow> int \<Rightarrow> Vote" where
  "NewVote view round hash necessary_data i =
     \<lparr>v_Code = CodeTypeOK, v_View = view, v_Round = round, v_ForHash = hash,
      v_ForNecessaryData = necessary_data, v_Sign = [], v_ValidatorIndex = i\<rparr>"

definition Vote_IsOK :: "Vote \<Rightarrow> bool" where
  "Vote_IsOK v \<longleftrightarrow> v_Code v = CodeTypeOK"

definition SetOK :: "Vote \<Rightarrow> Vote" where
  "SetOK v = v\<lparr>v_Code := CodeTypeOK\<rparr>"

definition SetReject :: "Vote \<Rightarrow> Vote" where
  "SetReject v = v\<lparr>v_Code := CodeTypeReject\<rparr>"

definition Vote_ToProto :: "Vote \<Rightarrow> pb_Vote" where
  "Vote_ToProto v =
     \<lparr>pb_Code = word_of_int (v_Code v), pb_View = word_of_int (v_View v), pb_Round = word_of_int (v_Round v),
      pb_ForHash = v_ForHash v, pb_ForNecessaryData = v_ForNecessaryData v,
      pb_Sign = v_Sign v, pb_ValidatorIndex = word_of_int (v_ValidatorIndex v)\<rparr>"

text \<open>\<open>int8(p.Code)\<close> keeps the low byte.\<close>

definition NewVoteFromProto :: "pb_Vote \<Rightarrow> Vote" where
  "NewVoteFromProto p =
     \<lparr>v_Code = sint (ucast (pb_Code p) :: 8 word), v_View = sint (pb_View p), v_Round = sint (pb_Round p),
      v_ForHash = pb_ForHash p, v_ForNecessaryData = pb_ForNecessaryData p,
      v_Sign = pb_Sign p, v_ValidatorIndex = sint (pb_ValidatorIndex p)\<rparr>"

definition Vote_SignBytes :: "(pb_Vote \<Rightarrow> bytes) \<Rightarrow> Vote \<Rightarrow> bytes" where
  "Vote_SignBytes marshal v = marshal (Vote_ToProto (v\<lparr>v_Sign := [], v_ValidatorIndex := -1\<rparr>))"

definition Vote_ValidateBasic :: "Vote \<Rightarrow> hs_error + unit" where
  "Vote_ValidateBasic v =
     (if v_Code v \<noteq> CodeTypeOK \<and> v_Code v \<noteq> CodeTypeReject then Inl ErrInvalidVoteCode
      else if v_ValidatorIndex v < 0 then Inl ErrInvalidValidatorIndex
      else if v_Round v < 0 then Inl ErrInvalidRound
      else if v_View v < 0 then Inl ErrInvalidView
      else Inr ())"

record AggregatedVote =
  a_Code :: int
  a_View :: int
  a_Round :: int
  a_ForHash :: bytes
  a_ForNecessaryData :: "bytes list"
  a_Sign :: string
  a_SignerIndexer :: "BitVector option"

definition GetAggregated :: "Vote \<Rightarrow> BitVector option \<Rightarrow> AggregatedVote" where
  "GetAggregated v bv =
     \<lparr>a_Code = v_Code v, a_View = v_View v, a_Round = v_Round v, a_ForHash = v_ForHash v,
      a_ForNecessaryData = v_ForNecessaryData v, a_Sign = v_Sign v, a_SignerIndexer = bv\<rparr>"

definition AggregatedVote_IsOK :: "AggregatedVote \<Rightarrow> bool" where
  "AggregatedVote_IsOK v \<longleftrightarrow> a_Code v = CodeTypeOK"

record pb_AggregatedVote =
  pba_Code :: "32 word"
  pba_View :: "64 word"
  pba_Round :: "32 word"
  pba_ForHash :: bytes
  pba_ForNecessaryData :: "bytes list"
  pba_Sign :: string
  pba_SignerIndex :: bytes

definition AggregatedVote_ToProto :: "AggregatedVote \<Rightarrow> pb_AggregatedVote" where
  "AggregatedVote_ToProto v =
     \<lparr>pba_Code = word_of_int (a_Code v), pba_View = word_of_int (a_View v), pba_Round = word_of_int (a_Round v),
      pba_ForHash = a_ForHash v, pba_ForNecessaryData = a_ForNecessaryData v,
      pba_Sign = a_Sign v, pba_SignerIndex = Byte (a_SignerIndexer v)\<rparr>"

text \<open>Decoding panics when the signer map does.\<close>

definition NewAggregatedVoteFromProto :: "pb_AggregatedVote \<Rightarrow> AggregatedVote option" where
  "NewAggregatedVoteFromProto p = map_option (\<lambda>bv.
     \<lparr>a_Code = sint (ucast (pba_Code p) :: 8 word), a_View = sint (pba_View p), a_Round = sint (pba_Round p),
      a_ForHash = pba_ForHash p, a_ForNecessaryData = pba_ForNecessaryData p,
      a_Sign = pba_Sign p, a_SignerIndexer = bv\<rparr>) (NewBitArrayFromByte (pba_SignerIndex p))"

definition AggregatedVote_SignBytes :: "(pb_AggregatedVote \<Rightarrow> bytes) \<Rightarrow> AggregatedVote \<Rightarrow> bytes" where
  "AggregatedVote_SignBytes marshal v =
     marshal ((AggregatedVote_ToProto v)\<lparr>pba_Sign := [], pba_SignerIndex := []\<rparr>)"

definition AggregatedVote_ValidateBasic :: "AggregatedVote \<Rightarrow> hs_error + unit" where
  "AggregatedVote_ValidateBasic v =
     (if a_Code v \<noteq> CodeTypeOK \<and> a_Code v \<noteq> CodeTypeReject then Inl ErrInvalidVoteCode
      else if Size (a_SignerIndexer v) \<le> 0 then Inl ErrInvalidValidatorIndex
      else if a_Round v < 0 then Inl ErrInvalidRound
      else if a_View v < 0 then Inl ErrInvalidView
      else Inr ())"

section \<open>Counting the votes of a round\<close>

record 'pk HeightDataPackage =
  ProposalHash :: bytes
  h_View :: int
  h_Round :: int
  Votes :: "Vote option list"
  VotesBitVector :: "BitVector option"
  VotesTotal :: int
  RejectTotal :: int
  VotesNeeded :: int
  PerVote :: "int list"
  ValidatorSet :: "'pk Verifier"
  AggVote :: "AggregatedVote option"

definition NewHeightDataPackage :: "'pk Verifier \<Rightarrow> int list \<Rightarrow> int \<Rightarrow> int \<Rightarrow> 'pk HeightDataPackage" where
  "NewHeightDataPackage validatorSet perVote view round =
     \<lparr>ProposalHash = [], h_View = view, h_Round = round,
      Votes = replicate (nat (Verifier_Size validatorSet)) None,
      VotesBitVector = NewBitVector (Verifier_Size validatorSet),
      VotesTotal = 0, RejectTotal = 0, VotesNeeded = sum_list perVote, PerVote = perVote,
      ValidatorSet = validatorSet, AggVote = None\<rparr>"

text \<open>\<open>None\<close> is a panic; an error leaves the package as it was.\<close>

definition addVote :: "('pk, 'sg) bls_lib \<Rightarrow> (pb_Vote \<Rightarrow> bytes) \<Rightarrow> 'pk HeightDataPackage \<Rightarrow> Vote \<Rightarrow>
    (hs_error + 'pk HeightDataPackage) option" where
  "addVote b marshal hdp vote = do {
     ok \<leftarrow> Verify b (ValidatorSet hdp) (v_Sign vote) (Vote_SignBytes marshal vote) (v_ValidatorIndex vote);
     if \<not> ok then Some (Inl ErrInvalidSign)
     else if h_View hdp \<noteq> v_View vote \<or> h_Round hdp \<noteq> v_Round vote \<or> ProposalHash hdp \<noteq> v_ForHash vote
     then Some (Inl ErrInvalidVoteCode)
     else do {
       slot \<leftarrow> index (Votes hdp) (v_ValidatorIndex vote);
       if slot \<noteq> None then Some (Inl ErrDuplicatedVote)
       else do {
         w \<leftarrow> index (PerVote hdp) (v_ValidatorIndex vote);
         (bv, _) \<leftarrow> SetIndex (VotesBitVector hdp) (v_ValidatorIndex vote) True;
         let hdp1 = (if Vote_IsOK vote then hdp\<lparr>VotesTotal := VotesTotal hdp + w\<rparr>
                     else hdp\<lparr>RejectTotal := RejectTotal hdp + w\<rparr>);
         Some (Inr (hdp1\<lparr>Votes := (Votes hdp)[nat (v_ValidatorIndex vote) := Some vote],
           VotesBitVector := bv\<rparr>)) } } }"

definition isQuorum :: "'pk HeightDataPackage \<Rightarrow> bool" where
  "isQuorum hdp \<longleftrightarrow> VotesTotal hdp \<ge> (2 * VotesNeeded hdp) sdiv 3 \<or> RejectTotal hdp \<ge> (2 * VotesNeeded hdp) sdiv 3"

definition HasAggVote :: "'pk HeightDataPackage \<Rightarrow> bool" where
  "HasAggVote hdp \<longleftrightarrow> AggVote hdp \<noteq> None"

text \<open>The loop over the stored votes: signer map, signatures and the data of the last vote.\<close>

fun maj_loop :: "bool \<Rightarrow> Vote option list \<Rightarrow> nat \<Rightarrow> BitVector option \<Rightarrow> string list \<Rightarrow> bytes list \<Rightarrow>
    (BitVector option \<times> string list \<times> bytes list) option" where
  "maj_loop aggOK [] i bv votes necessary = Some (bv, votes, necessary)"
| "maj_loop aggOK (None # vs) i bv votes necessary = maj_loop aggOK vs (Suc i) bv votes necessary"
| "maj_loop aggOK (Some vote # vs) i bv votes necessary = do {
     bv' \<leftarrow> (if Vote_IsOK vote = aggOK then map_option fst (SetIndex bv (int i) True) else Some bv);
     maj_loop aggOK vs (Suc i) bv' (votes @ [v_Sign vote]) (v_ForNecessaryData vote) }"

definition getMaj23 :: "('pk, 'sg) bls_lib \<Rightarrow> 'pk HeightDataPackage \<Rightarrow>
    (hs_error + AggregatedVote \<times> 'pk HeightDataPackage) option" where
  "getMaj23 b hdp = (case AggVote hdp of
      Some agg \<Rightarrow> Some (Inr (agg, hdp))
    | None \<Rightarrow>
        if VotesTotal hdp < (2 * VotesNeeded hdp) sdiv 3 \<and> RejectTotal hdp < (2 * VotesNeeded hdp) sdiv 3
        then Some (Inl ErrNoMaj23)
        else do {
          let aggVote = \<lparr>v_Code = (if VotesTotal hdp \<ge> (2 * VotesNeeded hdp) sdiv 3 then CodeTypeOK else CodeTypeReject),
                v_View = h_View hdp, v_Round = h_Round hdp, v_ForHash = ProposalHash hdp,
                v_ForNecessaryData = [], v_Sign = [], v_ValidatorIndex = 0\<rparr>;
          (bv, votes, necessary) \<leftarrow> maj_loop (Vote_IsOK aggVote) (Votes hdp) 0
              (NewBitVector (Verifier_Size (ValidatorSet hdp))) [] [];
          (case AggregateSignatures b votes of
             None \<Rightarrow> Some (Inl ErrAggregate)
           | Some aggSig \<Rightarrow>
               (let vote = GetAggregated (aggVote\<lparr>v_ForNecessaryData := necessary, v_Sign := aggSig\<rparr>) bv
                in Some (Inr (vote, hdp\<lparr>AggVote := Some vote\<rparr>)))) })"

definition validate_aggregated :: "('pk, 'sg) bls_lib \<Rightarrow> (pb_AggregatedVote \<Rightarrow> bytes) \<Rightarrow> 'pk HeightDataPackage \<Rightarrow>
    AggregatedVote \<Rightarrow> (hs_error + 'pk HeightDataPackage) option" where
  "validate_aggregated b marshal hdp agg = do {
     ok \<leftarrow> VerifyAggregateSignature b (ValidatorSet hdp) (a_Sign agg) (AggregatedVote_SignBytes marshal agg)
             (Byte (a_SignerIndexer agg));
     if \<not> ok then Some (Inl ErrInvalidSign)
     else if h_View hdp \<noteq> a_View agg \<or> h_Round hdp \<noteq> a_Round agg then Some (Inl ErrInvalidVoteCode)
     else Some (Inr (hdp\<lparr>AggVote := Some agg\<rparr>)) }"

section \<open>The voting state of a replica\<close>

text \<open>The private key and the signer index are only stored; the index is kept.\<close>

record 'pk hs_State =
  s_View :: int
  s_Round :: int
  signerIndex :: int
  heightDatas :: "'pk HeightDataPackage option"
  s_ValidatorSet :: "'pk Verifier"
  PerVotes :: "int list"

definition NewState :: "int \<Rightarrow> int \<Rightarrow> int \<Rightarrow> 'pk Verifier \<Rightarrow> int list \<Rightarrow> 'pk hs_State" where
  "NewState view round i validatorSet perVotes =
     \<lparr>s_View = view, s_Round = round, signerIndex = i, heightDatas = None,
      s_ValidatorSet = validatorSet, PerVotes = perVotes\<rparr>"

definition fresh_package :: "'pk hs_State \<Rightarrow> 'pk HeightDataPackage" where
  "fresh_package st = NewHeightDataPackage (s_ValidatorSet st) (PerVotes st) (s_View st) (s_Round st)"

definition SetHash :: "'pk hs_State \<Rightarrow> bytes \<Rightarrow> 'pk hs_State" where
  "SetHash st hash =
     (let hdp = (case heightDatas st of None \<Rightarrow> fresh_package st | Some h \<Rightarrow> h)
      in st\<lparr>heightDatas := Some (hdp\<lparr>ProposalHash := hash\<rparr>)\<rparr>)"

definition UpdateValidators :: "'pk hs_State \<Rightarrow> 'pk Verifier \<Rightarrow> int list \<Rightarrow> 'pk hs_State" where
  "UpdateValidators st validatorSet perVotes = st\<lparr>s_ValidatorSet := validatorSet, PerVotes := perVotes\<rparr>"

definition EnterNewRound :: "'pk hs_State \<Rightarrow> 'pk hs_State" where
  "EnterNewRound st =
     (let st1 = st\<lparr>s_Round := s_Round st + 1\<rparr> in st1\<lparr>heightDatas := Some (fresh_package st1)\<rparr>)"

definition EnterNewView :: "'pk hs_State \<Rightarrow> 'pk hs_State" where
  "EnterNewView st =
     (let st1 = st\<lparr>s_View := s_View st + 1, s_Round := 0\<rparr> in st1\<lparr>heightDatas := Some (fresh_package st1)\<rparr>)"

definition AddVote :: "('pk, 'sg) bls_lib \<Rightarrow> (pb_Vote \<Rightarrow> bytes) \<Rightarrow> 'pk hs_State \<Rightarrow> Vote \<Rightarrow> (hs_error + 'pk hs_State) option" where
  "AddVote b marshal st vote = do {
     hdp \<leftarrow> heightDatas st;
     map_option (map_sum id (\<lambda>h. st\<lparr>heightDatas := Some h\<rparr>)) (addVote b marshal hdp vote) }"

definition IsQuorum :: "'pk hs_State \<Rightarrow> bool option" where
  "IsQuorum st = map_option isQuorum (heightDatas st)"

definition GetMaj23 :: "('pk, 'sg) bls_lib \<Rightarrow> 'pk hs_State \<Rightarrow> (hs_error + AggregatedVote \<times> 'pk hs_State) option" where
  "GetMaj23 b st = do {
     hdp \<leftarrow> heightDatas st;
     map_option (map_sum id (\<lambda>(v, h). (v, st\<lparr>heightDatas := Some h\<rparr>))) (getMaj23 b hdp) }"

definition ValidateAggregated :: "('pk, 'sg) bls_lib \<Rightarrow> (pb_AggregatedVote \<Rightarrow> bytes) \<Rightarrow> 'pk hs_State \<Rightarrow>
    AggregatedVote \<Rightarrow> (hs_error + 'pk hs_State) option" where
  "ValidateAggregated b marshal st agg = do {
     hdp \<leftarrow> heightDatas st;
     map_option (map_sum id (\<lambda>h. st\<lparr>heightDatas := Some h\<rparr>)) (validate_aggregated b marshal hdp agg) }"

section \<open>Invariant\<close>

text \<open>The weight of the stored votes that satisfy a predicate.\<close>

definition tally :: "(Vote \<Rightarrow> bool) \<Rightarrow> Vote option list \<Rightarrow> int list \<Rightarrow> int" where
  "tally P vs ws = (\<Sum>i<length vs. case vs ! i of Some v \<Rightarrow> if P v then ws ! i else 0 | None \<Rightarrow> 0)"

definition wf_hdp :: "('pk, 'sg) bls_lib \<Rightarrow> (pb_Vote \<Rightarrow> bytes) \<Rightarrow> 'pk HeightDataPackage \<Rightarrow> bool" where
  "wf_hdp b marshal h \<longleftrightarrow>
     length (Votes h) = length (publicKeys (ValidatorSet h)) \<and> length (PerVote h) = length (Votes h)
     \<and> VotesNeeded h = sum_list (PerVote h)
     \<and> VotesTotal h = tally Vote_IsOK (Votes h) (PerVote h)
     \<and> RejectTotal h = tally (\<lambda>v. \<not> Vote_IsOK v) (Votes h) (PerVote h)
     \<and> (\<exists>bv. VotesBitVector h = Some bv \<and> wf_bv bv \<and> Bits bv = int (length (Votes h))
          \<and> (\<forall>i < length (Votes h). bv_bit bv i \<longleftrightarrow> Votes h ! i \<noteq> None))
     \<and> (\<forall>i < length (Votes h). \<forall>v. Votes h ! i = Some v \<longrightarrow>
          v_ValidatorIndex v = int i \<and> v_View v = h_View h \<and> v_Round v = h_Round h
          \<and> Verify b (ValidatorSet h) (v_Sign v) (Vote_SignBytes marshal v) (int i) = Some True)"

lemma tally_update:
  assumes "i < length vs" "vs ! i = None"
  shows "tally P (vs[i := Some v]) ws = tally P vs ws + (if P v then ws ! i else 0)"
proof -
  let ?f = "\<lambda>vs i. case vs ! i of Some v \<Rightarrow> if P v then ws ! i else 0 | None \<Rightarrow> 0"
  have "(\<Sum>j\<in>{..<length vs} - {i}. ?f (vs[i := Some v]) j) = (\<Sum>j\<in>{..<length vs} - {i}. ?f vs j)"
    by (rule sum.cong) auto
  then show ?thesis
    using assms by (simp add: tally_def sum.remove [of "{..<length vs}" i])
qed

lemma tally_empty: "tally P (replicate n None) ws = 0"
  by (simp add: tally_def)

lemma tally_bound:
  assumes "length ws = length vs" "\<forall>w \<in> set ws. 0 \<le> w"
  shows "tally P vs ws + tally (\<lambda>v. \<not> P v) vs ws \<le> sum_list ws" "0 \<le> tally P vs ws"
proof -
  have "tally P vs ws + tally (\<lambda>v. \<not> P v) vs ws \<le> (\<Sum>i<length vs. ws ! i)"
    unfolding tally_def sum.distrib [symmetric]
    by (rule sum_mono) (use assms in \<open>auto split: option.split\<close>)
  then show "tally P vs ws + tally (\<lambda>v. \<not> P v) vs ws \<le> sum_list ws"
    using assms(1) by (simp add: sum_list_sum_nth atLeast0LessThan)
  show "0 \<le> tally P vs ws"
    unfolding tally_def by (rule sum_nonneg) (use assms in \<open>auto split: option.split\<close>)
qed

lemma wf_new_package:
  assumes "length perVote = length (publicKeys vs)"
  shows "wf_hdp b marshal (NewHeightDataPackage vs perVote view round)"
proof -
  have n: "NewBitVector (int (length (publicKeys vs))) = Some (bv_new (length (publicKeys vs)))"
    by (simp add: bv_new_def NewBitVector_def)
  show ?thesis
    using assms signers.inv_new [of "length (publicKeys vs)"] bv_bit_NewBitVector [OF n]
    by (simp add: wf_hdp_def NewHeightDataPackage_def Verifier_Size_def tally_empty n)
      (simp add: bv_new_def NewBitVector_def)
qed

text \<open>What \<open>addVote\<close> does, branch by branch, on a well-formed package.\<close>

lemma addVote_cases:
  assumes wf: "wf_hdp b marshal h" and i: "v_ValidatorIndex v = int i"
  shows "addVote b marshal h v =
     (if Verify b (ValidatorSet h) (v_Sign v) (Vote_SignBytes marshal v) (int i) \<noteq> Some True then Some (Inl ErrInvalidSign)
      else if h_View h \<noteq> v_View v \<or> h_Round h \<noteq> v_Round v \<or> ProposalHash h \<noteq> v_ForHash v
      then Some (Inl ErrInvalidVoteCode)
      else if Votes h ! i \<noteq> None then Some (Inl ErrDuplicatedVote)
      else Some (Inr (h\<lparr>VotesTotal := VotesTotal h + (if Vote_IsOK v then PerVote h ! i else 0),
        RejectTotal := RejectTotal h + (if Vote_IsOK v then 0 else PerVote h ! i),
        Votes := (Votes h)[i := Some v], VotesBitVector := Some (bv_put (the (VotesBitVector h)) i)\<rparr>)))"
proof -
  obtain bv where bv: "VotesBitVector h = Some bv" "wf_bv bv" "Bits bv = int (length (Votes h))"
    using wf by (auto simp: wf_hdp_def)
  have len: "length (PerVote h) = length (Votes h)" "length (publicKeys (ValidatorSet h)) = length (Votes h)"
    using wf by (auto simp: wf_hdp_def)
  show ?thesis
  proof (cases "Verify b (ValidatorSet h) (v_Sign v) (Vote_SignBytes marshal v) (int i) = Some True")
    case False
    then obtain "Verify b (ValidatorSet h) (v_Sign v) (Vote_SignBytes marshal v) (int i) = Some False"
      using Verify_panics [of b "ValidatorSet h" "v_Sign v" "Vote_SignBytes marshal v" "int i"]
      by (cases "Verify b (ValidatorSet h) (v_Sign v) (Vote_SignBytes marshal v) (int i)") auto
    then show ?thesis by (simp add: addVote_def i)
  next
    case True
    then have lt: "i < length (Votes h)" using len by (auto simp: Verify_True Verifier_Size_def)
    have "SetIndex (Some bv) (int i) True = Some (Some (bv_put bv i), True)"
      using SetIndex_wf [OF bv(2), of i True] lt bv(3) by (auto simp: bv_put_def)
    then show ?thesis using True lt len bv(1) by (simp add: addVote_def i index_def)
  qed
qed

lemma addVote_wf:
  assumes wf: "wf_hdp b marshal h" and ok: "addVote b marshal h v = Some (Inr h')"
  shows "wf_hdp b marshal h'"
proof -
  have "Verify b (ValidatorSet h) (v_Sign v) (Vote_SignBytes marshal v) (v_ValidatorIndex v) = Some True"
    using ok unfolding addVote_def
    by (cases "Verify b (ValidatorSet h) (v_Sign v) (Vote_SignBytes marshal v) (v_ValidatorIndex v)") (auto split: if_splits)
  then obtain i where i: "v_ValidatorIndex v = int i" "i < length (Votes h)"
    and ver: "Verify b (ValidatorSet h) (v_Sign v) (Vote_SignBytes marshal v) (int i) = Some True"
    using wf by (auto simp: Verify_True Verifier_Size_def wf_hdp_def intro: that [of "nat (v_ValidatorIndex v)"])
  note h' = ok [unfolded addVote_cases [OF wf i(1)]]
  obtain bv where bv: "VotesBitVector h = Some bv" "wf_bv bv" "Bits bv = int (length (Votes h))"
    "\<forall>i < length (Votes h). bv_bit bv i \<longleftrightarrow> Votes h ! i \<noteq> None"
    using wf by (auto simp: wf_hdp_def)
  have put: "wf_bv (bv_put bv i)" "Bits (bv_put bv i) = Bits bv" "bv_bit (bv_put bv i) j \<longleftrightarrow> bv_bit bv j \<or> j = i" for j
    using SetIndex_wf [OF bv(2), of i True] bv_put_eq [OF bv(2), of i] i(2) bv(3) by auto
  show ?thesis
    using h' wf bv put i ver tally_update [OF i(2)]
    by (auto simp: wf_hdp_def nth_list_update split: if_splits)
qed

section \<open>Reachable voting states\<close>

text \<open>
  One step of a replica's voting state: any of the operations of \<open>main.go\<close>, in any order,
  with a validator set that comes with one weight per key.
\<close>

inductive hs_step :: "('pk, 'sg) bls_lib \<Rightarrow> (pb_Vote \<Rightarrow> bytes) \<Rightarrow> (pb_AggregatedVote \<Rightarrow> bytes) \<Rightarrow>
    'pk hs_State \<Rightarrow> 'pk hs_State \<Rightarrow> bool"
  for b marshal marshalA where
  step_SetHash: "hs_step b marshal marshalA st (SetHash st hash)"
| step_Validators: "length perVotes = length (publicKeys vs) \<Longrightarrow>
    hs_step b marshal marshalA st (UpdateValidators st vs perVotes)"
| step_Round: "hs_step b marshal marshalA st (EnterNewRound st)"
| step_View: "hs_step b marshal marshalA st (EnterNewView st)"
| step_Vote: "AddVote b marshal st v = Some (Inr st') \<Longrightarrow> hs_step b marshal marshalA st st'"
| step_Maj23: "GetMaj23 b st = Some (Inr (agg, st')) \<Longrightarrow> hs_step b marshal marshalA st st'"
| step_Validate: "ValidateAggregated b marshalA st agg = Some (Inr st') \<Longrightarrow> hs_step b marshal marshalA st st'"

definition wf_state :: "('pk, 'sg) bls_lib \<Rightarrow> (pb_Vote \<Rightarrow> bytes) \<Rightarrow> 'pk hs_State \<Rightarrow> bool" where
  "wf_state b marshal st \<longleftrightarrow>
     length (PerVotes st) = length (publicKeys (s_ValidatorSet st))
     \<and> (\<forall>h. heightDatas st = Some h \<longrightarrow> wf_hdp b marshal h \<and> h_View h = s_View st \<and> h_Round h = s_Round st)"

lemma wf_fresh: "length (PerVotes st) = length (publicKeys (s_ValidatorSet st)) \<Longrightarrow> wf_hdp b marshal (fresh_package st)"
  by (simp add: fresh_package_def wf_new_package)

lemma fresh_fields [simp]: "h_View (fresh_package st) = s_View st" "h_Round (fresh_package st) = s_Round st"
  by (simp_all add: fresh_package_def NewHeightDataPackage_def)

lemma wf_hdp_hash [simp]: "wf_hdp b marshal (h\<lparr>ProposalHash := x\<rparr>) = wf_hdp b marshal h"
  by (simp add: wf_hdp_def)

lemma wf_hdp_agg [simp]: "wf_hdp b marshal (h\<lparr>AggVote := x\<rparr>) = wf_hdp b marshal h"
  by (simp add: wf_hdp_def)

lemma addVote_view: "addVote b marshal h v = Some (Inr h') \<Longrightarrow> h_View h' = h_View h \<and> h_Round h' = h_Round h"
  by (auto simp: addVote_def Let_def split: Option.bind_splits if_splits)

lemma getMaj23_view: "getMaj23 b h = Some (Inr (agg, h')) \<Longrightarrow> h' = h \<or> h' = h\<lparr>AggVote := Some agg\<rparr>"
  by (auto simp: getMaj23_def Let_def split: Option.bind_splits if_splits option.splits)

lemma validate_view: "validate_aggregated b m h agg = Some (Inr h') \<Longrightarrow> h' = h\<lparr>AggVote := Some agg\<rparr>"
  by (auto simp: validate_aggregated_def split: Option.bind_splits if_splits)

lemma map_sum_Inr: "map_option (map_sum id f) x = Some (Inr y) \<longleftrightarrow> (\<exists>z. x = Some (Inr z) \<and> y = f z)"
proof (cases x)
  case (Some a)
  then show ?thesis by (cases a) auto
qed simp

lemma AddVote_Inr: "AddVote b marshal st v = Some (Inr st') \<longleftrightarrow>
    (\<exists>h h'. heightDatas st = Some h \<and> addVote b marshal h v = Some (Inr h') \<and> st' = st\<lparr>heightDatas := Some h'\<rparr>)"
  unfolding AddVote_def by (cases "heightDatas st") (simp_all add: map_sum_Inr del: map_option_eq_Some)

lemma GetMaj23_Inr: "GetMaj23 b st = Some (Inr (agg, st')) \<longleftrightarrow>
    (\<exists>h h'. heightDatas st = Some h \<and> getMaj23 b h = Some (Inr (agg, h')) \<and> st' = st\<lparr>heightDatas := Some h'\<rparr>)"
  unfolding GetMaj23_def by (cases "heightDatas st") (auto simp: map_sum_Inr simp del: map_option_eq_Some)

lemma ValidateAggregated_Inr: "ValidateAggregated b m st agg = Some (Inr st') \<longleftrightarrow>
    (\<exists>h h'. heightDatas st = Some h \<and> validate_aggregated b m h agg = Some (Inr h') \<and> st' = st\<lparr>heightDatas := Some h'\<rparr>)"
  unfolding ValidateAggregated_def by (cases "heightDatas st") (simp_all add: map_sum_Inr del: map_option_eq_Some)

lemma hs_step_wf: "hs_step b marshal marshalA st st' \<Longrightarrow> wf_state b marshal st \<Longrightarrow> wf_state b marshal st'"
proof (induction rule: hs_step.induct)
  case (step_Vote st v st')
  then show ?case by (auto simp: AddVote_Inr wf_state_def addVote_wf dest: addVote_view)
next
  case (step_Maj23 st agg st')
  then show ?case by (auto simp: GetMaj23_Inr wf_state_def dest!: getMaj23_view)
next
  case (step_Validate st agg st')
  then show ?case by (auto simp: ValidateAggregated_Inr wf_state_def dest!: validate_view)
qed (auto simp: wf_state_def SetHash_def UpdateValidators_def EnterNewRound_def EnterNewView_def Let_def wf_fresh
    split: option.splits)

lemma reachable_wf: "(hs_step b marshal marshalA)\<^sup>*\<^sup>* st st' \<Longrightarrow> wf_state b marshal st \<Longrightarrow> wf_state b marshal st'"
  by (induction rule: rtranclp_induct) (auto intro: hs_step_wf)

lemma wf_NewState: "length perVotes = length (publicKeys vs) \<Longrightarrow> wf_state b marshal (NewState view round i vs perVotes)"
  by (simp add: wf_state_def NewState_def)

section \<open>The aggregated vote\<close>

text \<open>The positions whose votes satisfy a predicate, in order.\<close>

definition places_of :: "(Vote \<Rightarrow> bool) \<Rightarrow> Vote option list \<Rightarrow> nat list" where
  "places_of P vs = filter (\<lambda>j. \<exists>v. vs ! j = Some v \<and> P v) [0..<length vs]"

lemma places_of_Cons: "places_of P (x # vs) =
    (case x of Some v \<Rightarrow> if P v then [0] else [] | None \<Rightarrow> []) @ map Suc (places_of P vs)"
proof -
  have "[0..<length (x # vs)] = 0 # map Suc [0..<length vs]" by (simp add: upt_conv_Cons map_Suc_upt del: upt_Suc)
  then show ?thesis by (auto simp: places_of_def filter_map comp_def split: option.split)
qed

lemma maj_loop_eq:
  "wf_bv bv \<Longrightarrow> \<exists>d'. maj_loop k vs i (Some bv) sigs d =
     Some (Some (fold (\<lambda>j b. bv_put b j) (map ((+) i) (places_of (\<lambda>v. Vote_IsOK v = k) vs)) bv),
       sigs @ map (\<lambda>j. v_Sign (the (vs ! j))) (places_of (\<lambda>_. True) vs), d')"
proof (induction vs arbitrary: i bv sigs d)
  case Nil
  then show ?case by (simp add: places_of_def)
next
  case (Cons x vs)
  have sh: "map ((+) i) (map Suc js) = map ((+) (Suc i)) js" for js by simp
  show ?case
  proof (cases x)
    case None
    then show ?thesis
      using Cons.IH [OF Cons.prems, of "Suc i" sigs d] by (simp add: places_of_Cons comp_def)
  next
    case (Some v)
    have wf: "wf_bv (bv_put bv i)" by (rule signers.inv_put [OF Cons.prems])
    show ?thesis
      using Cons.IH [OF wf, of "Suc i" "sigs @ [v_Sign v]" "v_ForNecessaryData v"]
        Cons.IH [OF Cons.prems, of "Suc i" "sigs @ [v_Sign v]" "v_ForNecessaryData v"]
      by (auto simp: Some places_of_Cons comp_def bv_put_eq [OF Cons.prems])
  qed
qed

lemma maj_loop_package:
  fixes k :: bool
  assumes "wf_hdp b marshal h"
  defines "n \<equiv> length (Votes h)" and "ps \<equiv> places_of (\<lambda>v. Vote_IsOK v = k) (Votes h)"
  obtains bv d where "maj_loop k (Votes h) 0 (NewBitVector (Verifier_Size (ValidatorSet h))) [] [] =
      Some (Some bv, map (\<lambda>j. v_Sign (the (Votes h ! j))) (places_of (\<lambda>_. True) (Votes h)), d)"
    "wf_bv bv" "Bits bv = int n" "\<And>j. bv_bit bv j \<longleftrightarrow> j \<in> set ps"
proof -
  let ?bv = "fold (\<lambda>j b. bv_put b j) ps (bv_new n)"
  have new: "NewBitVector (Verifier_Size (ValidatorSet h)) = Some (bv_new n)"
    using assms(1) by (simp add: n_def wf_hdp_def Verifier_Size_def bv_new_def NewBitVector_def)
  have inv: "wf_bv (bv_new n)" by (rule signers.inv_new)
  obtain d where d: "maj_loop k (Votes h) 0 (NewBitVector (Verifier_Size (ValidatorSet h))) [] [] =
      Some (Some ?bv, map (\<lambda>j. v_Sign (the (Votes h ! j))) (places_of (\<lambda>_. True) (Votes h)), d)"
    using maj_loop_eq [OF inv, of k "Votes h" 0 "[]" "[]"] unfolding new ps_def by (auto simp: map_idI)
  have cap: "nat (Bits ?bv) = n" using signers.cap_fold_put [OF inv] signers.cap_new by simp
  have "wf_bv ?bv" by (rule signers.inv_fold_put [OF inv])
  moreover have "int (nat (Bits ?bv)) = Bits ?bv" using \<open>wf_bv ?bv\<close> by (simp add: wf_bv_def)
  then have "Bits ?bv = int n" unfolding cap by simp
  moreover have "bv_bit ?bv j \<longleftrightarrow> j \<in> set ps" for j
    by (auto simp: signers.has_collect ps_def places_of_def n_def)
  ultimately show ?thesis using that d by blast
qed

lemma SignBytes_cong:
  "v_Code v = v_Code w \<Longrightarrow> v_View v = v_View w \<Longrightarrow> v_Round v = v_Round w \<Longrightarrow> v_ForHash v = v_ForHash w \<Longrightarrow>
   v_ForNecessaryData v = v_ForNecessaryData w \<Longrightarrow> Vote_SignBytes m v = Vote_SignBytes m w"
  by (simp add: Vote_SignBytes_def Vote_ToProto_def)

text \<open>Valid signatures of one message aggregate to one that verifies under the signer map.\<close>

lemma aggregate_verifies:
  assumes hom: "bls_homomorphic b" and bv: "wf_bv bv" "Bits bv = Verifier_Size vs"
    and ne: "js \<noteq> []" and js: "js = filter (bv_bit bv) [0..<length (publicKeys vs)]"
    and ver: "\<And>j. j \<in> set js \<Longrightarrow> Verify b vs (sg j) msg (int j) = Some True"
  obtains agg where "AggregateSignatures b (map sg js) = Some agg"
    "VerifyAggregateSignature b vs agg msg (Byte (Some bv)) = Some True"
proof -
  let ?keys = "publicKeys vs"
  have "\<exists>pk s. ?keys ! j = Some pk \<and> sign_of_hex b (sg j) = Some s \<and> verify_byte b s pk msg" if "j \<in> set js" for j
    using ver [OF that] by (auto simp: Verify_True)
  then obtain pk s where ps: "\<And>j. j \<in> set js \<Longrightarrow> ?keys ! j = Some (pk j) \<and> sign_of_hex b (sg j) = Some (s j) \<and> verify_byte b (s j) (pk j) msg"
    by metis
  let ?S = "foldl (add_sign b) (zero_sign b) (map s js)"
  have "list_all2 (\<lambda>x y. sign_of_hex b x = Some y) (map sg js) (map s js)"
    using ps by (auto simp: list_all2_conv_all_nth)
  then have agg: "AggregateSignatures b (map sg js) = Some (sign_to_hex b ?S)"
    by (simp add: AggregateSignatures_def sum_signs_fold)
  have size: "Size (Some bv) = Verifier_Size vs" "nat (Bits bv) = length ?keys"
    using bv(2) by (simp_all add: Size_def Verifier_Size_def)
  have keys: "sum_keys b ?keys (Some bv) 0 (length ?keys) (zero_key b)
      = Some (Some (foldl (add_key b) (zero_key b) (map pk js)))"
    using sum_keys_fold [OF bv(1), of 0 "length ?keys" ?keys pk b] size(2) ps unfolding js by simp
  have "list_all2 (\<lambda>x y. verify_byte b x y msg) (map s js) (map pk js)"
    using ps by (auto simp: list_all2_conv_all_nth)
  then have "verify_byte b ?S (foldl (add_key b) (zero_key b) (map pk js)) msg"
    using fold_verifies_zero [OF hom] ne by simp
  moreover have "sign_of_hex b (sign_to_hex b ?S) = Some ?S" using hom by (simp add: bls_homomorphic_def)
  ultimately have "VerifyAggregateSignature b vs (sign_to_hex b ?S) msg (Byte (Some bv)) = Some True"
    using keys size by (simp add: VerifyAggregateSignature_def NewBitArrayFromByte_Byte [OF bv(1)] Size_def)
  then show ?thesis using that agg by blast
qed

lemma wf_hdp_stored:
  "wf_hdp b marshal h \<Longrightarrow> Some v \<in> set (Votes h) \<Longrightarrow> v_View v = h_View h \<and> v_Round v = h_Round h"
  unfolding wf_hdp_def in_set_conv_nth by metis

lemma getMaj23_unanimous:
  assumes wf: "wf_hdp b marshal h" and hom: "bls_homomorphic b" and none: "AggVote h = None"
    and q: "(2 * VotesNeeded h) sdiv 3 \<le> VotesTotal h"
    and v: "Some v \<in> set (Votes h)"
    and same: "\<forall>w. Some w \<in> set (Votes h) \<longrightarrow> Vote_IsOK w \<and> v_ForHash w = v_ForHash v
        \<and> v_ForNecessaryData w = v_ForNecessaryData v"
  shows "\<exists>agg h'. getMaj23 b h = Some (Inr (agg, h')) \<and> AggVote h' = Some agg \<and> AggregatedVote_IsOK agg
     \<and> VerifyAggregateSignature b (ValidatorSet h) (a_Sign agg) (Vote_SignBytes marshal v) (Byte (a_SignerIndexer agg)) = Some True"
proof -
  let ?n = "length (Votes h)"
  have len: "length (publicKeys (ValidatorSet h)) = ?n" using wf by (simp add: wf_hdp_def)
  have mem: "Some w \<in> set (Votes h) \<longleftrightarrow> (\<exists>j < ?n. Votes h ! j = Some w)" for w by (simp add: in_set_conv_nth)
  have ok: "Vote_IsOK w" if "Votes h ! j = Some w" "j < ?n" for j w using same mem that by auto
  then have pl: "places_of (\<lambda>v. Vote_IsOK v = True) (Votes h) = places_of (\<lambda>_. True) (Votes h)"
    unfolding places_of_def by (intro filter_cong) auto
  obtain bv d where m: "maj_loop True (Votes h) 0 (NewBitVector (Verifier_Size (ValidatorSet h))) [] [] =
      Some (Some bv, map (\<lambda>j. v_Sign (the (Votes h ! j))) (places_of (\<lambda>_. True) (Votes h)), d)"
    and bv: "wf_bv bv" "Bits bv = int ?n" "\<And>j. bv_bit bv j \<longleftrightarrow> j \<in> set (places_of (\<lambda>_. True) (Votes h))"
    using maj_loop_package [OF wf, of True] unfolding pl by blast
  have js: "places_of (\<lambda>_. True) (Votes h) = filter (bv_bit bv) [0..<length (publicKeys (ValidatorSet h))]"
  proof -
    have "filter (bv_bit bv) [0..<?n] = filter (\<lambda>j. \<exists>v. Votes h ! j = Some v \<and> True) [0..<?n]"
      by (rule filter_cong) (simp_all add: bv(3) places_of_def)
    then show ?thesis unfolding len places_of_def by (rule sym)
  qed
  have ne: "places_of (\<lambda>_. True) (Votes h) \<noteq> []" using v mem by (auto simp: places_of_def filter_empty_conv)
  have ver: "Verify b (ValidatorSet h) (v_Sign (the (Votes h ! j))) (Vote_SignBytes marshal v) (int j) = Some True"
    if j: "j \<in> set (places_of (\<lambda>_. True) (Votes h))" for j
  proof -
    obtain w where w: "Votes h ! j = Some w" "j < ?n" using j by (auto simp: places_of_def)
    have sw: "Some w \<in> set (Votes h)" using w mem by blast
    have "v_Code w = v_Code v \<and> v_ForHash w = v_ForHash v \<and> v_ForNecessaryData w = v_ForNecessaryData v"
      using same sw v unfolding Vote_IsOK_def by metis
    moreover have "v_View w = v_View v" "v_Round w = v_Round v"
      using wf_hdp_stored [OF wf sw] wf_hdp_stored [OF wf v] by simp_all
    ultimately have "Vote_SignBytes marshal w = Vote_SignBytes marshal v" by (intro SignBytes_cong) simp_all
    moreover have "Verify b (ValidatorSet h) (v_Sign w) (Vote_SignBytes marshal w) (int j) = Some True"
      using wf w unfolding wf_hdp_def by blast
    ultimately show ?thesis by (simp add: w(1))
  qed
  obtain agg where agg: "AggregateSignatures b (map (\<lambda>j. v_Sign (the (Votes h ! j))) (places_of (\<lambda>_. True) (Votes h))) = Some agg"
    "VerifyAggregateSignature b (ValidatorSet h) agg (Vote_SignBytes marshal v) (Byte (Some bv)) = Some True"
    by (rule aggregate_verifies [OF hom bv(1) _ ne js ver]) (simp_all add: bv(2) len Verifier_Size_def)
  have "\<not> VotesTotal h < (2 * VotesNeeded h) sdiv 3" using q by simp
  then show ?thesis
    using agg(2) unfolding getMaj23_def Let_def none
    by (simp add: q Vote_IsOK_def m agg(1) AggregatedVote_IsOK_def GetAggregated_def)
qed

section \<open>A concrete signature library for instances\<close>

text \<open>
  A signature is the string of the signers' key letters, each followed by the first byte of
  the message; adding is concatenation.
\<close>

definition letter_bls :: "(string, string) bls_lib" where
  "letter_bls = \<lparr>sign_of_hex = Some, sign_to_hex = id, zero_sign = [], add_sign = (@), zero_key = [], add_key = (@),
     verify_byte = (\<lambda>s p m. s = concat (map (\<lambda>k. [k, char_of_byte (case m of [] \<Rightarrow> 0 | x # _ \<Rightarrow> x)]) p))\<rparr>"

definition code_marshal :: "pb_Vote \<Rightarrow> bytes" where
  "code_marshal p = [ucast (pb_Code p)]"

definition four_validators :: "string Verifier" where
  "four_validators = \<lparr>publicKeys = [Some ''a'', Some ''b'', Some ''c'', Some ''d'']\<rparr>"

definition letter_vote :: "int \<Rightarrow> int \<Rightarrow> bytes \<Rightarrow> Vote" where
  "letter_vote code i hash = \<lparr>v_Code = code, v_View = 1, v_Round = 0, v_ForHash = hash, v_ForNecessaryData = [],
     v_Sign = [''abcd'' ! nat i, char_of_byte (word_of_int code)], v_ValidatorIndex = i\<rparr>"

fun add_votes :: "('pk, 'sg) bls_lib \<Rightarrow> (pb_Vote \<Rightarrow> bytes) \<Rightarrow> 'pk HeightDataPackage \<Rightarrow> Vote list \<Rightarrow> 'pk HeightDataPackage option" where
  "add_votes b m h [] = Some h"
| "add_votes b m h (v # vs) = (case addVote b m h v of Some (Inr h') \<Rightarrow> add_votes b m h' vs | _ \<Rightarrow> None)"

definition letter_package :: "bytes \<Rightarrow> Vote list \<Rightarrow> string HeightDataPackage option" where
  "letter_package hash vs = add_votes letter_bls code_marshal
     ((NewHeightDataPackage four_validators [1, 1, 1, 1] 1 0)\<lparr>ProposalHash := hash\<rparr>) vs"

lemma letter_homomorphic: "bls_homomorphic letter_bls"
  by (simp add: bls_homomorphic_def letter_bls_def)

lemma add_votes_wf: "wf_hdp b m h \<Longrightarrow> add_votes b m h vs = Some h' \<Longrightarrow> wf_hdp b m h'"
  by (induction vs arbitrary: h) (auto dest: addVote_wf split: option.splits sum.splits)

lemma letter_package_wf: "letter_package hash vs = Some h \<Longrightarrow> wf_hdp letter_bls code_marshal h"
  unfolding letter_package_def by (rule add_votes_wf) (simp_all add: wf_new_package four_validators_def)

section \<open>Properties\<close>

text \<open>
  C15: in every state reachable by any sequence of the operations, the two counters of the
  current package are exactly the weights of the stored accepting and rejecting votes, the
  signer map marks exactly the stored votes, and every stored vote sits at its validator's
  index, belongs to the current view and round and has a valid signature. So no validator is
  counted twice.
\<close>

theorem reachable_votes:
  assumes "length perVotes = length (publicKeys vs)"
    and "(hs_step b marshal marshalA)\<^sup>*\<^sup>* (NewState view round i vs perVotes) st" and "heightDatas st = Some h"
  shows "VotesTotal h = tally Vote_IsOK (Votes h) (PerVote h)
     \<and> RejectTotal h = tally (\<lambda>v. \<not> Vote_IsOK v) (Votes h) (PerVote h)
     \<and> (\<exists>bv. VotesBitVector h = Some bv \<and> {j. bv_bit bv j \<and> j < length (Votes h)} = {j. j < length (Votes h) \<and> Votes h ! j \<noteq> None})
     \<and> (\<forall>j v. j < length (Votes h) \<and> Votes h ! j = Some v \<longrightarrow>
          v_ValidatorIndex v = int j \<and> v_View v = s_View st \<and> v_Round v = s_Round st
          \<and> Verify b (ValidatorSet h) (v_Sign v) (Vote_SignBytes marshal v) (int j) = Some True)"
proof -
  have "wf_state b marshal st" by (rule reachable_wf [OF assms(2) wf_NewState [OF assms(1)]])
  then show ?thesis using assms(3) by (auto simp: wf_state_def wf_hdp_def)
qed

theorem reachable_votes_witness:
  "\<exists>h. heightDatas (EnterNewView (NewState 0 0 0 four_validators [1, 1, 1, 1])) = Some h
     \<and> VotesTotal h = tally Vote_IsOK (Votes h) (PerVote h)"
proof -
  let ?s = "NewState 0 0 0 four_validators [1, 1, 1, 1]"
  have r: "(hs_step letter_bls code_marshal (\<lambda>_. []))\<^sup>*\<^sup>* ?s (EnterNewView ?s)"
    by (intro r_into_rtranclp step_View)
  have l: "length [1, 1, 1, 1 :: int] = length (publicKeys four_validators)" by (simp add: four_validators_def)
  obtain h where "heightDatas (EnterNewView ?s) = Some h" by (simp add: EnterNewView_def Let_def)
  with reachable_votes [OF l r this] show ?thesis by blast
qed

text \<open>
  C33: what \<open>addVote\<close> does in every case: it never panics on a well-formed package and a vote
  with a non-negative index; a bad signature, a vote for another view, round or hash, and a
  second vote of a validator are refused without a change; any other vote is stored and its
  weight goes to exactly one counter.
\<close>

theorem addVote_spec:
  assumes "wf_hdp b marshal h" and "v_ValidatorIndex v = int i"
  shows "addVote b marshal h v =
     (if Verify b (ValidatorSet h) (v_Sign v) (Vote_SignBytes marshal v) (int i) \<noteq> Some True then Some (Inl ErrInvalidSign)
      else if h_View h \<noteq> v_View v \<or> h_Round h \<noteq> v_Round v \<or> ProposalHash h \<noteq> v_ForHash v
      then Some (Inl ErrInvalidVoteCode)
      else if Votes h ! i \<noteq> None then Some (Inl ErrDuplicatedVote)
      else Some (Inr (h\<lparr>VotesTotal := VotesTotal h + (if Vote_IsOK v then PerVote h ! i else 0),
        RejectTotal := RejectTotal h + (if Vote_IsOK v then 0 else PerVote h ! i),
        Votes := (Votes h)[i := Some v], VotesBitVector := Some (bv_put (the (VotesBitVector h)) i)\<rparr>)))"
  using assms by (rule addVote_cases)

theorem addVote_spec_witness:
  "addVote letter_bls code_marshal (NewHeightDataPackage four_validators [1, 1, 1, 1] 1 0) (letter_vote 1 2 [9])
     = Some (Inl ErrInvalidVoteCode)"
proof -
  let ?h = "NewHeightDataPackage four_validators [1, 1, 1, 1] 1 0"
  have wf: "wf_hdp letter_bls code_marshal ?h" by (rule wf_new_package) (simp add: four_validators_def)
  have i: "v_ValidatorIndex (letter_vote 1 2 [9]) = int 2" by (simp add: letter_vote_def)
  have "Verify letter_bls (ValidatorSet ?h) (v_Sign (letter_vote 1 2 [9]))
      (Vote_SignBytes code_marshal (letter_vote 1 2 [9])) (int 2) = Some True" by code_simp
  moreover have "ProposalHash ?h \<noteq> v_ForHash (letter_vote 1 2 [9])"
    by (simp add: NewHeightDataPackage_def letter_vote_def)
  ultimately show ?thesis unfolding addVote_spec [OF wf i] by simp
qed

text \<open>
  C14: with non-negative weights of total at least 5 a package that has a quorum has exactly one
  of an accepting and a rejecting quorum.
\<close>

theorem quorum_exclusive:
  assumes "wf_hdp b marshal h" and "\<forall>w \<in> set (PerVote h). 0 \<le> w" and "5 \<le> VotesNeeded h"
  shows "isQuorum h \<longleftrightarrow> ((2 * VotesNeeded h) sdiv 3 \<le> VotesTotal h) \<noteq> ((2 * VotesNeeded h) sdiv 3 \<le> RejectTotal h)"
proof -
  have "VotesTotal h + RejectTotal h \<le> VotesNeeded h"
    using tally_bound(1) [of "PerVote h" "Votes h" Vote_IsOK] assms(1,2) by (simp add: wf_hdp_def)
  moreover have "(2 * VotesNeeded h) sdiv 3 = (2 * VotesNeeded h) div 3"
    using assms(3) by (simp add: signed_divide_int_def)
  moreover have "VotesNeeded h < 2 * ((2 * VotesNeeded h) div 3)" using assms(3) by presburger
  ultimately have "\<not> ((2 * VotesNeeded h) sdiv 3 \<le> VotesTotal h \<and> (2 * VotesNeeded h) sdiv 3 \<le> RejectTotal h)" by linarith
  then show ?thesis by (auto simp: isQuorum_def)
qed

theorem quorum_exclusive_witness:
  "isQuorum (NewHeightDataPackage four_validators [2, 2, 2, 2] 1 0) \<longleftrightarrow>
     ((2 * VotesNeeded (NewHeightDataPackage four_validators [2, 2, 2, 2] 1 0)) sdiv 3
        \<le> VotesTotal (NewHeightDataPackage four_validators [2, 2, 2, 2] 1 0))
     \<noteq> ((2 * VotesNeeded (NewHeightDataPackage four_validators [2, 2, 2, 2] 1 0)) sdiv 3
        \<le> RejectTotal (NewHeightDataPackage four_validators [2, 2, 2, 2] 1 0))"
proof (rule quorum_exclusive)
  show "wf_hdp letter_bls code_marshal (NewHeightDataPackage four_validators [2, 2, 2, 2] 1 0)"
    by (rule wf_new_package) (simp add: four_validators_def)
qed (simp_all add: NewHeightDataPackage_def)

text \<open>
  Four validators of equal weight: two votes for one hash and the two other validators'
  votes for another hash both make a quorum of the same view and round, so quorums need not
  intersect. The integer division rounds the two-thirds threshold down.
\<close>

theorem disjoint_quorums:
  "\<exists>h1 h2. letter_package [7] [letter_vote CodeTypeOK 0 [7], letter_vote CodeTypeOK 1 [7]] = Some h1
     \<and> letter_package [9] [letter_vote CodeTypeOK 2 [9], letter_vote CodeTypeOK 3 [9]] = Some h2
     \<and> isQuorum h1 \<and> isQuorum h2 \<and> (2 * VotesNeeded h1) sdiv 3 = 2 \<and> VotesTotal h1 = 2 \<and> VotesTotal h2 = 2"
proof -
  have "(case letter_package [7] [letter_vote CodeTypeOK 0 [7], letter_vote CodeTypeOK 1 [7]] of None \<Rightarrow> False
      | Some h1 \<Rightarrow> isQuorum h1 \<and> (2 * VotesNeeded h1) sdiv 3 = 2 \<and> VotesTotal h1 = 2)" by code_simp
  moreover have "(case letter_package [9] [letter_vote CodeTypeOK 2 [9], letter_vote CodeTypeOK 3 [9]] of None \<Rightarrow> False
      | Some h2 \<Rightarrow> isQuorum h2 \<and> VotesTotal h2 = 2)" by code_simp
  ultimately show ?thesis by (auto split: option.splits)
qed

text \<open>
  C16: when every stored vote accepts the same hash and data and the threshold is met, the
  aggregated vote exists, is cached, accepts, and its signature verifies on the message the
  voters signed under its signer map. The curve library obeys the aggregation law.
\<close>

theorem unanimous_certificate:
  assumes "wf_hdp b marshal h" and "bls_homomorphic b" and "AggVote h = None"
    and "(2 * VotesNeeded h) sdiv 3 \<le> VotesTotal h" and "Some v \<in> set (Votes h)"
    and "\<forall>w. Some w \<in> set (Votes h) \<longrightarrow> Vote_IsOK w \<and> v_ForHash w = v_ForHash v
        \<and> v_ForNecessaryData w = v_ForNecessaryData v"
  shows "\<exists>agg h'. getMaj23 b h = Some (Inr (agg, h')) \<and> AggVote h' = Some agg \<and> AggregatedVote_IsOK agg
     \<and> VerifyAggregateSignature b (ValidatorSet h) (a_Sign agg) (Vote_SignBytes marshal v) (Byte (a_SignerIndexer agg)) = Some True"
  using assms by (rule getMaj23_unanimous)

theorem unanimous_certificate_witness:
  "\<exists>h. letter_package [7] [letter_vote CodeTypeOK 0 [7], letter_vote CodeTypeOK 1 [7]] = Some h
     \<and> (\<exists>agg h'. getMaj23 letter_bls h = Some (Inr (agg, h')) \<and> AggVote h' = Some agg \<and> AggregatedVote_IsOK agg
     \<and> VerifyAggregateSignature letter_bls (ValidatorSet h) (a_Sign agg)
         (Vote_SignBytes code_marshal (letter_vote CodeTypeOK 0 [7])) (Byte (a_SignerIndexer agg)) = Some True)"
proof -
  let ?vs = "[letter_vote CodeTypeOK 0 [7], letter_vote CodeTypeOK 1 [7]]"
  have "(case letter_package [7] ?vs of None \<Rightarrow> False
      | Some h \<Rightarrow> AggVote h = None \<and> (2 * VotesNeeded h) sdiv 3 \<le> VotesTotal h
          \<and> Votes h = map Some ?vs @ [None, None])" by code_simp
  then obtain h where h: "letter_package [7] ?vs = Some h" "AggVote h = None"
    "(2 * VotesNeeded h) sdiv 3 \<le> VotesTotal h" "Votes h = map Some ?vs @ [None, None]"
    by (auto split: option.splits)
  have "\<exists>agg h'. getMaj23 letter_bls h = Some (Inr (agg, h')) \<and> AggVote h' = Some agg \<and> AggregatedVote_IsOK agg
     \<and> VerifyAggregateSignature letter_bls (ValidatorSet h) (a_Sign agg)
         (Vote_SignBytes code_marshal (letter_vote CodeTypeOK 0 [7])) (Byte (a_SignerIndexer agg)) = Some True"
    by (rule unanimous_certificate [OF letter_package_wf [OF h(1)] letter_homomorphic h(2,3)])
      (auto simp: h(4) letter_vote_def Vote_IsOK_def)
  with h(1) show ?thesis by blast
qed


end
