(* ===== verification/Block_Data.thy ===== *)
theory Block_Data
  imports Hot_Stuff Merkle_Proof "HOL-Library.AList"
begin

text \<open>
  The data of a block, \<open>src/source/urd/types\<close>: transaction lists and their proofs (\<open>txs.go\<close>), the
  commit intention and commit certificate (\<open>commit_intention.go\<close>, \<open>commit_certificate.go\<close>), the
  message between shards (\<open>cross_shard_data.go\<close>), the block (\<open>block.go\<close>) and execution receipts
  (\<open>abci_response.go\<close>). The encoders of votes and time stamps are arguments, the messages of the
  protobuf schema are records. The cached hashes are fields of the state, as in the code.
\<close>

section \<open>Conversions\<close>

text \<open>A time stamp: seconds and nanoseconds.\<close>

type_synonym timestamp = "int \<times> int"

datatype go_any =
    AnyInt int | AnyInt32 int | AnyInt64 int | AnyString string | AnyByte byte | AnyBytes bytes
  | AnyTime timestamp | AnyOther

record block_codec =
  enc_agg :: "pb_AggregatedVote \<Rightarrow> bytes"
  enc_time :: "timestamp \<Rightarrow> bytes"

text \<open>\<open>IntToBytes\<close> has no case for \<open>int\<close> and returns nil for it; \<open>None\<close> is the panic.\<close>

definition mustBytes :: "block_codec \<Rightarrow> go_any \<Rightarrow> bytes option option" where
  "mustBytes c s = (case s of
      AnyInt _ \<Rightarrow> Some (IntToBytes OtherNum)
    | AnyInt32 v \<Rightarrow> Some (IntToBytes (Int32 (word_of_int v)))
    | AnyInt64 v \<Rightarrow> Some (IntToBytes (Int64 (word_of_int v)))
    | AnyString v \<Rightarrow> Some (Some (bytes_of_string v))
    | AnyByte v \<Rightarrow> Some (Some [v])
    | AnyBytes v \<Rightarrow> Some (Some v)
    | AnyTime t \<Rightarrow> Some (Some (enc_time c t))
    | AnyOther \<Rightarrow> None)"

text \<open>A loop over a list that may panic at each element.\<close>

fun map_or_panic :: "('a \<Rightarrow> 'b option) \<Rightarrow> 'a list \<Rightarrow> 'b list option" where
  "map_or_panic f [] = Some []"
| "map_or_panic f (x # xs) = do { y \<leftarrow> f x; ys \<leftarrow> map_or_panic f xs; Some (y # ys) }"

section \<open>Transaction lists\<close>

text \<open>\<open>None\<close> is the nil list.\<close>

type_synonym Txs = "bytes list option"

definition txs_list :: "Txs \<Rightarrow> bytes list" where
  "txs_list ptxs = (case ptxs of None \<Rightarrow> [] | Some txs \<Rightarrow> txs)"

definition Txs_Hash :: "hash_fn \<Rightarrow> Txs \<Rightarrow> bytes" where
  "Txs_Hash H ptxs = HashFromByteSlices H (txs_list ptxs)"

definition Txs_Index :: "Txs \<Rightarrow> int \<Rightarrow> bytes option" where
  "Txs_Index ptxs i = index (txs_list ptxs) i"

definition Txs_Size :: "Txs \<Rightarrow> int" where
  "Txs_Size ptxs = int (length (txs_list ptxs))"

record pb_Txs =
  pb_txs :: "bytes list option"

definition Txs_ToProto :: "Txs \<Rightarrow> pb_Txs" where
  "Txs_ToProto ptxs = \<lparr>pb_txs = ptxs\<rparr>"

definition NewTxsFromProto :: "pb_Txs option \<Rightarrow> Txs" where
  "NewTxsFromProto pro = (case pro of None \<Rightarrow> Some [] | Some p \<Rightarrow> pb_txs p)"

text \<open>The pointers to proofs may be nil; using a nil proof panics.\<close>

record OutputTxsProof =
  BlockProof :: "Proof option"
  OPTProof :: "Proof option"

datatype block_error =
    OPTProofFailed proof_error | BlockProofFailed proof_error | IntentionProofFailed proof_error
  | CountMismatch | IntentionMismatch | CertificateMismatch | CertificateFailed nat block_error

definition OutputTxsProof_Verify :: "hash_fn \<Rightarrow> OutputTxsProof option \<Rightarrow> bytes \<Rightarrow> Txs \<Rightarrow> (block_error + unit) option" where
  "OutputTxsProof_Verify H optp root output_txs = (case optp of
      None \<Rightarrow> Some (Inr ())
    | Some p \<Rightarrow> (case OPTProof p of
        None \<Rightarrow> None
      | Some opt \<Rightarrow>
          (let opt_root = slice_bytes (ComputeRootHash H opt); opthash = Txs_Hash H output_txs
           in case Proof_Verify H opt opt_root opthash of
                Inl e \<Rightarrow> Some (Inl (OPTProofFailed e))
              | Inr _ \<Rightarrow> (case BlockProof p of
                    None \<Rightarrow> None
                  | Some bp \<Rightarrow> (case Proof_Verify H bp root opt_root of
                        Inl e \<Rightarrow> Some (Inl (BlockProofFailed e))
                      | Inr _ \<Rightarrow> Some (Inr ()))))))"

definition OutputTxsProof_Hash :: "hash_fn \<Rightarrow> OutputTxsProof option \<Rightarrow> bytes option" where
  "OutputTxsProof_Hash H optp = (case optp of
      None \<Rightarrow> None
    | Some p \<Rightarrow> (case (BlockProof p, OPTProof p) of
        (Some b, Some o') \<Rightarrow> Some (HashFromByteSlices H [Proof_ContentHash H b, Proof_ContentHash H o'])
      | _ \<Rightarrow> None))"

text \<open>The conversions of a proof copy its fields and panic on nil.\<close>

record pb_Proof =
  pb_Total :: int
  pb_Index :: int
  pb_LeafHash :: "bytes option"
  pb_Aunts :: "bytes list"

definition Proof_ToProto :: "Proof option \<Rightarrow> pb_Proof option" where
  "Proof_ToProto p = map_option (\<lambda>p. \<lparr>pb_Total = Total p, pb_Index = Index p, pb_LeafHash = LeafHash p, pb_Aunts = Aunts p\<rparr>) p"

definition NewProofFromProto :: "pb_Proof option \<Rightarrow> Proof option" where
  "NewProofFromProto proto = map_option (\<lambda>p. \<lparr>Total = pb_Total p, Index = pb_Index p, LeafHash = pb_LeafHash p, Aunts = pb_Aunts p\<rparr>) proto"

record pb_OutputTxsProof =
  pb_BlockProof :: "pb_Proof option"
  pb_OPTProof :: "pb_Proof option"

text \<open>The outer option is a panic, the inner one a nil pointer.\<close>

definition OutputTxsProof_ToProto :: "OutputTxsProof option \<Rightarrow> pb_OutputTxsProof option option" where
  "OutputTxsProof_ToProto optp = (case optp of
      None \<Rightarrow> Some None
    | Some p \<Rightarrow> do {
        b \<leftarrow> Proof_ToProto (BlockProof p);
        o' \<leftarrow> Proof_ToProto (OPTProof p);
        Some (Some \<lparr>pb_BlockProof = Some b, pb_OPTProof = Some o'\<rparr>) })"

definition NewOutputTxsProofFromProto :: "pb_OutputTxsProof option \<Rightarrow> OutputTxsProof option option" where
  "NewOutputTxsProofFromProto pro = (case pro of
      None \<Rightarrow> Some None
    | Some p \<Rightarrow> do {
        b \<leftarrow> NewProofFromProto (pb_BlockProof p);
        o' \<leftarrow> NewProofFromProto (pb_OPTProof p);
        Some (Some \<lparr>BlockProof = Some b, OPTProof = Some o'\<rparr>) })"

section \<open>Commit intention\<close>

definition IntentionBrief_Hash :: "hash_fn \<Rightarrow> bytes list \<Rightarrow> bytes" where
  "IntentionBrief_Hash H ib = HashFromByteSlices H ib"

record CommitIntention =
  IntentionHash :: "bytes list"
  AggregatedSignatures :: "AggregatedVote list"
  rightHash :: bytes
  leftHash :: bytes

record pb_CommitIntention =
  pb_IntentionHash :: "bytes list"
  pb_AggregatedSignatures :: "pb_AggregatedVote list"

definition CommitIntention_ToProto :: "CommitIntention option \<Rightarrow> pb_CommitIntention option" where
  "CommitIntention_ToProto ci = map_option (\<lambda>ci. \<lparr>pb_IntentionHash = IntentionHash ci,
     pb_AggregatedSignatures = map AggregatedVote_ToProto (AggregatedSignatures ci)\<rparr>) ci"

text \<open>Decoding a vote panics when its signer map does.\<close>

definition votes_from_proto :: "pb_AggregatedVote list \<Rightarrow> AggregatedVote list option" where
  "votes_from_proto ps = map_or_panic NewAggregatedVoteFromProto ps"

definition NewCommitIntentionFromProto :: "pb_CommitIntention option \<Rightarrow> CommitIntention option option" where
  "NewCommitIntentionFromProto pci = (case pci of
      None \<Rightarrow> Some None
    | Some p \<Rightarrow> map_option (\<lambda>vs. Some \<lparr>IntentionHash = pb_IntentionHash p, AggregatedSignatures = vs,
          rightHash = [], leftHash = []\<rparr>) (votes_from_proto (pb_AggregatedSignatures p)))"

definition AggregatedVote_Hash :: "block_codec \<Rightarrow> hash_fn \<Rightarrow> AggregatedVote \<Rightarrow> bytes" where
  "AggregatedVote_Hash c H v = HashFromByteSlices H [enc_agg c (AggregatedVote_ToProto v)]"

definition LeftHash :: "hash_fn \<Rightarrow> CommitIntention \<Rightarrow> CommitIntention \<times> bytes" where
  "LeftHash H ci = (let ci' = (if length (leftHash ci) = 0 then ci\<lparr>leftHash := IntentionBrief_Hash H (IntentionHash ci)\<rparr> else ci)
     in (ci', leftHash ci'))"

definition RrightHash :: "block_codec \<Rightarrow> hash_fn \<Rightarrow> CommitIntention \<Rightarrow> CommitIntention \<times> bytes" where
  "RrightHash c H ci = (let ci' = (if length (rightHash ci) = 0
        then ci\<lparr>rightHash := HashFromByteSlices H (map (AggregatedVote_Hash c H) (AggregatedSignatures ci))\<rparr> else ci)
     in (ci', rightHash ci'))"

definition CommitIntention_Hash :: "block_codec \<Rightarrow> hash_fn \<Rightarrow> CommitIntention \<Rightarrow> CommitIntention \<times> bytes" where
  "CommitIntention_Hash c H ci = (let (ci1, l) = LeftHash H ci; (ci2, r) = RrightHash c H ci1
     in (ci2, HashFromByteSlices H [l, r]))"

definition GetBrief :: "CommitIntention \<Rightarrow> bytes list" where
  "GetBrief ci = IntentionHash ci"

record ProofOfIntention =
  IntentionHashProof :: "Proof option"
  RightHash :: bytes

definition ProofOfIntention_Verify :: "hash_fn \<Rightarrow> ProofOfIntention option \<Rightarrow> bytes \<Rightarrow> bytes \<Rightarrow> (block_error + unit) option" where
  "ProofOfIntention_Verify H poi root left = (case poi of
      None \<Rightarrow> Some (Inr ())
    | Some p \<Rightarrow> (case IntentionHashProof p of
        None \<Rightarrow> None
      | Some sp \<Rightarrow> (case Proof_Verify H sp root (HashFromByteSlices H [left, RightHash p]) of
            Inl e \<Rightarrow> Some (Inl (IntentionProofFailed e))
          | Inr _ \<Rightarrow> Some (Inr ()))))"

definition ProofOfIntention_Hash :: "hash_fn \<Rightarrow> ProofOfIntention \<Rightarrow> bytes option" where
  "ProofOfIntention_Hash H poi = map_option
     (\<lambda>sp. HashFromByteSlices H [Proof_ContentHash H sp, RightHash poi]) (IntentionHashProof poi)"

record pb_ProofOfIntention =
  pb_IntentionHashProof :: "pb_Proof option"
  pb_RightHash :: bytes

definition ProofOfIntention_ToProto :: "ProofOfIntention option \<Rightarrow> pb_ProofOfIntention option option" where
  "ProofOfIntention_ToProto poi = (case poi of
      None \<Rightarrow> Some None
    | Some p \<Rightarrow> map_option (\<lambda>sp. Some \<lparr>pb_IntentionHashProof = Some sp, pb_RightHash = RightHash p\<rparr>)
        (Proof_ToProto (IntentionHashProof p)))"

definition NewProofOfIntentionFromProto :: "pb_ProofOfIntention option \<Rightarrow> ProofOfIntention option option" where
  "NewProofOfIntentionFromProto ppoi = (case ppoi of
      None \<Rightarrow> Some None
    | Some p \<Rightarrow> map_option (\<lambda>sp. Some \<lparr>IntentionHashProof = Some sp, RightHash = pb_RightHash p\<rparr>)
        (NewProofFromProto (pb_IntentionHashProof p)))"

section \<open>Commit certificate\<close>

record CommitCertificateCore =
  core_Hash :: bytes
  MKProof :: ProofOfIntention
  IntentionBrief :: "bytes list"

record pb_CommitCertificateCore =
  pb_core_Hash :: bytes
  pb_MKProof :: "pb_ProofOfIntention option"
  pb_IntentionBrief :: "bytes list"

definition Core_ToProto :: "CommitCertificateCore \<Rightarrow> pb_CommitCertificateCore option" where
  "Core_ToProto core = map_option (\<lambda>poi. \<lparr>pb_core_Hash = core_Hash core, pb_MKProof = poi, pb_IntentionBrief = IntentionBrief core\<rparr>)
     (ProofOfIntention_ToProto (Some (MKProof core)))"

text \<open>The proof is dereferenced: a core without one panics.\<close>

definition NewCommitCertificateCoreFromProto :: "pb_CommitCertificateCore \<Rightarrow> CommitCertificateCore option" where
  "NewCommitCertificateCoreFromProto pcore = do {
     poi \<leftarrow> NewProofOfIntentionFromProto (pb_MKProof pcore);
     mk \<leftarrow> poi;
     Some \<lparr>core_Hash = pb_core_Hash pcore, MKProof = mk, IntentionBrief = pb_IntentionBrief pcore\<rparr> }"

definition Core_Verify :: "hash_fn \<Rightarrow> CommitCertificateCore \<Rightarrow> (block_error + unit) option" where
  "Core_Verify H core = ProofOfIntention_Verify H (Some (MKProof core)) (core_Hash core) (IntentionBrief_Hash H (IntentionBrief core))"

definition CommitCertificate_ToProto :: "CommitCertificateCore list \<Rightarrow> pb_CommitCertificateCore list option" where
  "CommitCertificate_ToProto cc = map_or_panic Core_ToProto cc"

definition NewCommitCertificateFromProto :: "pb_CommitCertificateCore list \<Rightarrow> CommitCertificateCore list option" where
  "NewCommitCertificateFromProto pcc = map_or_panic NewCommitCertificateCoreFromProto pcc"

fun verify_cores :: "hash_fn \<Rightarrow> nat \<Rightarrow> CommitCertificateCore list \<Rightarrow> (block_error + unit) option" where
  "verify_cores H i [] = Some (Inr ())"
| "verify_cores H i (core # cores) = (case Core_Verify H core of
      None \<Rightarrow> None
    | Some (Inl e) \<Rightarrow> Some (Inl (CertificateFailed i e))
    | Some (Inr _) \<Rightarrow> verify_cores H (Suc i) cores)"

definition CommitCertificate_Verify :: "hash_fn \<Rightarrow> CommitCertificateCore list \<Rightarrow> (block_error + unit) option" where
  "CommitCertificate_Verify H cc = verify_cores H 0 cc"

definition CommitCertificate_Hash :: "hash_fn \<Rightarrow> CommitCertificateCore list \<Rightarrow> bytes option" where
  "CommitCertificate_Hash H cc = map_option (HashFromByteSlices H) (map_or_panic (\<lambda>core.
     map_option (\<lambda>p. HashFromByteSlices H [core_Hash core, IntentionBrief_Hash H (IntentionBrief core), p])
       (ProofOfIntention_Hash H (MKProof core))) cc)"

text \<open>The loop over one brief; the results and error flags are indexed without a length check.\<close>

fun result_brief :: "nat \<Rightarrow> bytes list \<Rightarrow> bytes list \<times> bool list \<Rightarrow> (bytes list \<times> bool list) option" where
  "result_brief i [] (results, errs) = Some (results, errs)"
| "result_brief i (bz # brief) (results, errs) =
     (if i \<ge> length results then None
      else if results ! i = bz \<or> length bz = 0 then result_brief (Suc i) brief (results, errs)
      else if length (results ! i) > 0 then result_brief (Suc i) brief (results, errs[i := True])
      else result_brief (Suc i) brief (results[i := bz], errs))"

fun result_cores :: "CommitCertificateCore list \<Rightarrow> bytes list \<times> bool list \<Rightarrow> (bytes list \<times> bool list) option" where
  "result_cores [] acc = Some acc"
| "result_cores (core # cores) acc = Option.bind (result_brief 0 (IntentionBrief core) acc) (result_cores cores)"

definition Result :: "CommitCertificateCore list \<Rightarrow> (bytes list \<times> bool list) option" where
  "Result cc = (if length cc = 0 then Some ([], [])
     else result_cores cc (replicate (length cc) [], replicate (length cc) False))"

section \<open>Messages between shards\<close>

definition GetLastHashOfAggVote :: "AggregatedVote \<Rightarrow> bytes" where
  "GetLastHashOfAggVote v = (if length (a_ForNecessaryData v) < 1 then [] else a_ForNecessaryData v ! 0)"

definition SetLastHashOfAggVote :: "AggregatedVote \<Rightarrow> bytes \<Rightarrow> AggregatedVote" where
  "SetLastHashOfAggVote v h = (if length (a_ForNecessaryData v) < 1 then v\<lparr>a_ForNecessaryData := [h]\<rparr>
     else v\<lparr>a_ForNecessaryData := (a_ForNecessaryData v)[0 := h]\<rparr>)"

definition GetLastHashOfVote :: "Vote \<Rightarrow> bytes" where
  "GetLastHashOfVote v = (if length (v_ForNecessaryData v) < 1 then [] else v_ForNecessaryData v ! 0)"

definition SetLastHashOfVote :: "Vote \<Rightarrow> bytes \<Rightarrow> Vote" where
  "SetLastHashOfVote v h = (if length (v_ForNecessaryData v) < 1 then v\<lparr>v_ForNecessaryData := [h]\<rparr>
     else v\<lparr>v_ForNecessaryData := (v_ForNecessaryData v)[0 := h]\<rparr>)"

record CrossShardMessage =
  SourceChain :: string
  csm_AggVote :: "AggregatedVote option"
  csm_IntentionBrief :: "bytes list"
  csm_ProofOfIntention :: "ProofOfIntention option"
  OPTXs :: Txs
  csm_OutputTxsProof :: "OutputTxsProof option"

definition GetLastHash :: "CrossShardMessage \<Rightarrow> bytes option" where
  "GetLastHash csm = map_option GetLastHashOfAggVote (csm_AggVote csm)"

definition SetLastHash :: "CrossShardMessage \<Rightarrow> bytes \<Rightarrow> CrossShardMessage option" where
  "SetLastHash csm h = map_option (\<lambda>v. csm\<lparr>csm_AggVote := Some (SetLastHashOfAggVote v h)\<rparr>) (csm_AggVote csm)"

definition CrossShardMessage_ValidateBasic :: "hash_fn \<Rightarrow> CrossShardMessage \<Rightarrow> (block_error + unit) option" where
  "CrossShardMessage_ValidateBasic H csm = (case GetLastHash csm of
      None \<Rightarrow> None
    | Some lh \<Rightarrow>
        (case ProofOfIntention_Verify H (csm_ProofOfIntention csm) lh (IntentionBrief_Hash H (csm_IntentionBrief csm)) of
           None \<Rightarrow> None
         | Some (Inl e) \<Rightarrow> Some (Inl e)
         | Some (Inr _) \<Rightarrow> OutputTxsProof_Verify H (csm_OutputTxsProof csm) lh (OPTXs csm)))"

record pb_CrossShardMessage =
  pb_SourceChain :: string
  pb_AggVote :: "pb_AggregatedVote option"
  pb_csm_IntentionBrief :: "bytes list"
  pb_ProofOfIntention :: "pb_ProofOfIntention option"
  pb_OPTTxs :: "pb_Txs option"
  pb_OutputTxsProof :: "pb_OutputTxsProof option"

definition agg_from_proto :: "pb_AggregatedVote option \<Rightarrow> AggregatedVote option option" where
  "agg_from_proto p = (case p of None \<Rightarrow> Some None | Some v \<Rightarrow> map_option Some (NewAggregatedVoteFromProto v))"

definition CrossShardMessage_ToProto :: "CrossShardMessage \<Rightarrow> pb_CrossShardMessage option" where
  "CrossShardMessage_ToProto csm = do {
     poi \<leftarrow> ProofOfIntention_ToProto (csm_ProofOfIntention csm);
     otp \<leftarrow> OutputTxsProof_ToProto (csm_OutputTxsProof csm);
     Some \<lparr>pb_SourceChain = SourceChain csm, pb_AggVote = map_option AggregatedVote_ToProto (csm_AggVote csm),
       pb_csm_IntentionBrief = csm_IntentionBrief csm, pb_ProofOfIntention = poi,
       pb_OPTTxs = Some (Txs_ToProto (OPTXs csm)), pb_OutputTxsProof = otp\<rparr> }"

definition NewCrossShardMessageFromProto :: "pb_CrossShardMessage \<Rightarrow> CrossShardMessage option" where
  "NewCrossShardMessageFromProto pb = do {
     v \<leftarrow> agg_from_proto (pb_AggVote pb);
     poi \<leftarrow> NewProofOfIntentionFromProto (pb_ProofOfIntention pb);
     otp \<leftarrow> NewOutputTxsProofFromProto (pb_OutputTxsProof pb);
     Some \<lparr>SourceChain = pb_SourceChain pb, csm_AggVote = v, csm_IntentionBrief = pb_csm_IntentionBrief pb,
       csm_ProofOfIntention = poi, OPTXs = NewTxsFromProto (pb_OPTTxs pb), csm_OutputTxsProof = otp\<rparr> }"

section \<open>Blocks\<close>

record Header =
  HashPointer :: bytes
  h_ChainID :: string
  h_View :: int
  h_Round :: int
  h_Time :: timestamp
  PrepareRoot :: bytes
  CrossShardRoot :: bytes
  OutputTxsRoot :: bytes
  LastAggSigRoot :: bytes
  CommitIntentionRoot :: bytes
  CommitCertificateRoot :: bytes
  CommitTxsListRoot :: bytes
  StateRoot :: bytes
  h_hash :: bytes
  mkproof :: "Proof list"

record Block =
  Header_of :: Header
  PTXS :: Txs
  CrossShardTxs :: Txs
  OPT :: "bytes list"
  AggSigVote :: "AggregatedVote option"
  CI :: "CommitIntention option"
  CC :: "CommitCertificateCore list"
  CTXS :: "Txs list"
  CTXSProof :: "OutputTxsProof option list"

definition upd_header :: "(Header \<Rightarrow> Header) \<Rightarrow> Block \<Rightarrow> Block" where
  "upd_header f b = b\<lparr>Header_of := f (Header_of b)\<rparr>"

text \<open>The steps of \<open>fillInHeader\<close>: a root is computed only when the header has none yet.\<close>

definition fill_prepare :: "hash_fn \<Rightarrow> Block \<Rightarrow> Block" where
  "fill_prepare H b = (if length (PrepareRoot (Header_of b)) = 0 \<and> PTXS b \<noteq> None
     then upd_header (\<lambda>h. h\<lparr>PrepareRoot := Txs_Hash H (PTXS b)\<rparr>) b else b)"

definition fill_cross :: "hash_fn \<Rightarrow> Block \<Rightarrow> Block" where
  "fill_cross H b = (if length (CrossShardRoot (Header_of b)) = 0 \<and> CrossShardTxs b \<noteq> None
     then upd_header (\<lambda>h. h\<lparr>CrossShardRoot := Txs_Hash H (CrossShardTxs b)\<rparr>) b else b)"

definition fill_output :: "hash_fn \<Rightarrow> Block \<Rightarrow> Block" where
  "fill_output H b = (if length (OutputTxsRoot (Header_of b)) = 0
     then upd_header (\<lambda>h. h\<lparr>OutputTxsRoot := HashFromByteSlices H (OPT b)\<rparr>) b else b)"

definition fill_agg :: "block_codec \<Rightarrow> hash_fn \<Rightarrow> Block \<Rightarrow> Block" where
  "fill_agg c H b = (if length (LastAggSigRoot (Header_of b)) = 0
     then (case AggSigVote b of None \<Rightarrow> b
           | Some v \<Rightarrow> upd_header (\<lambda>h. h\<lparr>LastAggSigRoot := AggregatedVote_Hash c H v\<rparr>) b) else b)"

definition fill_ci :: "block_codec \<Rightarrow> hash_fn \<Rightarrow> Block \<Rightarrow> Block" where
  "fill_ci c H b = (case CI b of
      None \<Rightarrow> b
    | Some ci \<Rightarrow>
        if length (CommitIntentionRoot (Header_of b)) = 0
        then (let (ci', h) = CommitIntention_Hash c H ci
              in upd_header (\<lambda>hd. hd\<lparr>CommitIntentionRoot := h\<rparr>) (b\<lparr>CI := Some ci'\<rparr>))
        else b)"

definition fill_cc :: "hash_fn \<Rightarrow> Block \<Rightarrow> Block option" where
  "fill_cc H b = (if length (CommitCertificateRoot (Header_of b)) = 0
     then map_option (\<lambda>r. upd_header (\<lambda>h. h\<lparr>CommitCertificateRoot := r\<rparr>) b) (CommitCertificate_Hash H (CC b))
     else Some b)"

definition fill_ctxs :: "hash_fn \<Rightarrow> Block \<Rightarrow> Block option" where
  "fill_ctxs H b = (if length (CommitTxsListRoot (Header_of b)) = 0
     then map_option (\<lambda>proofs. upd_header (\<lambda>h. h\<lparr>CommitTxsListRoot := HashFromByteSlices H
           [HashFromByteSlices H (map (Txs_Hash H) (CTXS b)), HashFromByteSlices H proofs]\<rparr>) b)
         (map_or_panic (OutputTxsProof_Hash H) (CTXSProof b))
     else Some b)"

definition fillInHeader :: "block_codec \<Rightarrow> hash_fn \<Rightarrow> Block \<Rightarrow> Block option" where
  "fillInHeader c H b =
     Option.bind (fill_cc H (fill_ci c H (fill_agg c H (fill_output H (fill_cross H (fill_prepare H b)))))) (fill_ctxs H)"

definition packageHash :: "block_codec \<Rightarrow> hash_fn \<Rightarrow> Header \<Rightarrow> bytes option" where
  "packageHash c H h = do {
     a1 \<leftarrow> mustBytes c (AnyString (h_ChainID h));
     a2 \<leftarrow> mustBytes c (AnyInt64 (h_View h));
     a3 \<leftarrow> mustBytes c (AnyInt32 (h_Round h));
     a4 \<leftarrow> mustBytes c (AnyTime (h_Time h));
     Some (HashFromByteSlices H [slice_bytes a1, slice_bytes a2, slice_bytes a3, slice_bytes a4,
       LastAggSigRoot h, CommitCertificateRoot h]) }"

definition header_items :: "bytes \<Rightarrow> Header \<Rightarrow> bytes list" where
  "header_items pkg h = [pkg, HashPointer h, PrepareRoot h, OutputTxsRoot h, CommitIntentionRoot h, CommitTxsListRoot h, StateRoot h]"

definition calBlockHashAndProof :: "block_codec \<Rightarrow> hash_fn \<Rightarrow> Block \<Rightarrow> Block option" where
  "calBlockHashAndProof c H b = do {
     b' \<leftarrow> fillInHeader c H b;
     pkg \<leftarrow> packageHash c H (Header_of b');
     (root, proofs) \<leftarrow> ProofsFromByteSlices H (header_items pkg (Header_of b'));
     Some (upd_header (\<lambda>h. h\<lparr>h_hash := root, mkproof := proofs\<rparr>) b') }"

text \<open>The hash of a nil block is nil.\<close>

definition Block_Hash :: "block_codec \<Rightarrow> hash_fn \<Rightarrow> Block option \<Rightarrow> (Block option \<times> bytes) option" where
  "Block_Hash c H b = (case b of
      None \<Rightarrow> Some (None, [])
    | Some b \<Rightarrow>
        if length (h_hash (Header_of b)) = 0
        then map_option (\<lambda>b'. (Some b', h_hash (Header_of b'))) (calBlockHashAndProof c H b)
        else Some (Some b, h_hash (Header_of b)))"

definition ProofOfIndex :: "block_codec \<Rightarrow> hash_fn \<Rightarrow> Block \<Rightarrow> int \<Rightarrow> (Block \<times> Proof option) option" where
  "ProofOfIndex c H b i = do {
     b' \<leftarrow> (if length (mkproof (Header_of b)) = 0 then calBlockHashAndProof c H b else Some b);
     Some (b', index (mkproof (Header_of b')) i) }"

definition GetHeaderProof :: "block_codec \<Rightarrow> hash_fn \<Rightarrow> Block \<Rightarrow> (Block \<times> Proof option) option" where
  "GetHeaderProof c H b = ProofOfIndex c H b 1"
definition GetOutputTxsProof :: "block_codec \<Rightarrow> hash_fn \<Rightarrow> Block \<Rightarrow> (Block \<times> Proof option) option" where
  "GetOutputTxsProof c H b = ProofOfIndex c H b 3"
definition GetCommitIntentionProof :: "block_codec \<Rightarrow> hash_fn \<Rightarrow> Block \<Rightarrow> (Block \<times> Proof option) option" where
  "GetCommitIntentionProof c H b = ProofOfIndex c H b 4"

definition GetOutputTxsProofOf :: "block_codec \<Rightarrow> hash_fn \<Rightarrow> Block \<Rightarrow> int \<Rightarrow> (Block \<times> OutputTxsProof) option" where
  "GetOutputTxsProofOf c H b i = do {
     (b', bp) \<leftarrow> GetOutputTxsProof c H b;
     (_, proofs) \<leftarrow> ProofsFromByteSlices H (OPT b');
     p \<leftarrow> index proofs i;
     Some (b', \<lparr>BlockProof = bp, OPTProof = Some p\<rparr>) }"

subsection \<open>Conversion to messages and back\<close>

record pb_Header =
  pb_HashPointer :: bytes
  pb_ChainID :: string
  pb_h_View :: int
  pb_h_Round :: int
  pb_Time :: timestamp
  pb_PrepareRoot :: bytes
  pb_OutputTxsRoot :: bytes
  pb_LastAggSigRoot :: bytes
  pb_CommitIntentionRoot :: bytes
  pb_CommitCertificateRoot :: bytes
  pb_CommitTxsRoot :: bytes
  pb_StateRoot :: bytes

definition Header_ToProto :: "Header \<Rightarrow> pb_Header" where
  "Header_ToProto h = \<lparr>pb_HashPointer = HashPointer h, pb_ChainID = h_ChainID h, pb_h_View = h_View h, pb_h_Round = h_Round h,
     pb_Time = h_Time h, pb_PrepareRoot = PrepareRoot h, pb_OutputTxsRoot = OutputTxsRoot h, pb_LastAggSigRoot = LastAggSigRoot h,
     pb_CommitIntentionRoot = CommitIntentionRoot h, pb_CommitCertificateRoot = CommitCertificateRoot h,
     pb_CommitTxsRoot = CommitTxsListRoot h, pb_StateRoot = StateRoot h\<rparr>"

definition NewHeaderFromProto :: "pb_Header \<Rightarrow> Header" where
  "NewHeaderFromProto p = \<lparr>HashPointer = pb_HashPointer p, h_ChainID = pb_ChainID p, h_View = pb_h_View p, h_Round = pb_h_Round p,
     h_Time = pb_Time p, PrepareRoot = pb_PrepareRoot p, CrossShardRoot = [], OutputTxsRoot = pb_OutputTxsRoot p,
     LastAggSigRoot = pb_LastAggSigRoot p, CommitIntentionRoot = pb_CommitIntentionRoot p,
     CommitCertificateRoot = pb_CommitCertificateRoot p, CommitTxsListRoot = pb_CommitTxsRoot p, StateRoot = pb_StateRoot p,
     h_hash = [], mkproof = []\<rparr>"

record pb_Block =
  pb_Header_of :: "pb_Header option"
  pb_PrepareTxs :: "pb_Txs option"
  pb_CrossShardTxs :: "pb_Txs option"
  pb_OPT :: "bytes list"
  pb_AggSigVote :: "pb_AggregatedVote option"
  pb_CI :: "pb_CommitIntention option"
  pb_CC :: "pb_CommitCertificateCore list option"
  pb_CTXS :: "pb_Txs list"
  pb_CTXSProof :: "pb_OutputTxsProof option list"

definition Block_ToProto :: "block_codec \<Rightarrow> hash_fn \<Rightarrow> Block \<Rightarrow> (Block \<times> pb_Block) option" where
  "Block_ToProto c H b0 = do {
     b \<leftarrow> fillInHeader c H b0;
     proofs \<leftarrow> map_or_panic OutputTxsProof_ToProto (CTXSProof b);
     cc \<leftarrow> CommitCertificate_ToProto (CC b);
     Some (b, \<lparr>pb_Header_of = Some (Header_ToProto (Header_of b)), pb_PrepareTxs = Some (Txs_ToProto (PTXS b)),
       pb_CrossShardTxs = Some (Txs_ToProto (CrossShardTxs b)), pb_OPT = OPT b,
       pb_AggSigVote = map_option AggregatedVote_ToProto (AggSigVote b), pb_CI = CommitIntention_ToProto (CI b),
       pb_CC = Some cc, pb_CTXS = map Txs_ToProto (CTXS b), pb_CTXSProof = proofs\<rparr>) }"

text \<open>A message without header or certificate panics.\<close>

definition NewBlockFromProto :: "pb_Block \<Rightarrow> Block option" where
  "NewBlockFromProto p = do {
     proofs \<leftarrow> map_or_panic NewOutputTxsProofFromProto (pb_CTXSProof p);
     h \<leftarrow> pb_Header_of p;
     v \<leftarrow> agg_from_proto (pb_AggSigVote p);
     ci \<leftarrow> NewCommitIntentionFromProto (pb_CI p);
     pcc \<leftarrow> pb_CC p;
     cc \<leftarrow> NewCommitCertificateFromProto pcc;
     Some \<lparr>Header_of = NewHeaderFromProto h, PTXS = NewTxsFromProto (pb_PrepareTxs p),
       CrossShardTxs = NewTxsFromProto (pb_CrossShardTxs p), OPT = pb_OPT p, AggSigVote = v, CI = ci, CC = cc,
       CTXS = map (\<lambda>t. NewTxsFromProto (Some t)) (pb_CTXS p), CTXSProof = proofs\<rparr> }"

subsection \<open>Validation\<close>

definition validate_intention :: "CommitIntention \<Rightarrow> CommitCertificateCore list \<Rightarrow> block_error + unit" where
  "validate_intention ci cc =
     (if length (IntentionHash ci) \<noteq> length (AggregatedSignatures ci) then Inl CountMismatch
      else if list_ex (\<lambda>(h1, vote). h1 \<noteq> GetLastHashOfAggVote vote) (zip (IntentionHash ci) (AggregatedSignatures ci)) then Inl IntentionMismatch
      else if length cc \<noteq> length (IntentionHash ci) then Inl CountMismatch
      else if list_ex (\<lambda>(core, vote). core_Hash core \<noteq> GetLastHashOfAggVote vote) (zip cc (AggregatedSignatures ci)) then Inl CertificateMismatch
      else Inr ())"

text \<open>
  The loop over the outcome of the certificate. A missing intention and an index beyond the
  signatures panic.
\<close>

fun validate_ctxs :: "hash_fn \<Rightarrow> CommitIntention option \<Rightarrow> nat \<Rightarrow> bool list \<Rightarrow> OutputTxsProof option list \<Rightarrow> Txs list \<Rightarrow>
    (block_error + unit) option" where
  "validate_ctxs H ci i (err # errs) (p # ps) (t # ts) =
     (if err then validate_ctxs H ci (Suc i) errs ps ts
      else do {
        intention \<leftarrow> ci;
        vote \<leftarrow> index (AggregatedSignatures intention) (int i);
        r \<leftarrow> OutputTxsProof_Verify H p (GetLastHashOfAggVote vote) t;
        (case r of Inl e \<Rightarrow> Some (Inl e) | Inr _ \<Rightarrow> validate_ctxs H ci (Suc i) errs ps ts) })"
| "validate_ctxs H ci i _ _ _ = Some (Inr ())"

definition Block_ValidateBasic :: "hash_fn \<Rightarrow> Block \<Rightarrow> (block_error + unit) option" where
  "Block_ValidateBasic H b = do {
     first \<leftarrow> (if h_View (Header_of b) > 5 then
         (case CI b of
            None \<Rightarrow> None
          | Some ci \<Rightarrow> (case validate_intention ci (CC b) of
                Inl e \<Rightarrow> Some (Inl e)
              | Inr _ \<Rightarrow> CommitCertificate_Verify H (CC b)))
       else Some (Inr ()));
     (case first of
        Inl e \<Rightarrow> Some (Inl e)
      | Inr _ \<Rightarrow>
          if length (CTXS b) \<noteq> length (CTXSProof b) \<or> length (CTXS b) \<noteq> length (CC b) then Some (Inl CountMismatch)
          else do {
            (intentions, errs) \<leftarrow> Result (CC b);
            validate_ctxs H (CI b) 0 errs (CTXSProof b) (CTXS b) }) }"

section \<open>Receipts\<close>

text \<open>The options of a receipt are a Go map: the list is the order it is ranged over.\<close>

record ABCIExecutionReceipt =
  r_code :: int
  r_Log :: string
  r_info :: string
  Options :: "(string \<times> string) list option"

definition opt_list :: "(string \<times> string) list option \<Rightarrow> (string \<times> string) list" where
  "opt_list m = (case m of None \<Rightarrow> [] | Some kvs \<Rightarrow> kvs)"

definition SetRawTx :: "ABCIExecutionReceipt \<Rightarrow> bytes \<Rightarrow> ABCIExecutionReceipt" where
  "SetRawTx r tx = r\<lparr>Options := Some (AList.update ''rawTx'' (string_of_bytes tx) (opt_list (Options r)))\<rparr>"

text \<open>A missing entry is the empty string.\<close>

definition GetRawTx :: "ABCIExecutionReceipt \<Rightarrow> bytes option" where
  "GetRawTx r = (case Options r of
      None \<Rightarrow> None
    | Some kvs \<Rightarrow> Some (bytes_of_string (case map_of kvs ''rawTx'' of None \<Rightarrow> [] | Some v \<Rightarrow> v)))"

definition Receipt_IsOK :: "ABCIExecutionReceipt \<Rightarrow> bool" where
  "Receipt_IsOK r \<longleftrightarrow> r_code r = 1"

record pb_Receipt =
  pb_r_Code :: "32 word"
  pb_Log :: string
  pb_Info :: string
  OptionKey :: "string list"
  OptionValue :: "string list"

text \<open>The values are appended to the list of keys, and the list of values stays empty.\<close>

definition Receipt_ToProto :: "ABCIExecutionReceipt \<Rightarrow> pb_Receipt" where
  "Receipt_ToProto r =
     (let kvs = opt_list (Options r); keys = sort (map fst kvs)
      in \<lparr>pb_r_Code = word_of_int (r_code r), pb_Log = r_Log r, pb_Info = r_info r,
          OptionKey = keys @ map (\<lambda>k. the (map_of kvs k)) keys, OptionValue = []\<rparr>)"

fun options_from :: "nat \<Rightarrow> string list \<Rightarrow> string list \<Rightarrow> (string \<times> string) list \<Rightarrow> (string \<times> string) list option" where
  "options_from i [] values m = Some m"
| "options_from i (k # ks) values m = (case index values (int i) of
      None \<Rightarrow> None
    | Some v \<Rightarrow> options_from (Suc i) ks values (AList.update k v m))"

definition NewABCIReceiptFromProto :: "pb_Receipt \<Rightarrow> ABCIExecutionReceipt option" where
  "NewABCIReceiptFromProto p = map_option (\<lambda>m. \<lparr>r_code = sint (ucast (pb_r_Code p) :: 8 word), r_Log = pb_Log p,
     r_info = pb_Info p, Options = Some m\<rparr>) (options_from 0 (OptionKey p) (OptionValue p) [])"

end
