(* ===== verification/Block_Proofs.thy ===== *)
theory Block_Proofs
  imports Block_Data
begin

text \<open>
  What the hashes and proofs of a block guarantee: the messages a shard makes from its block pass
  the receiver's validation, the commit certificate is evaluated entry by entry, decoding a block
  inverts encoding, and what the block hash does not cover.
\<close>

section \<open>Hash and proofs of a block\<close>

definition same_body :: "Block \<Rightarrow> Block \<Rightarrow> bool" where
  "same_body b b' \<longleftrightarrow> OPT b' = OPT b \<and> PTXS b' = PTXS b \<and> CrossShardTxs b' = CrossShardTxs b \<and> AggSigVote b' = AggSigVote b
     \<and> CC b' = CC b \<and> CTXS b' = CTXS b \<and> CTXSProof b' = CTXSProof b"

lemma same_body_trans: "same_body a b \<Longrightarrow> same_body b c \<Longrightarrow> same_body a c"
  by (simp add: same_body_def)

lemma upd_header_body [simp]:
  "OPT (upd_header f b) = OPT b" "PTXS (upd_header f b) = PTXS b" "CrossShardTxs (upd_header f b) = CrossShardTxs b"
  "AggSigVote (upd_header f b) = AggSigVote b" "CC (upd_header f b) = CC b" "CTXS (upd_header f b) = CTXS b"
  "CTXSProof (upd_header f b) = CTXSProof b" "CI (upd_header f b) = CI b" "Header_of (upd_header f b) = f (Header_of b)"
  by (simp_all add: upd_header_def)

lemma same_body_refl [simp]: "same_body b b"
  by (simp add: same_body_def)

lemma same_body_upd [simp]: "same_body b (upd_header f b)" "same_body b (upd_header f (b\<lparr>CI := ci\<rparr>))"
  by (simp_all add: same_body_def)

lemma fill_same_body:
  "same_body b (fill_prepare H b)" "same_body b (fill_cross H b)" "same_body b (fill_output H b)" "same_body b (fill_agg c H b)"
  "same_body b (fill_ci c H b)" "fill_cc H b = Some b' \<Longrightarrow> same_body b b'" "fill_ctxs H b = Some b' \<Longrightarrow> same_body b b'"
  by (auto simp: fill_prepare_def fill_cross_def fill_output_def fill_agg_def fill_ci_def fill_cc_def fill_ctxs_def
      split: option.splits prod.splits if_splits)

lemma fill_other_ci [simp]:
  "CI (fill_prepare H b) = CI b" "CI (fill_cross H b) = CI b" "CI (fill_output H b) = CI b" "CI (fill_agg c H b) = CI b"
  by (auto simp: fill_prepare_def fill_cross_def fill_output_def fill_agg_def split: option.splits)

lemma fill_late_ci:
  "fill_cc H b = Some b' \<Longrightarrow> CI b' = CI b" "fill_ctxs H b = Some b' \<Longrightarrow> CI b' = CI b"
  "fill_cc H b = Some b' \<Longrightarrow> OutputTxsRoot (Header_of b') = OutputTxsRoot (Header_of b)"
  "fill_ctxs H b = Some b' \<Longrightarrow> OutputTxsRoot (Header_of b') = OutputTxsRoot (Header_of b)"
  "fill_cc H b = Some b' \<Longrightarrow> CommitIntentionRoot (Header_of b') = CommitIntentionRoot (Header_of b)"
  "fill_ctxs H b = Some b' \<Longrightarrow> CommitIntentionRoot (Header_of b') = CommitIntentionRoot (Header_of b)"
  by (auto simp: fill_cc_def fill_ctxs_def split: if_splits)

lemma fill_roots [simp]:
  "OutputTxsRoot (Header_of (fill_prepare H b)) = OutputTxsRoot (Header_of b)"
  "OutputTxsRoot (Header_of (fill_cross H b)) = OutputTxsRoot (Header_of b)"
  "OutputTxsRoot (Header_of (fill_agg c H b)) = OutputTxsRoot (Header_of b)"
  "OutputTxsRoot (Header_of (fill_ci c H b)) = OutputTxsRoot (Header_of b)"
  "CommitIntentionRoot (Header_of (fill_prepare H b)) = CommitIntentionRoot (Header_of b)"
  "CommitIntentionRoot (Header_of (fill_cross H b)) = CommitIntentionRoot (Header_of b)"
  "CommitIntentionRoot (Header_of (fill_output H b)) = CommitIntentionRoot (Header_of b)"
  "CommitIntentionRoot (Header_of (fill_agg c H b)) = CommitIntentionRoot (Header_of b)"
  by (auto simp: fill_prepare_def fill_cross_def fill_output_def fill_agg_def fill_ci_def split: option.splits prod.splits)

lemma CommitIntention_Hash_fresh:
  assumes "leftHash ci = []" "rightHash ci = []" "CommitIntention_Hash c H ci = (ci', h)"
  shows "h = HashFromByteSlices H [IntentionBrief_Hash H (IntentionHash ci), rightHash ci'] \<and> snd (RrightHash c H ci') = rightHash ci'
     \<and> IntentionHash ci' = IntentionHash ci \<and> AggregatedSignatures ci' = AggregatedSignatures ci"
  using assms by (auto simp: CommitIntention_Hash_def LeftHash_def RrightHash_def Let_def)

text \<open>A block as \<open>make_block\<close> builds it: no roots and no cached hashes.\<close>

definition fresh_block :: "Block \<Rightarrow> bool" where
  "fresh_block b \<longleftrightarrow> h_hash (Header_of b) = [] \<and> mkproof (Header_of b) = [] \<and> OutputTxsRoot (Header_of b) = []
     \<and> CommitIntentionRoot (Header_of b) = [] \<and> (\<forall>ci. CI b = Some ci \<longrightarrow> leftHash ci = [] \<and> rightHash ci = [])"

lemma fillInHeader_fresh:
  assumes "fresh_block b" "CI b = Some ci" "fillInHeader c H b = Some b'"
  shows "OPT b' = OPT b \<and> OutputTxsRoot (Header_of b') = HashFromByteSlices H (OPT b)
     \<and> (\<exists>ci'. CI b' = Some ci' \<and> IntentionHash ci' = IntentionHash ci \<and> snd (RrightHash c H ci') = rightHash ci'
        \<and> CommitIntentionRoot (Header_of b') = HashFromByteSlices H [IntentionBrief_Hash H (IntentionHash ci), rightHash ci'])"
proof -
  obtain ci' h where ci: "CommitIntention_Hash c H ci = (ci', h)" by fastforce
  have fr: "OutputTxsRoot (Header_of b) = []" "CommitIntentionRoot (Header_of b) = []" "leftHash ci = []" "rightHash ci = []"
    using assms(1,2) by (simp_all add: fresh_block_def)
  let ?b2 = "fill_cross H (fill_prepare H b)"
  let ?b4 = "fill_agg c H (fill_output H ?b2)"
  obtain b6 where b6: "fill_cc H (fill_ci c H ?b4) = Some b6" "fill_ctxs H b6 = Some b'"
    using assms(3) by (auto simp: fillInHeader_def bind_eq_Some_conv)
  have b2: "same_body b ?b2" by (rule same_body_trans [OF fill_same_body(1) fill_same_body(2)])
  then have opt: "OPT ?b2 = OPT b" by (simp add: same_body_def)
  have "same_body b (fill_ci c H ?b4)"
    by (rule same_body_trans [OF same_body_trans [OF same_body_trans [OF b2 fill_same_body(3)] fill_same_body(4)] fill_same_body(5)])
  then have "same_body b b'"
    by (rule same_body_trans [OF same_body_trans [OF _ fill_same_body(6) [OF b6(1)]] fill_same_body(7) [OF b6(2)]])
  moreover have "OutputTxsRoot (Header_of b') = HashFromByteSlices H (OPT b)"
    using fill_late_ci(3) [OF b6(1)] fill_late_ci(4) [OF b6(2)] fr(1) opt by (simp add: fill_output_def upd_header_def)
  moreover have "CI b' = Some ci'" "CommitIntentionRoot (Header_of b') = h"
    using fill_late_ci(1,5) [OF b6(1)] fill_late_ci(2,6) [OF b6(2)] assms(2) fr(2) ci by (simp_all add: fill_ci_def upd_header_def)
  ultimately show ?thesis using CommitIntention_Hash_fresh [OF fr(3,4) ci] by (simp add: same_body_def)
qed

lemma header_items_simps:
  "length (header_items pkg h) = 7" "header_items pkg h ! 3 = OutputTxsRoot h" "header_items pkg h ! 4 = CommitIntentionRoot h"
  by (simp_all add: header_items_def)

lemma packageHash_cached:
  "packageHash c H (h\<lparr>h_hash := x, mkproof := y\<rparr>) = packageHash c H h" "header_items pkg (h\<lparr>h_hash := x, mkproof := y\<rparr>) = header_items pkg h"
  by (simp_all add: packageHash_def header_items_def)

definition block_items :: "block_codec \<Rightarrow> hash_fn \<Rightarrow> Block \<Rightarrow> bytes list" where
  "block_items c H b = header_items (the (packageHash c H (Header_of b))) (Header_of b)"

lemma calBlock_proofs:
  assumes "calBlockHashAndProof c H b = Some b'"
  obtains b1 where "fillInHeader c H b = Some b1" "h_hash (Header_of b') = HashFromByteSlices H (block_items c H b')"
    "mkproof (Header_of b') = map (honest_proof H (block_items c H b')) [0..<7]" "length (block_items c H b') = 7"
    "block_items c H b' ! 3 = OutputTxsRoot (Header_of b1)" "block_items c H b' ! 4 = CommitIntentionRoot (Header_of b1)"
    "OPT b' = OPT b1" "CI b' = CI b1"
proof -
  obtain b1 pkg where f: "fillInHeader c H b = Some b1" "packageHash c H (Header_of b1) = Some pkg"
    "b' = upd_header (\<lambda>h. h\<lparr>h_hash := HashFromByteSlices H (header_items pkg (Header_of b1)),
       mkproof := map (honest_proof H (header_items pkg (Header_of b1))) [0..<length (header_items pkg (Header_of b1))]\<rparr>) b1"
    using assms by (auto simp: calBlockHashAndProof_def bind_eq_Some_conv ProofsFromByteSlices_eq)
  have "block_items c H b' = header_items pkg (Header_of b1)"
    by (simp add: block_items_def f(3) packageHash_cached f(2))
  then show ?thesis
    by (intro that [OF f(1)]) (simp_all add: f(3) header_items_simps)
qed

lemma honest_root: "i < length items \<Longrightarrow> ComputeRootHash H (honest_proof H items i) = Some (HashFromByteSlices H items)"
  by (simp add: ComputeRootHash_def honest_proof_def compute_aunts_of)

text \<open>The message that \<open>CrossShardCommunicate\<close> builds for the shard at an index.\<close>

definition make_csm :: "block_codec \<Rightarrow> hash_fn \<Rightarrow> string \<Rightarrow> AggregatedVote \<Rightarrow> Block \<Rightarrow> Txs \<Rightarrow> int \<Rightarrow> CrossShardMessage option" where
  "make_csm c H chain sig b txs i = do {
     (b1, ip) \<leftarrow> GetCommitIntentionProof c H b;
     ci \<leftarrow> CI b1;
     (b2, otp) \<leftarrow> GetOutputTxsProofOf c H b1 i;
     Some \<lparr>SourceChain = chain, csm_AggVote = Some sig, csm_IntentionBrief = GetBrief ci,
       csm_ProofOfIntention = Some \<lparr>IntentionHashProof = ip, RightHash = snd (RrightHash c H ci)\<rparr>,
       OPTXs = txs, csm_OutputTxsProof = Some otp\<rparr> }"

lemma honest_csm:
  assumes "fresh_block b" "CI b \<noteq> None" "Block_Hash c H (Some b) = Some (Some b', root)"
    and "GetLastHashOfAggVote sig = root" "i < length (OPT b)" "OPT b ! i = Txs_Hash H txs"
  shows "\<exists>csm. make_csm c H chain sig b' txs (int i) = Some csm \<and> CrossShardMessage_ValidateBasic H csm = Some (Inr ())"
proof -
  obtain ci where ci: "CI b = Some ci" using assms(2) by blast
  have cal: "calBlockHashAndProof c H b = Some b'" "root = h_hash (Header_of b')"
    using assms(1,3) by (auto simp: Block_Hash_def fresh_block_def)
  define items where "items = block_items c H b'"
  obtain b1 where b1: "fillInHeader c H b = Some b1" "h_hash (Header_of b') = HashFromByteSlices H items"
    "mkproof (Header_of b') = map (honest_proof H items) [0..<7]" "length items = 7"
    "items ! 3 = OutputTxsRoot (Header_of b1)" "items ! 4 = CommitIntentionRoot (Header_of b1)"
    "OPT b' = OPT b1" "CI b' = CI b1" unfolding items_def by (rule calBlock_proofs [OF cal(1)])
  obtain ci' where f: "OPT b1 = OPT b" "OutputTxsRoot (Header_of b1) = HashFromByteSlices H (OPT b)" "CI b1 = Some ci'"
    "IntentionHash ci' = IntentionHash ci" "snd (RrightHash c H ci') = rightHash ci'"
    "CommitIntentionRoot (Header_of b1) = HashFromByteSlices H [IntentionBrief_Hash H (IntentionHash ci), rightHash ci']"
    using fillInHeader_fresh [OF assms(1) ci b1(1)] by blast
  have poi: "ProofOfIndex c H b' (int j) = Some (b', Some (honest_proof H items j))" if "j < 7" for j
    using that b1(3) by (simp add: ProofOfIndex_def index_nth)
  have gci: "GetCommitIntentionProof c H b' = Some (b', Some (honest_proof H items 4))"
    using poi [of 4] by (simp add: GetCommitIntentionProof_def)
  have got: "GetOutputTxsProofOf c H b' (int i) = Some (b', \<lparr>BlockProof = Some (honest_proof H items 3), OPTProof = Some (honest_proof H (OPT b) i)\<rparr>)"
    using poi [of 3] assms(5) by (simp add: GetOutputTxsProofOf_def GetOutputTxsProof_def ProofsFromByteSlices_eq b1(7) f(1) index_nth)
  have v4: "Proof_Verify H (honest_proof H items 4) root (HashFromByteSlices H [IntentionBrief_Hash H (IntentionHash ci), rightHash ci']) = Inr ()"
    using honest_proof_verifies [of 4 items H] b1(2,4,6) cal(2) f(6) by simp
  have v3: "Proof_Verify H (honest_proof H items 3) root (HashFromByteSlices H (OPT b)) = Inr ()"
    using honest_proof_verifies [of 3 items H] b1(2,4,5) cal(2) f(2) by simp
  have vo: "Proof_Verify H (honest_proof H (OPT b) i) (HashFromByteSlices H (OPT b)) (Txs_Hash H txs) = Inr ()"
    using honest_proof_verifies [OF assms(5), of H] assms(6) by simp
  show ?thesis
    using gci got f(3-5) b1(8) assms(4) v4 v3 vo honest_root [OF assms(5), of H]
    by (simp add: make_csm_def CrossShardMessage_ValidateBasic_def GetLastHash_def ProofOfIntention_Verify_def GetBrief_def
        OutputTxsProof_Verify_def Let_def)
qed

section \<open>The outcome of a commit certificate\<close>

text \<open>The entries that the briefs of the shards hold for one position.\<close>

definition column :: "CommitCertificateCore list \<Rightarrow> nat \<Rightarrow> bytes list" where
  "column cc j = [IntentionBrief core ! j. core \<leftarrow> cc, j < length (IntentionBrief core) \<and> IntentionBrief core ! j \<noteq> []]"

fun first_entry :: "bytes list \<Rightarrow> bytes" where
  "first_entry [] = []"
| "first_entry (x # xs) = x"

definition conflicting :: "bytes list \<Rightarrow> bool" where
  "conflicting xs \<longleftrightarrow> list_ex (\<lambda>x. x \<noteq> first_entry xs) xs"

definition summary :: "nat \<Rightarrow> (nat \<Rightarrow> bytes list) \<Rightarrow> bytes list \<times> bool list" where
  "summary n col = (map (\<lambda>j. first_entry (col j)) [0..<n], map (\<lambda>j. conflicting (col j)) [0..<n])"

definition push_entry :: "(nat \<Rightarrow> bytes list) \<Rightarrow> nat \<Rightarrow> bytes \<Rightarrow> nat \<Rightarrow> bytes list" where
  "push_entry col i bz = (if bz = [] then col else col(i := col i @ [bz]))"

lemma first_entry_append: "first_entry (xs @ [x]) = (if xs = [] then x else first_entry xs)"
  by (cases xs) simp_all

lemma conflicting_append: "conflicting (xs @ [x]) \<longleftrightarrow> conflicting xs \<or> (xs \<noteq> [] \<and> x \<noteq> first_entry xs)"
  by (cases xs) (simp_all add: conflicting_def)

lemma conflicting_small [simp]: "\<not> conflicting []" "\<not> conflicting [x]"
  by (simp_all add: conflicting_def)

lemma first_entry_empty: "[] \<notin> set xs \<Longrightarrow> first_entry xs = [] \<longleftrightarrow> xs = []"
  by (cases xs) auto

lemma map_upt_update: "i < n \<Longrightarrow> (map f [0..<n])[i := x] = map (f(i := x)) [0..<n]"
  by (rule nth_equalityI) (auto simp: nth_list_update)

lemma result_entry:
  assumes "i < n" "[] \<notin> set (col i)" "summary n col = (results, errs)"
  shows "summary n (push_entry col i bz) =
    (if results ! i = bz \<or> length bz = 0 then (results, errs)
     else if length (results ! i) > 0 then (results, errs[i := True]) else (results[i := bz], errs))"
proof -
  have r: "results = map (\<lambda>j. first_entry (col j)) [0..<n]" "errs = map (\<lambda>j. conflicting (col j)) [0..<n]"
    using assms(3) by (simp_all add: summary_def)
  have ri: "results ! i = first_entry (col i)" using assms(1) r(1) by simp
  show ?thesis
  proof (cases "bz = []")
    case False
    note fe = first_entry_empty [OF assms(2)]
    have f: "map (\<lambda>j. first_entry (push_entry col i bz j)) [0..<n] = (if col i = [] then results[i := bz] else results)"
      using False assms(1) unfolding r by (intro nth_equalityI) (auto simp: push_entry_def first_entry_append nth_list_update)
    have g: "map (\<lambda>j. conflicting (push_entry col i bz j)) [0..<n]
        = (if col i \<noteq> [] \<and> bz \<noteq> first_entry (col i) then errs[i := True] else errs)"
      using False assms(1) unfolding r
      by (intro nth_equalityI) (auto simp: push_entry_def conflicting_append nth_list_update)
    show ?thesis using f g fe False unfolding ri by (auto simp: summary_def)
  qed (use assms in \<open>simp add: push_entry_def\<close>)
qed

definition push_brief :: "(nat \<Rightarrow> bytes list) \<Rightarrow> nat \<Rightarrow> bytes list \<Rightarrow> nat \<Rightarrow> bytes list" where
  "push_brief col i brief j = col j @ (if i \<le> j \<and> j < i + length brief \<and> brief ! (j - i) \<noteq> [] then [brief ! (j - i)] else [])"

lemma push_brief_Nil: "push_brief col i [] = col"
  by (rule ext) (simp add: push_brief_def)

lemma push_brief_Cons: "push_brief col i (bz # brief) = push_brief (push_entry col i bz) (Suc i) brief"
proof (rule ext)
  fix j
  consider "j < i" | "j = i" | k where "j = Suc (i + k)" by (metis less_imp_Suc_add linorder_neqE_nat)
  then show "push_brief col i (bz # brief) j = push_brief (push_entry col i bz) (Suc i) brief j"
    by cases (simp_all add: push_brief_def push_entry_def)
qed

lemma push_entry_ne: "(\<And>j. [] \<notin> set (col j)) \<Longrightarrow> [] \<notin> set (push_entry col i bz j)"
  by (simp add: push_entry_def)

lemma result_brief_summary:
  assumes "\<And>j. [] \<notin> set (col j)"
  shows "result_brief i brief (summary n col) =
    (if brief = [] \<or> i + length brief \<le> n then Some (summary n (push_brief col i brief)) else None)"
  using assms
proof (induction brief arbitrary: i col)
  case (Cons bz brief)
  obtain results errs where s: "summary n col = (results, errs)" by fastforce
  then have len: "length results = n" by (auto simp: summary_def)
  show ?case
  proof (cases "i < n")
    case True
    have "result_brief i (bz # brief) (summary n col) = result_brief (Suc i) brief (summary n (push_entry col i bz))"
      using True len by (simp add: s result_entry [OF True Cons.prems s])
    also have "\<dots> = (if brief = [] \<or> Suc i + length brief \<le> n then Some (summary n (push_brief (push_entry col i bz) (Suc i) brief)) else None)"
      by (rule Cons.IH, rule push_entry_ne, rule Cons.prems)
    finally show ?thesis using True by (auto simp: push_brief_Cons)
  qed (use len in \<open>simp add: s\<close>)
qed (simp add: push_brief_Nil summary_def)

lemma push_brief_ne: "(\<And>j. [] \<notin> set (col j)) \<Longrightarrow> [] \<notin> set (push_brief col i brief j)"
  by (simp add: push_brief_def)

lemma result_cores_summary:
  assumes "\<And>j. [] \<notin> set (col j)"
  shows "result_cores cc (summary n col) =
    (if list_ex (\<lambda>core. n < length (IntentionBrief core)) cc then None else Some (summary n (\<lambda>j. col j @ column cc j)))"
  using assms
proof (induction cc arbitrary: col)
  case (Cons core cc)
  have ne: "[] \<notin> set (push_brief col 0 (IntentionBrief core) j)" for j by (rule push_brief_ne) (rule Cons.prems)
  have cl: "(\<lambda>j. push_brief col 0 (IntentionBrief core) j @ column cc j) = (\<lambda>j. col j @ column (core # cc) j)"
    by (rule ext) (simp add: push_brief_def column_def)
  show ?case using Cons.IH [OF ne] cl by (auto simp: result_brief_summary [OF Cons.prems])
qed (simp add: column_def)

lemma Result_eq:
  "Result cc = (if list_ex (\<lambda>core. length cc < length (IntentionBrief core)) cc then None
     else Some (summary (length cc) (column cc)))"
proof (cases "cc = []")
  case False
  have "(replicate n [], replicate n False) = summary n (\<lambda>_. [])" for n
    by (simp add: summary_def conflicting_def map_replicate_const)
  then show ?thesis using False result_cores_summary [of "\<lambda>_. []" cc "length cc"] by (simp add: Result_def)
qed (simp add: Result_def summary_def)


section \<open>Decoding a block\<close>

text \<open>The votes whose numbers fit the widths of the message.\<close>

definition vote_fits :: "AggregatedVote \<Rightarrow> bool" where
  "vote_fits v \<longleftrightarrow> - 128 \<le> a_Code v \<and> a_Code v < 128 \<and> - (2 ^ 63) \<le> a_View v \<and> a_View v < 2 ^ 63
     \<and> - (2 ^ 31) \<le> a_Round v \<and> a_Round v < 2 ^ 31 \<and> (\<exists>bv. a_SignerIndexer v = Some bv \<and> wf_bv bv)"

definition block_fits :: "Block \<Rightarrow> bool" where
  "block_fits b \<longleftrightarrow> (\<forall>v. AggSigVote b = Some v \<longrightarrow> vote_fits v)
     \<and> (\<forall>ci. CI b = Some ci \<longrightarrow> list_all vote_fits (AggregatedSignatures ci))"

text \<open>What a block is after a trip: the cached hashes and the unsent root are gone.\<close>

definition stripped :: "Block \<Rightarrow> Block" where
  "stripped b = b\<lparr>Header_of := (Header_of b)\<lparr>CrossShardRoot := [], h_hash := [], mkproof := []\<rparr>,
     CI := map_option (\<lambda>ci. ci\<lparr>rightHash := [], leftHash := []\<rparr>) (CI b)\<rparr>"

lemma ucast_word_of_int: "ucast (word_of_int x :: 32 word) = (word_of_int x :: byte)"
  by (rule bit_word_eqI) (simp add: bit_simps)

lemma vote_roundtrip: "vote_fits v \<Longrightarrow> NewAggregatedVoteFromProto (AggregatedVote_ToProto v) = Some v"
  by (auto simp: vote_fits_def NewAggregatedVoteFromProto_def AggregatedVote_ToProto_def NewBitArrayFromByte_Byte
      ucast_word_of_int int_word_sint)

lemma Proof_roundtrip: "Proof_ToProto p = Some q \<Longrightarrow> \<exists>r. p = Some r \<and> NewProofFromProto (Some q) = Some r"
  by (auto simp: Proof_ToProto_def NewProofFromProto_def)

lemma OutputTxsProof_roundtrip: "OutputTxsProof_ToProto p = Some q \<Longrightarrow> NewOutputTxsProofFromProto q = Some p"
  by (auto simp: OutputTxsProof_ToProto_def NewOutputTxsProofFromProto_def bind_eq_Some_conv dest!: Proof_roundtrip split: option.splits)

lemma ProofOfIntention_roundtrip: "ProofOfIntention_ToProto p = Some q \<Longrightarrow> NewProofOfIntentionFromProto q = Some p"
  by (auto simp: ProofOfIntention_ToProto_def NewProofOfIntentionFromProto_def dest!: Proof_roundtrip split: option.splits)

lemma Core_roundtrip: "Core_ToProto core = Some q \<Longrightarrow> NewCommitCertificateCoreFromProto q = Some core"
  by (auto simp: Core_ToProto_def NewCommitCertificateCoreFromProto_def dest!: ProofOfIntention_roundtrip)

lemma map_or_panic_roundtrip:
  assumes "map_or_panic f xs = Some ys" and "\<And>x y. x \<in> set xs \<Longrightarrow> f x = Some y \<Longrightarrow> g y = Some x"
  shows "map_or_panic g ys = Some xs"
  using assms by (induction xs arbitrary: ys) (auto simp: bind_eq_Some_conv)

lemma map_or_panic_map: "(\<And>x. x \<in> set xs \<Longrightarrow> g (f x) = Some x) \<Longrightarrow> map_or_panic g (map f xs) = Some xs"
  by (induction xs) auto

lemma Txs_roundtrip [simp]: "NewTxsFromProto (Some (Txs_ToProto t)) = t"
  by (simp add: NewTxsFromProto_def Txs_ToProto_def)

lemma CommitIntention_roundtrip:
  assumes "\<And>ci. ci' = Some ci \<Longrightarrow> list_all vote_fits (AggregatedSignatures ci)"
  shows "NewCommitIntentionFromProto (CommitIntention_ToProto ci') = Some (map_option (\<lambda>ci. ci\<lparr>rightHash := [], leftHash := []\<rparr>) ci')"
proof (cases ci')
  case (Some ci)
  have "votes_from_proto (map AggregatedVote_ToProto (AggregatedSignatures ci)) = Some (AggregatedSignatures ci)"
    unfolding votes_from_proto_def by (rule map_or_panic_map, rule vote_roundtrip) (use assms [OF Some] in \<open>simp add: list_all_iff\<close>)
  then show ?thesis using Some by (simp add: NewCommitIntentionFromProto_def CommitIntention_ToProto_def)
qed (simp add: NewCommitIntentionFromProto_def CommitIntention_ToProto_def)

lemma agg_roundtrip: "(\<And>v. v' = Some v \<Longrightarrow> vote_fits v) \<Longrightarrow> agg_from_proto (map_option AggregatedVote_ToProto v') = Some v'"
  by (cases v') (simp_all add: agg_from_proto_def vote_roundtrip)

lemma Header_roundtrip: "NewHeaderFromProto (Header_ToProto h) = h\<lparr>CrossShardRoot := [], h_hash := [], mkproof := []\<rparr>"
  by (simp add: NewHeaderFromProto_def Header_ToProto_def)

lemma Block_roundtrip:
  assumes "Block_ToProto c H b = Some (b1, p)" "block_fits b1"
  shows "fillInHeader c H b = Some b1 \<and> NewBlockFromProto p = Some (stripped b1)"
proof -
  obtain proofs cc where f: "fillInHeader c H b = Some b1" "map_or_panic OutputTxsProof_ToProto (CTXSProof b1) = Some proofs"
    "CommitCertificate_ToProto (CC b1) = Some cc"
    and p: "p = \<lparr>pb_Header_of = Some (Header_ToProto (Header_of b1)), pb_PrepareTxs = Some (Txs_ToProto (PTXS b1)),
       pb_CrossShardTxs = Some (Txs_ToProto (CrossShardTxs b1)), pb_OPT = OPT b1,
       pb_AggSigVote = map_option AggregatedVote_ToProto (AggSigVote b1), pb_CI = CommitIntention_ToProto (CI b1),
       pb_CC = Some cc, pb_CTXS = map Txs_ToProto (CTXS b1), pb_CTXSProof = proofs\<rparr>"
    using assms(1) by (auto simp: Block_ToProto_def bind_eq_Some_conv)
  have 1: "map_or_panic NewOutputTxsProofFromProto proofs = Some (CTXSProof b1)"
    using f(2) OutputTxsProof_roundtrip by (rule map_or_panic_roundtrip)
  have 2: "NewCommitCertificateFromProto cc = Some (CC b1)"
    using f(3) Core_roundtrip unfolding CommitCertificate_ToProto_def NewCommitCertificateFromProto_def by (rule map_or_panic_roundtrip)
  have 3: "agg_from_proto (map_option AggregatedVote_ToProto (AggSigVote b1)) = Some (AggSigVote b1)"
    using assms(2) by (intro agg_roundtrip) (simp add: block_fits_def)
  have 4: "NewCommitIntentionFromProto (CommitIntention_ToProto (CI b1)) =
      Some (map_option (\<lambda>ci. ci\<lparr>rightHash := [], leftHash := []\<rparr>) (CI b1))"
    using assms(2) by (intro CommitIntention_roundtrip) (simp add: block_fits_def)
  show ?thesis
    using 1 2 3 4 by (simp add: f(1) NewBlockFromProto_def p Header_roundtrip stripped_def o_def)
qed


text \<open>A header that \<open>fillInHeader\<close> leaves as it is, the unhashed root apart.\<close>

definition filled :: "Block \<Rightarrow> bool" where
  "filled b \<longleftrightarrow> (PrepareRoot (Header_of b) = [] \<longrightarrow> PTXS b = None) \<and> OutputTxsRoot (Header_of b) \<noteq> []
     \<and> (LastAggSigRoot (Header_of b) = [] \<longrightarrow> AggSigVote b = None) \<and> (CommitIntentionRoot (Header_of b) = [] \<longrightarrow> CI b = None)
     \<and> CommitCertificateRoot (Header_of b) \<noteq> [] \<and> CommitTxsListRoot (Header_of b) \<noteq> []"

lemma fill_cross_roots [simp]:
  "PrepareRoot (Header_of (fill_cross H b)) = PrepareRoot (Header_of b)" "LastAggSigRoot (Header_of (fill_cross H b)) = LastAggSigRoot (Header_of b)"
  "CommitCertificateRoot (Header_of (fill_cross H b)) = CommitCertificateRoot (Header_of b)"
  "CommitTxsListRoot (Header_of (fill_cross H b)) = CommitTxsListRoot (Header_of b)"
  "AggSigVote (fill_cross H b) = AggSigVote b"
  by (simp_all add: fill_cross_def)

lemma fill_filled: "filled b \<Longrightarrow> fillInHeader c H b = Some (fill_cross H b)"
proof -
  assume f: "filled b"
  have 1: "fill_prepare H b = b" using f by (auto simp: fill_prepare_def filled_def)
  have 3: "fill_output H (fill_cross H b) = fill_cross H b" using f by (simp add: fill_output_def filled_def)
  have 4: "fill_agg c H (fill_cross H b) = fill_cross H b" using f by (auto simp: fill_agg_def filled_def)
  have 5: "fill_ci c H (fill_cross H b) = fill_cross H b" using f by (auto simp: fill_ci_def filled_def split: option.split)
  have 6: "fill_cc H (fill_cross H b) = Some (fill_cross H b)" using f by (simp add: fill_cc_def filled_def)
  have 7: "fill_ctxs H (fill_cross H b) = Some (fill_cross H b)" using f by (simp add: fill_ctxs_def filled_def)
  show ?thesis by (simp add: fillInHeader_def 1 3 4 5 6 7)
qed

lemma filled_stripped: "filled b \<Longrightarrow> filled (stripped b)"
  by (simp add: filled_def stripped_def)


lemma Hash_nonempty: "(\<And>x. length (H x) = hash_size) \<Longrightarrow> HashFromByteSlices H items \<noteq> []"
  using root_length [of H items] by (auto simp: hash_size_def)

lemma CommitIntention_Hash_root: "\<exists>xs. snd (CommitIntention_Hash c H ci) = HashFromByteSlices H xs"
  by (auto simp: CommitIntention_Hash_def split: prod.split)

lemma fill_filled_roots:
  assumes len: "\<And>x. length (H x) = hash_size" and "fillInHeader c H b = Some b'"
  shows "filled b'"
proof -
  note ne = Hash_nonempty [of H, OF len]
  define b1 where "b1 = fill_prepare H b"
  define b2 where "b2 = fill_cross H b1"
  define b3 where "b3 = fill_output H b2"
  define b4 where "b4 = fill_agg c H b3"
  define b5 where "b5 = fill_ci c H b4"
  obtain b6 where b6: "fill_cc H b5 = Some b6" "fill_ctxs H b6 = Some b'"
    using assms(2) unfolding fillInHeader_def b1_def b2_def b3_def b4_def b5_def by (auto simp: bind_eq_Some_conv)
  have 1: "PrepareRoot (Header_of b1) = [] \<longrightarrow> PTXS b1 = None"
    using ne by (auto simp: b1_def fill_prepare_def Txs_Hash_def)
  then have 2: "PrepareRoot (Header_of b2) = [] \<longrightarrow> PTXS b2 = None"
    by (simp add: b2_def fill_cross_def)
  then have 3: "PrepareRoot (Header_of b3) = [] \<longrightarrow> PTXS b3 = None" "OutputTxsRoot (Header_of b3) \<noteq> []"
    using ne by (simp_all add: b3_def fill_output_def)
  then have 4: "PrepareRoot (Header_of b4) = [] \<longrightarrow> PTXS b4 = None" "OutputTxsRoot (Header_of b4) \<noteq> []"
      "LastAggSigRoot (Header_of b4) = [] \<longrightarrow> AggSigVote b4 = None"
    using ne by (auto simp: b4_def fill_agg_def AggregatedVote_Hash_def split: option.split)
  have h: "snd (CommitIntention_Hash c H ci) \<noteq> []" for ci using CommitIntention_Hash_root [of c H ci] ne by metis
  from 4 have 5: "PrepareRoot (Header_of b5) = [] \<longrightarrow> PTXS b5 = None" "OutputTxsRoot (Header_of b5) \<noteq> []"
      "LastAggSigRoot (Header_of b5) = [] \<longrightarrow> AggSigVote b5 = None" "CommitIntentionRoot (Header_of b5) = [] \<longrightarrow> CI b5 = None"
    using h by (auto simp: b5_def fill_ci_def case_prod_unfold Let_def split: option.split)
  then have "PrepareRoot (Header_of b6) = [] \<longrightarrow> PTXS b6 = None" "OutputTxsRoot (Header_of b6) \<noteq> []"
      "LastAggSigRoot (Header_of b6) = [] \<longrightarrow> AggSigVote b6 = None" "CommitIntentionRoot (Header_of b6) = [] \<longrightarrow> CI b6 = None"
      "CommitCertificateRoot (Header_of b6) \<noteq> []"
    using b6(1) ne by (auto simp: fill_cc_def CommitCertificate_Hash_def split: if_splits)
  then show ?thesis
    using b6(2) ne by (auto simp: filled_def fill_ctxs_def split: if_splits)
qed

lemma packageHash_Some: "\<exists>pkg. packageHash c H h = Some pkg"
  by (simp add: packageHash_def mustBytes_def)

lemma packageHash_cong:
  assumes "h' = h\<lparr>CrossShardRoot := x, h_hash := y, mkproof := z\<rparr>"
  shows "packageHash c H h' = packageHash c H h" "header_items pkg h' = header_items pkg h"
  by (simp_all add: assms packageHash_def header_items_def)

lemma calBlock_hash:
  assumes "fillInHeader c H b = Some b1" "packageHash c H (Header_of b1) = Some pkg"
  shows "\<exists>b'. calBlockHashAndProof c H b = Some b' \<and> h_hash (Header_of b') = HashFromByteSlices H (header_items pkg (Header_of b1))"
  using assms by (simp add: calBlockHashAndProof_def ProofsFromByteSlices_eq)

lemma decoded_hash:
  assumes "\<And>x. length (H x) = hash_size" "fillInHeader c H b = Some b1" "h_hash (Header_of b) = []"
  shows "map_option snd (Block_Hash c H (Some (stripped b1))) = map_option snd (Block_Hash c H (Some b))"
proof -
  have f: "fillInHeader c H (stripped b1) = Some (fill_cross H (stripped b1))"
    by (rule fill_filled, rule filled_stripped, rule fill_filled_roots [OF assms(1,2)])
  define x where "x = (if CrossShardTxs b1 = None then [] else Txs_Hash H (CrossShardTxs b1))"
  have h: "Header_of (fill_cross H (stripped b1)) = (Header_of b1)\<lparr>CrossShardRoot := x, h_hash := [], mkproof := []\<rparr>"
    by (simp add: fill_cross_def stripped_def x_def)
  obtain pkg where p: "packageHash c H (Header_of b1) = Some pkg" using packageHash_Some by blast
  have p': "packageHash c H (Header_of (fill_cross H (stripped b1))) = Some pkg" using packageHash_cong(1) [OF h] p by simp
  show ?thesis
    using calBlock_hash [OF assms(2) p] calBlock_hash [OF f p'] packageHash_cong(2) [OF h]
    by (auto simp: Block_Hash_def assms(3) stripped_def)
qed

section \<open>Authenticity of a message between shards\<close>

text \<open>The strings that the hash function is applied to when the message is checked against the block.\<close>

definition intention_inputs :: "hash_fn \<Rightarrow> bytes list \<Rightarrow> bytes \<Rightarrow> bytes set" where
  "intention_inputs H brief right = tree_inputs H brief \<union> tree_inputs H [IntentionBrief_Hash H brief, right]"

definition message_inputs :: "hash_fn \<Rightarrow> CrossShardMessage \<Rightarrow> bytes set" where
  "message_inputs H csm = (case csm_ProofOfIntention csm of None \<Rightarrow> {} | Some poi \<Rightarrow>
       intention_inputs H (csm_IntentionBrief csm) (RightHash poi) \<union>
       (case IntentionHashProof poi of None \<Rightarrow> {} | Some sp \<Rightarrow>
          proof_inputs H sp (HashFromByteSlices H [IntentionBrief_Hash H (csm_IntentionBrief csm), RightHash poi])))
     \<union> (case csm_OutputTxsProof csm of None \<Rightarrow> {} | Some otp \<Rightarrow>
       (case OPTProof otp of None \<Rightarrow> {} | Some op \<Rightarrow>
          proof_inputs H op (Txs_Hash H (OPTXs csm)) \<union>
          (case BlockProof otp of None \<Rightarrow> {} | Some bp \<Rightarrow> proof_inputs H bp (slice_bytes (ComputeRootHash H op)))))
     \<union> tree_inputs H (txs_list (OPTXs csm))"

definition block_inputs :: "block_codec \<Rightarrow> hash_fn \<Rightarrow> Block \<Rightarrow> bytes set" where
  "block_inputs c H b = tree_inputs H (block_items c H b) \<union> tree_inputs H (OPT b)
     \<union> (case CI b of None \<Rightarrow> {} | Some ci \<Rightarrow> intention_inputs H (IntentionHash ci) (rightHash ci))"

text \<open>A message whose proofs are for the places of the intention, of the outputs and of the output at an index.\<close>

definition placed_at :: "CrossShardMessage \<Rightarrow> nat \<Rightarrow> nat \<Rightarrow> bool" where
  "placed_at csm i n \<longleftrightarrow> (\<exists>poi sp otp bp op. csm_ProofOfIntention csm = Some poi \<and> IntentionHashProof poi = Some sp
     \<and> Total sp = 7 \<and> Index sp = 4 \<and> csm_OutputTxsProof csm = Some otp \<and> BlockProof otp = Some bp \<and> Total bp = 7 \<and> Index bp = 3
     \<and> OPTProof otp = Some op \<and> Total op = int n \<and> Index op = int i)"

lemma csm_sound:
  assumes len: "\<And>x. length (H x) = hash_size"
    and items: "length items = 7" "items ! 3 = HashFromByteSlices H opt"
      "items ! 4 = HashFromByteSlices H [IntentionBrief_Hash H brief, right]"
    and inj: "inj_on H (tree_inputs H items \<union> tree_inputs H opt \<union> intention_inputs H brief right \<union> message_inputs H csm)"
    and ok: "GetLastHash csm = Some (HashFromByteSlices H items)" "CrossShardMessage_ValidateBasic H csm = Some (Inr ())"
      "placed_at csm i (length opt)"
  shows "csm_IntentionBrief csm = brief \<and> i < length opt \<and> opt ! i = Txs_Hash H (OPTXs csm)"
proof -
  obtain poi sp otp bp op where p: "csm_ProofOfIntention csm = Some poi" "IntentionHashProof poi = Some sp"
     "Total sp = 7" "Index sp = 4" "csm_OutputTxsProof csm = Some otp" "BlockProof otp = Some bp" "Total bp = 7" "Index bp = 3"
     "OPTProof otp = Some op" "Total op = int (length opt)" "Index op = int i"
    using ok(3) by (auto simp: placed_at_def)
  let ?il = "HashFromByteSlices H [IntentionBrief_Hash H (csm_IntentionBrief csm), RightHash poi]"
  let ?or = "slice_bytes (ComputeRootHash H op)"
  have v: "Proof_Verify H sp (HashFromByteSlices H items) ?il = Inr ()" "Proof_Verify H op ?or (Txs_Hash H (OPTXs csm)) = Inr ()"
     "Proof_Verify H bp (HashFromByteSlices H items) ?or = Inr ()"
    using ok(1,2) by (auto simp: CrossShardMessage_ValidateBasic_def ProofOfIntention_Verify_def OutputTxsProof_Verify_def p Let_def
       split: sum.splits)
  have sub: "intention_inputs H (csm_IntentionBrief csm) (RightHash poi) \<subseteq> message_inputs H csm" "proof_inputs H sp ?il \<subseteq> message_inputs H csm"
    "proof_inputs H op (Txs_Hash H (OPTXs csm)) \<subseteq> message_inputs H csm" "proof_inputs H bp ?or \<subseteq> message_inputs H csm"
    by (auto simp: message_inputs_def p)
  have "items ! 4 = ?il"
    using Verify_sound [OF len v(1) inj_on_subset [OF inj]] sub p items(1) by force
  then have "[IntentionBrief_Hash H (csm_IntentionBrief csm), RightHash poi] = [IntentionBrief_Hash H brief, right]"
    using items(3) by (intro root_inj [of H, OF len]) (simp, rule inj_on_subset [OF inj], use sub in \<open>auto simp: intention_inputs_def\<close>)
  then have 1: "csm_IntentionBrief csm = brief" unfolding IntentionBrief_Hash_def
    by (intro root_inj [of H, OF len]) (simp, rule inj_on_subset [OF inj], use sub in \<open>auto simp: intention_inputs_def\<close>)
  have "items ! 3 = ?or"
    using Verify_sound [OF len v(3) inj_on_subset [OF inj]] sub p items(1) by force
  then have "Proof_Verify H op (HashFromByteSlices H opt) (Txs_Hash H (OPTXs csm)) = Inr ()" using v(2) items(2) by simp
  from Verify_sound [OF len this inj_on_subset [OF inj]] sub p have "int i < int (length opt) \<and> opt ! i = Txs_Hash H (OPTXs csm)"
    by auto
  then show ?thesis using 1 by simp
qed


lemma csm_of_block:
  assumes len: "\<And>x. length (H x) = hash_size"
    and b: "fresh_block b" "CI b = Some ci" "Block_Hash c H (Some b) = Some (Some b', root)"
    and inj: "inj_on H (block_inputs c H b' \<union> message_inputs H csm \<union> tree_inputs H (txs_list txs))"
    and ok: "GetLastHash csm = Some root" "CrossShardMessage_ValidateBasic H csm = Some (Inr ())"
      "placed_at csm i (length (OPT b))" "i < length (OPT b) \<Longrightarrow> OPT b ! i = Txs_Hash H txs"
  shows "csm_IntentionBrief csm = IntentionHash ci \<and> i < length (OPT b) \<and> txs_list (OPTXs csm) = txs_list txs"
proof -
  have cal: "calBlockHashAndProof c H b = Some b'" "root = h_hash (Header_of b')"
    using b(1,3) by (auto simp: Block_Hash_def fresh_block_def)
  define items where "items = block_items c H b'"
  obtain b1 where b1: "fillInHeader c H b = Some b1" "h_hash (Header_of b') = HashFromByteSlices H items"
    "mkproof (Header_of b') = map (honest_proof H items) [0..<7]" "length items = 7"
    "items ! 3 = OutputTxsRoot (Header_of b1)" "items ! 4 = CommitIntentionRoot (Header_of b1)"
    "OPT b' = OPT b1" "CI b' = CI b1" unfolding items_def by (rule calBlock_proofs [OF cal(1)])
  obtain ci' where f: "OPT b1 = OPT b" "OutputTxsRoot (Header_of b1) = HashFromByteSlices H (OPT b)" "CI b1 = Some ci'"
    "IntentionHash ci' = IntentionHash ci"
    "CommitIntentionRoot (Header_of b1) = HashFromByteSlices H [IntentionBrief_Hash H (IntentionHash ci), rightHash ci']"
    using fillInHeader_fresh [OF b(1,2) b1(1)] by blast
  have sub: "block_inputs c H b' = tree_inputs H items \<union> tree_inputs H (OPT b) \<union> intention_inputs H (IntentionHash ci) (rightHash ci')"
    by (simp add: block_inputs_def items_def b1(7,8) f(1,3,4))
  have "csm_IntentionBrief csm = IntentionHash ci \<and> i < length (OPT b) \<and> OPT b ! i = Txs_Hash H (OPTXs csm)"
  proof (rule csm_sound [of H, OF len b1(4)])
    show "items ! 3 = HashFromByteSlices H (OPT b)" using b1(5) f(2) by simp
    show "items ! 4 = HashFromByteSlices H [IntentionBrief_Hash H (IntentionHash ci), rightHash ci']" using b1(6) f(5) by simp
    show "GetLastHash csm = Some (HashFromByteSlices H items)" using ok(1) cal(2) b1(2) by simp
    show "inj_on H (tree_inputs H items \<union> tree_inputs H (OPT b) \<union> intention_inputs H (IntentionHash ci) (rightHash ci') \<union> message_inputs H csm)"
      by (rule inj_on_subset [OF inj]) (auto simp: sub)
  qed (rule ok)+
  moreover from this have "txs_list (OPTXs csm) = txs_list txs"
    using ok(4) unfolding Txs_Hash_def
    by (intro root_inj [of H, OF len]) (simp, rule inj_on_subset [OF inj], auto simp: message_inputs_def)
  ultimately show ?thesis by blast
qed


section \<open>What the block hash does not cover\<close>

text \<open>The block with other transaction lists and another root of the second one.\<close>

definition swap_txs :: "Txs \<Rightarrow> Txs \<Rightarrow> bytes \<Rightarrow> Block \<Rightarrow> Block" where
  "swap_txs p t r b = b\<lparr>Header_of := (Header_of b)\<lparr>CrossShardRoot := r\<rparr>, PTXS := p, CrossShardTxs := t\<rparr>"

lemma fill_swap:
  "PrepareRoot (Header_of b) \<noteq> [] \<Longrightarrow> fill_prepare H (swap_txs p t r b) = swap_txs p t r (fill_prepare H b)"
  "fill_cross H (swap_txs p t r b) = swap_txs p t (if length r = 0 \<and> t \<noteq> None then Txs_Hash H t else r) (fill_cross H b)"
  "fill_output H (swap_txs p t r b) = swap_txs p t r (fill_output H b)"
  "fill_agg c H (swap_txs p t r b) = swap_txs p t r (fill_agg c H b)" "fill_ci c H (swap_txs p t r b) = swap_txs p t r (fill_ci c H b)"
  "fill_cc H (swap_txs p t r b) = map_option (swap_txs p t r) (fill_cc H b)"
  "fill_ctxs H (swap_txs p t r b) = map_option (swap_txs p t r) (fill_ctxs H b)"
proof -
  show "fill_cross H (swap_txs p t r b) = swap_txs p t (if length r = 0 \<and> t \<noteq> None then Txs_Hash H t else r) (fill_cross H b)"
    by (cases t) (simp_all add: swap_txs_def fill_cross_def upd_header_def)
  show "fill_cc H (swap_txs p t r b) = map_option (swap_txs p t r) (fill_cc H b)"
    by (cases "CommitCertificate_Hash H (CC b)") (simp_all add: swap_txs_def fill_cc_def upd_header_def)
  show "fill_ctxs H (swap_txs p t r b) = map_option (swap_txs p t r) (fill_ctxs H b)"
    by (cases "map_or_panic (OutputTxsProof_Hash H) (CTXSProof b)") (simp_all add: swap_txs_def fill_ctxs_def upd_header_def)
qed (simp_all add: swap_txs_def fill_prepare_def fill_output_def fill_agg_def fill_ci_def upd_header_def case_prod_unfold Let_def
      split: option.split)

lemma fillInHeader_swap:
  "PrepareRoot (Header_of b) \<noteq> [] \<Longrightarrow> fillInHeader c H (swap_txs p t r b) =
     map_option (swap_txs p t (if length r = 0 \<and> t \<noteq> None then Txs_Hash H t else r)) (fillInHeader c H b)"
  by (simp add: fillInHeader_def fill_swap bind_map_option o_def map_option_bind)

lemma Block_Hash_swap:
  assumes "PrepareRoot (Header_of b) \<noteq> []"
  shows "map_option snd (Block_Hash c H (Some (swap_txs p t r b))) = map_option snd (Block_Hash c H (Some b))"
proof (cases "fillInHeader c H b")
  case None
  then show ?thesis by (simp add: Block_Hash_def calBlockHashAndProof_def fillInHeader_swap [OF assms]) (simp add: swap_txs_def)
next
  case (Some b1)
  let ?r = "if length r = 0 \<and> t \<noteq> None then Txs_Hash H t else r"
  have s: "fillInHeader c H (swap_txs p t r b) = Some (swap_txs p t ?r b1)" using Some fillInHeader_swap [OF assms] by simp
  have h: "Header_of (swap_txs p t ?r b1) = (Header_of b1)\<lparr>CrossShardRoot := ?r, h_hash := h_hash (Header_of b1), mkproof := mkproof (Header_of b1)\<rparr>"
    by (simp add: swap_txs_def)
  obtain pkg where p: "packageHash c H (Header_of b1) = Some pkg" using packageHash_Some by blast
  then have p': "packageHash c H (Header_of (swap_txs p t ?r b1)) = Some pkg" using packageHash_cong(1) [OF h] by simp
  show ?thesis
    using calBlock_hash [OF Some p] calBlock_hash [OF s p'] packageHash_cong(2) [OF h]
    by (auto simp: Block_Hash_def) (simp_all add: swap_txs_def)
qed

lemma swap_fields:
  "CI (swap_txs p t r b) = CI b" "CC (swap_txs p t r b) = CC b" "CTXS (swap_txs p t r b) = CTXS b"
  "CTXSProof (swap_txs p t r b) = CTXSProof b" "h_View (Header_of (swap_txs p t r b)) = h_View (Header_of b)"
  by (simp_all add: swap_txs_def)

lemma ValidateBasic_swap: "Block_ValidateBasic H (swap_txs p t r b) = Block_ValidateBasic H b"
  unfolding Block_ValidateBasic_def swap_fields ..

section \<open>Receipts\<close>

lemma options_from_panics: "k \<noteq> [] \<Longrightarrow> options_from i k [] m = None"
  by (cases k) (simp_all add: index_def)

lemma receipt_panics:
  assumes "opt_list (Options r) \<noteq> []"
  shows "NewABCIReceiptFromProto (Receipt_ToProto r) = None"
proof -
  have "sort (map fst (opt_list (Options r))) \<noteq> []" using assms by (metis length_0_conv length_map length_sort)
  then show ?thesis by (simp add: NewABCIReceiptFromProto_def Receipt_ToProto_def Let_def options_from_panics)
qed

lemma receipt_code_roundtrip:
  assumes "opt_list (Options r) = []" "- 128 \<le> r_code r" "r_code r < 128"
  shows "NewABCIReceiptFromProto (Receipt_ToProto r) = Some (r\<lparr>Options := Some []\<rparr>)"
  using assms by (simp add: NewABCIReceiptFromProto_def Receipt_ToProto_def ucast_word_of_int int_word_sint)

section \<open>A concrete block and message\<close>

text \<open>A 32-byte function without collisions on the strings of a table: the digest is the place in it.\<close>

definition digest :: "nat \<Rightarrow> bytes" where
  "digest i = word_of_int (int i) # replicate 31 0"

fun place :: "bytes \<Rightarrow> bytes list \<Rightarrow> nat" where
  "place x [] = 0"
| "place x (y # ys) = (if x = y then 0 else Suc (place x ys))"

definition table_hash :: "bytes list \<Rightarrow> hash_fn" where
  "table_hash T x = digest (place x T)"

lemma place_nth: "x \<in> set T \<Longrightarrow> place x T < length T \<and> T ! place x T = x"
  by (induction T) auto

lemma table_hash_length: "length (table_hash T x) = hash_size"
  by (simp add: table_hash_def digest_def hash_size_def)

lemma table_hash_inj: "length T \<le> 256 \<Longrightarrow> inj_on (table_hash T) (set T)"
proof (rule inj_onI)
  fix x y assume a: "length T \<le> 256" "x \<in> set T" "y \<in> set T" "table_hash T x = table_hash T y"
  then have "(word_of_int (int (place x T)) :: byte) = word_of_int (int (place y T))" by (simp add: table_hash_def digest_def)
  moreover have "place x T < 256" "place y T < 256" using a place_nth [of x T] place_nth [of y T] by auto
  ultimately have "place x T = place y T" by (simp add: of_nat_eq_iff word_of_nat_eq_iff take_bit_nat_eq_self)
  then show "x = y" using place_nth a(2,3) by metis
qed

definition sample_table :: "bytes list" where
  "sample_table =
  [[0, 7],
   [0] @ digest 0,
   [0, 9],
   [],
   [0] @ digest 2,
   [0] @ digest 3,
   [1] @ digest 4 @ digest 5,
   [1] @ digest 5 @ digest 5,
   [0, 97],
   [0, 0, 0, 0, 0, 0, 0, 0, 0],
   [1] @ digest 8 @ digest 9,
   [0, 0, 0, 0, 0],
   [0],
   [1] @ digest 11 @ digest 12,
   [1] @ digest 10 @ digest 13,
   [1] @ digest 12 @ digest 5,
   [1] @ digest 14 @ digest 15,
   [0] @ digest 16,
   [1] @ digest 17 @ digest 12,
   [0] @ digest 1,
   [1] @ digest 12 @ digest 19,
   [1] @ digest 18 @ digest 20,
   [0] @ digest 6,
   [0] @ digest 7,
   [1] @ digest 22 @ digest 23,
   [1] @ digest 24 @ digest 12,
   [1] @ digest 21 @ digest 25,
   [0, 1, 2],
   [0, 3],
   [1] @ digest 27 @ digest 28]"

definition sample_hash :: hash_fn where
  "sample_hash = table_hash sample_table"

definition sample_codec :: block_codec where
  "sample_codec = \<lparr>enc_agg = (\<lambda>_. []), enc_time = (\<lambda>_. [])\<rparr>"

definition sample_block :: Block where
  "sample_block = \<lparr>Header_of = \<lparr>HashPointer = [], h_ChainID = ''a'', h_View = 0, h_Round = 0, h_Time = (0, 0), PrepareRoot = [],
       CrossShardRoot = [], OutputTxsRoot = [], LastAggSigRoot = [], CommitIntentionRoot = [], CommitCertificateRoot = [],
       CommitTxsListRoot = [], StateRoot = [], h_hash = [], mkproof = []\<rparr>,
     PTXS = None, CrossShardTxs = None, OPT = [Txs_Hash sample_hash (Some [[7]])], AggSigVote = None,
     CI = Some \<lparr>IntentionHash = [[9]], AggregatedSignatures = [], rightHash = [], leftHash = []\<rparr>, CC = [], CTXS = [], CTXSProof = []\<rparr>"

definition sample_vote :: AggregatedVote where
  "sample_vote = \<lparr>a_Code = 1, a_View = 0, a_Round = 0, a_ForHash = [], a_ForNecessaryData = [digest 26], a_Sign = [], a_SignerIndexer = None\<rparr>"

definition sample_filled :: Block where
  "sample_filled = \<lparr>Header_of = \<lparr>HashPointer = [], h_ChainID = ''a'', h_View = 0, h_Round = 0, h_Time = (0, 0), PrepareRoot = [],
       CrossShardRoot = [], OutputTxsRoot = digest 1, LastAggSigRoot = [], CommitIntentionRoot = digest 6,
       CommitCertificateRoot = digest 3, CommitTxsListRoot = digest 7, StateRoot = [], h_hash = [], mkproof = []\<rparr>,
     PTXS = None, CrossShardTxs = None, OPT = [digest 0], AggSigVote = None,
     CI = Some \<lparr>IntentionHash = [[9]], AggregatedSignatures = [], rightHash = digest 3, leftHash = digest 2\<rparr>,
     CC = [], CTXS = [], CTXSProof = []\<rparr>"

definition sample_items :: "bytes list" where
  "sample_items = [digest 16, [], [], digest 1, digest 6, digest 7, []]"

definition sample_csm :: CrossShardMessage where
  "sample_csm = \<lparr>SourceChain = ''a'', csm_AggVote = Some sample_vote, csm_IntentionBrief = [[9]],
     csm_ProofOfIntention = Some \<lparr>IntentionHashProof = Some (honest_proof sample_hash sample_items 4), RightHash = digest 3\<rparr>,
     OPTXs = Some [[7]], csm_OutputTxsProof = Some \<lparr>BlockProof = Some (honest_proof sample_hash sample_items 3),
       OPTProof = Some (honest_proof sample_hash [digest 0] 0)\<rparr>\<rparr>"

lemma sample_hash_length: "length (sample_hash x) = hash_size"
  by (simp add: sample_hash_def table_hash_length)

lemma sample_table_inj: "inj_on sample_hash (set sample_table)"
  unfolding sample_hash_def by (rule table_hash_inj) (simp add: sample_table_def)

lemma sample_fresh: "fresh_block sample_block" "CI sample_block = Some \<lparr>IntentionHash = [[9]], AggregatedSignatures = [], rightHash = [], leftHash = []\<rparr>"
  by (simp_all add: fresh_block_def sample_block_def)

lemma sample_filled_eq: "fillInHeader sample_codec sample_hash sample_block = Some sample_filled"
  by code_simp

lemma sample_filled_items: "block_items sample_codec sample_hash sample_filled = sample_items"
  by code_simp

lemma sample_root: "HashFromByteSlices sample_hash sample_items = digest 26"
  by code_simp

lemma sample_inputs:
  "tree_inputs sample_hash sample_items \<subseteq> set sample_table" "tree_inputs sample_hash [digest 0] \<subseteq> set sample_table"
  "intention_inputs sample_hash [[9]] (digest 3) \<subseteq> set sample_table" "tree_inputs sample_hash [[7]] \<subseteq> set sample_table"
  by code_simp+

lemma sample_roots:
  "HashFromByteSlices sample_hash [digest 0] = digest 1" "HashFromByteSlices sample_hash [[7]] = digest 0"
  "HashFromByteSlices sample_hash [IntentionBrief_Hash sample_hash [[9]], digest 3] = digest 6"
  by code_simp+

lemma sample_hashed:
  obtains b' where "Block_Hash sample_codec sample_hash (Some sample_block) = Some (Some b', digest 26)"
    "block_inputs sample_codec sample_hash b' \<subseteq> set sample_table"
proof -
  obtain pkg where p: "packageHash sample_codec sample_hash (Header_of sample_filled) = Some pkg" using packageHash_Some by blast
  obtain b' where b': "calBlockHashAndProof sample_codec sample_hash sample_block = Some b'"
    using calBlock_hash [OF sample_filled_eq p] by blast
  obtain b1 where b1: "fillInHeader sample_codec sample_hash sample_block = Some b1"
    "h_hash (Header_of b') = HashFromByteSlices sample_hash (block_items sample_codec sample_hash b')"
    "block_items sample_codec sample_hash b' = block_items sample_codec sample_hash b1" "OPT b' = OPT b1" "CI b' = CI b1"
    using b' by (auto simp: calBlockHashAndProof_def bind_eq_Some_conv ProofsFromByteSlices_eq block_items_def packageHash_cached)
  have eq: "b1 = sample_filled" using b1(1) sample_filled_eq by simp
  show ?thesis
  proof (rule that)
    show "Block_Hash sample_codec sample_hash (Some sample_block) = Some (Some b', digest 26)"
      using b' b1(2,3) sample_fresh(1) by (simp add: Block_Hash_def fresh_block_def eq sample_filled_items sample_root)
    show "block_inputs sample_codec sample_hash b' \<subseteq> set sample_table"
      using sample_inputs by (simp add: block_inputs_def b1(3-5) eq sample_filled_items) (simp add: sample_filled_def)
  qed
qed

lemma sample_csm_inputs: "message_inputs sample_hash sample_csm \<subseteq> set sample_table"
proof -
  have i: "sample_items ! 3 = digest 1" "sample_items ! 4 = digest 6" "length sample_items = 7" by (simp_all add: sample_items_def)
  have r: "ComputeRootHash sample_hash (honest_proof sample_hash [digest 0] 0) = Some (digest 1)"
    using honest_root [of 0 "[digest 0]" sample_hash] sample_roots(1) by simp
  have "proof_inputs sample_hash (honest_proof sample_hash sample_items 4) (digest 6) \<subseteq> tree_inputs sample_hash sample_items"
    "proof_inputs sample_hash (honest_proof sample_hash sample_items 3) (digest 1) \<subseteq> tree_inputs sample_hash sample_items"
    "proof_inputs sample_hash (honest_proof sample_hash [digest 0] 0) (digest 0) \<subseteq> tree_inputs sample_hash [digest 0]"
    using honest_inputs [of 4 sample_items sample_hash] honest_inputs [of 3 sample_items sample_hash]
      honest_inputs [of 0 "[digest 0]" sample_hash] i by simp_all
  then show ?thesis
    using sample_inputs sample_roots r
    by (simp add: message_inputs_def sample_csm_def Txs_Hash_def txs_list_def slice_bytes_def) blast
qed

lemma sample_csm_valid:
  "CrossShardMessage_ValidateBasic sample_hash sample_csm = Some (Inr ())" "GetLastHash sample_csm = Some (digest 26)" "placed_at sample_csm 0 1"
proof -
  have i: "sample_items ! 3 = digest 1" "sample_items ! 4 = digest 6" "length sample_items = 7" by (simp_all add: sample_items_def)
  have v: "Proof_Verify sample_hash (honest_proof sample_hash sample_items 4) (digest 26) (digest 6) = Inr ()"
    "Proof_Verify sample_hash (honest_proof sample_hash sample_items 3) (digest 26) (digest 1) = Inr ()"
    "Proof_Verify sample_hash (honest_proof sample_hash [digest 0] 0) (digest 1) (digest 0) = Inr ()"
    using honest_proof_verifies [of 4 sample_items sample_hash] honest_proof_verifies [of 3 sample_items sample_hash]
      honest_proof_verifies [of 0 "[digest 0]" sample_hash] i sample_root sample_roots by simp_all
  have r: "ComputeRootHash sample_hash (honest_proof sample_hash [digest 0] 0) = Some (digest 1)"
    using honest_root [of 0 "[digest 0]" sample_hash] sample_roots(1) by simp
  show l: "GetLastHash sample_csm = Some (digest 26)"
    by (simp add: GetLastHash_def sample_csm_def GetLastHashOfAggVote_def sample_vote_def)
  show "CrossShardMessage_ValidateBasic sample_hash sample_csm = Some (Inr ())"
    unfolding CrossShardMessage_ValidateBasic_def l
    using v r sample_roots by (simp add: sample_csm_def ProofOfIntention_Verify_def OutputTxsProof_Verify_def Let_def Txs_Hash_def txs_list_def slice_bytes_def)
  show "placed_at sample_csm 0 1"
    using i(3) by (simp add: placed_at_def sample_csm_def honest_proof_def)
qed

section \<open>Properties\<close>

text \<open>
  C30: the message that a shard builds from the block it agreed on is accepted: for every place in
  the list of outputs, the proofs taken from the block pass the receiver's checks against the
  block hash, whatever place the receiver has.
\<close>

theorem honest_message_validates:
  assumes "fresh_block b" "CI b \<noteq> None" "Block_Hash c H (Some b) = Some (Some b', root)"
    and "GetLastHashOfAggVote sig = root" "i < length (OPT b)" "OPT b ! i = Txs_Hash H txs"
  shows "\<exists>csm. make_csm c H chain sig b' txs (int i) = Some csm \<and> CrossShardMessage_ValidateBasic H csm = Some (Inr ())"
  using assms by (rule honest_csm)

theorem honest_message_validates_witness:
  "\<exists>b' csm. Block_Hash sample_codec sample_hash (Some sample_block) = Some (Some b', digest 26)
     \<and> make_csm sample_codec sample_hash ''a'' sample_vote b' (Some [[7]]) (int 0) = Some csm
     \<and> CrossShardMessage_ValidateBasic sample_hash csm = Some (Inr ())"
proof -
  obtain b' where b': "Block_Hash sample_codec sample_hash (Some sample_block) = Some (Some b', digest 26)" by (rule sample_hashed)
  have "GetLastHashOfAggVote sample_vote = digest 26" "CI sample_block \<noteq> None" "0 < length (OPT sample_block)"
    "OPT sample_block ! 0 = Txs_Hash sample_hash (Some [[7]])"
    by (simp_all add: GetLastHashOfAggVote_def sample_vote_def sample_block_def)
  from honest_message_validates [OF sample_fresh(1) this(2) b' this(1,3,4), of "''a''"] b' show ?thesis by blast
qed

text \<open>
  C10: unless the hash function collides on the strings at hand, an accepted message whose proofs
  are for the places of the commit intention, of the outputs and of one output carries the
  intention brief of the block and exactly the transactions the block has at that place.
\<close>

theorem message_authentic:
  assumes "\<And>x. length (H x) = hash_size"
    and "fresh_block b" "CI b = Some ci" "Block_Hash c H (Some b) = Some (Some b', root)"
    and "inj_on H (block_inputs c H b' \<union> message_inputs H csm \<union> tree_inputs H (txs_list txs))"
    and "GetLastHash csm = Some root" "CrossShardMessage_ValidateBasic H csm = Some (Inr ())"
    and "placed_at csm i (length (OPT b))" "i < length (OPT b) \<Longrightarrow> OPT b ! i = Txs_Hash H txs"
  shows "csm_IntentionBrief csm = IntentionHash ci \<and> i < length (OPT b) \<and> txs_list (OPTXs csm) = txs_list txs"
  using assms by (rule csm_of_block)

theorem message_authentic_witness:
  "CrossShardMessage_ValidateBasic sample_hash sample_csm = Some (Inr ()) \<and> placed_at sample_csm 0 (length (OPT sample_block))
     \<and> csm_IntentionBrief sample_csm = [[9]] \<and> txs_list (OPTXs sample_csm) = txs_list (Some [[7]])"
proof -
  obtain b' where b': "Block_Hash sample_codec sample_hash (Some sample_block) = Some (Some b', digest 26)"
    "block_inputs sample_codec sample_hash b' \<subseteq> set sample_table" by (rule sample_hashed)
  have inj: "inj_on sample_hash (block_inputs sample_codec sample_hash b' \<union> message_inputs sample_hash sample_csm
      \<union> tree_inputs sample_hash (txs_list (Some [[7]])))"
    by (rule inj_on_subset [OF sample_table_inj]) (use b'(2) sample_csm_inputs sample_inputs(4) in \<open>simp add: txs_list_def\<close>)
  have o: "length (OPT sample_block) = 1" "OPT sample_block ! 0 = Txs_Hash sample_hash (Some [[7]])" by (simp_all add: sample_block_def)
  from message_authentic [OF sample_hash_length sample_fresh b'(1) inj sample_csm_valid(2,1), of 0] sample_csm_valid o
  show ?thesis by simp
qed

text \<open>
  C31: a block that goes through its message comes back as it was sent, its cached hashes and the
  one root that is not sent apart, and the receiver computes the hash the sender has.
\<close>

theorem decoded_block:
  assumes "\<And>x. length (H x) = hash_size" "h_hash (Header_of b) = []"
    and "Block_ToProto c H b = Some (b1, p)" "block_fits b1"
  shows "NewBlockFromProto p = Some (stripped b1)
     \<and> map_option snd (Block_Hash c H (Some (stripped b1))) = map_option snd (Block_Hash c H (Some b))"
  using Block_roundtrip [OF assms(3,4)] decoded_hash [of H c b b1] assms(1,2) by simp

theorem decoded_block_witness:
  "\<exists>p. Block_ToProto sample_codec sample_hash sample_block = Some (sample_filled, p) \<and> NewBlockFromProto p = Some (stripped sample_filled)
     \<and> map_option snd (Block_Hash sample_codec sample_hash (Some (stripped sample_filled))) = Some (digest 26)"
proof -
  obtain b' where b': "Block_Hash sample_codec sample_hash (Some sample_block) = Some (Some b', digest 26)" by (rule sample_hashed)
  obtain p where p: "Block_ToProto sample_codec sample_hash sample_block = Some (sample_filled, p)"
    by (simp add: Block_ToProto_def sample_filled_eq CommitCertificate_ToProto_def) (simp add: sample_filled_def)
  have f: "block_fits sample_filled" by (simp add: block_fits_def sample_filled_def)
  have "h_hash (Header_of sample_block) = []" by (simp add: sample_block_def)
  from decoded_block [OF sample_hash_length this p f] p b' show ?thesis by simp
qed

text \<open>
  Evaluating a commit certificate panics exactly when a brief is longer than the certificate;
  otherwise each position gets the first hash that a shard reports for it, and its error flag
  says that some shard reports another one.
\<close>

theorem Result_correct:
  "Result cc = (if list_ex (\<lambda>core. length cc < length (IntentionBrief core)) cc then None
     else Some (map (\<lambda>j. first_entry (column cc j)) [0..<length cc], map (\<lambda>j. conflicting (column cc j)) [0..<length cc]))"
  by (simp add: Result_eq summary_def)

text \<open>
  C38: the roots of a received block are taken as they are: replacing the proposed transactions of
  a block that has a root for them, and its cross-shard transactions and their root, changes
  neither the block hash nor the outcome of the validation.
\<close>

theorem hash_ignores_transactions:
  assumes "PrepareRoot (Header_of b) \<noteq> []"
  shows "map_option snd (Block_Hash c H (Some (swap_txs p t r b))) = map_option snd (Block_Hash c H (Some b))
     \<and> Block_ValidateBasic H (swap_txs p t r b) = Block_ValidateBasic H b"
  using Block_Hash_swap [OF assms] ValidateBasic_swap by simp

theorem hash_ignores_transactions_witness:
  "map_option snd (Block_Hash sample_codec sample_hash (Some (swap_txs (Some [[1], [2]]) None [] (upd_header (\<lambda>h. h\<lparr>PrepareRoot := [3]\<rparr>) sample_block))))
     = map_option snd (Block_Hash sample_codec sample_hash (Some (upd_header (\<lambda>h. h\<lparr>PrepareRoot := [3]\<rparr>) sample_block)))"
  using hash_ignores_transactions [of "upd_header (\<lambda>h. h\<lparr>PrepareRoot := [3]\<rparr>) sample_block" sample_codec sample_hash "Some [[1], [2]]" None "[]"]
  by simp

text \<open>
  A receipt with any option cannot be decoded: the values are written behind the keys, so the
  decoder indexes an empty list of values and panics. Without options the receipt comes back.
\<close>

theorem receipt_options_lost:
  "(opt_list (Options r) \<noteq> [] \<longrightarrow> NewABCIReceiptFromProto (Receipt_ToProto r) = None)
     \<and> (opt_list (Options r) = [] \<and> - 128 \<le> r_code r \<and> r_code r < 128 \<longrightarrow>
        NewABCIReceiptFromProto (Receipt_ToProto r) = Some (r\<lparr>Options := Some []\<rparr>))"
  using receipt_code_roundtrip receipt_panics by blast

theorem receipt_options_lost_witness:
  "NewABCIReceiptFromProto (Receipt_ToProto (SetRawTx \<lparr>r_code = 1, r_Log = [], r_info = [], Options = None\<rparr> [1])) = None
     \<and> NewABCIReceiptFromProto (Receipt_ToProto \<lparr>r_code = 1, r_Log = [], r_info = [], Options = None\<rparr>)
       = Some \<lparr>r_code = 1, r_Log = [], r_info = [], Options = Some []\<rparr>"
  using receipt_options_lost [of "SetRawTx \<lparr>r_code = 1, r_Log = [], r_info = [], Options = None\<rparr> [1]"]
    receipt_options_lost [of "\<lparr>r_code = 1, r_Log = [], r_info = [], Options = None\<rparr>"]
  by (simp add: SetRawTx_def opt_list_def)

end
