(* ===== verification/Part_Set.thy ===== *)
theory Part_Set
  imports Block_Proofs
begin

text \<open>
  Blocks in parts, \<open>src/source/urd/types/block-part.go\<close>, and the proposal that announces them,
  \<open>urd/consensus/constypes/proposal.go\<close>. A block is encoded, cut into parts, and every part
  carries a proof against the root in the header of the set; a receiver fills the slots of an
  empty set in the order in which parts arrive. The protobuf encoder and decoder of blocks are
  arguments. The lemmas show that the counter counts the filled slots, that a set filled in any
  order, with repetitions and rejected parts in between, holds the bytes of the sender, and that
  the receiver rebuilds the sender's block.
\<close>

section \<open>Parts\<close>

record wire =
  w_codec :: block_codec
  enc_Block :: "pb_Block \<Rightarrow> bytes"
  dec_Block :: "bytes \<Rightarrow> pb_Block option"

record Part =
  p_ChainID :: string
  p_View :: int
  p_Round :: int
  p_Bytes :: bytes
  p_Proof :: "Proof option"

datatype part_error =
    PartProofError proof_error | PartTotalOrChain
  | PartNegativeView | PartNegativeRound | PartEmptyBytes | PartEmptyChain
  | DuplicatedPart | PartViewMismatch | PartRoundMismatch | PartVerifyFailed part_error

text \<open>A nil proof panics wherever it is used: the outer option.\<close>

definition Part_Index :: "Part \<Rightarrow> int option" where
  "Part_Index p = map_option Index (p_Proof p)"

definition Part_Verify :: "hash_fn \<Rightarrow> Part \<Rightarrow> bytes \<Rightarrow> int \<Rightarrow> string \<Rightarrow> (part_error + unit) option" where
  "Part_Verify H p root tot chain = map_option (\<lambda>sp. case Proof_Verify H sp root (p_Bytes p) of
       Inl e \<Rightarrow> Inl (PartProofError e)
     | Inr _ \<Rightarrow> if tot \<noteq> Total sp \<or> chain \<noteq> p_ChainID p then Inl PartTotalOrChain else Inr ()) (p_Proof p)"

definition Part_ValidateBasic :: "Part \<Rightarrow> (part_error + unit) option" where
  "Part_ValidateBasic p =
     (if p_View p < 0 then Some (Inl PartNegativeView)
      else if p_Round p < 0 then Some (Inl PartNegativeRound)
      else if length (p_Bytes p) = 0 then Some (Inl PartEmptyBytes)
      else if length (p_ChainID p) = 0 then Some (Inl PartEmptyChain)
      else map_option (\<lambda>sp. case Proof_ValidateBasic sp of Inl e \<Rightarrow> Inl (PartProofError e) | Inr _ \<Rightarrow> Inr ()) (p_Proof p))"

record pb_Part =
  pb_p_View :: int
  pb_p_Round :: int
  pb_p_Bytes :: bytes
  pb_p_Proof :: "pb_Proof option"
  pb_p_ChainID :: string

definition Part_ToProto :: "Part \<Rightarrow> pb_Part option" where
  "Part_ToProto p = map_option (\<lambda>sp. \<lparr>pb_p_View = p_View p, pb_p_Round = p_Round p, pb_p_Bytes = p_Bytes p,
     pb_p_Proof = Some sp, pb_p_ChainID = p_ChainID p\<rparr>) (Proof_ToProto (p_Proof p))"

definition NewPartFromProto :: "pb_Part \<Rightarrow> Part option" where
  "NewPartFromProto pp = map_option (\<lambda>sp. \<lparr>p_ChainID = pb_p_ChainID pp, p_View = pb_p_View pp, p_Round = pb_p_Round pp,
     p_Bytes = pb_p_Bytes pp, p_Proof = Some sp\<rparr>) (NewProofFromProto (pb_p_Proof pp))"

section \<open>Headers and proposals\<close>

record PartSetHeader =
  psh_View :: int
  psh_Round :: int
  psh_Total :: int
  psh_Root :: bytes
  psh_ChainID :: string

record pb_PartSetHeader =
  pb_psh_Total :: int
  pb_psh_Root :: bytes
  pb_psh_View :: int
  pb_psh_Round :: int
  pb_psh_ChainID :: string

definition PartSetHeader_ToProto :: "PartSetHeader \<Rightarrow> pb_PartSetHeader" where
  "PartSetHeader_ToProto p = \<lparr>pb_psh_Total = psh_Total p, pb_psh_Root = psh_Root p, pb_psh_View = psh_View p,
     pb_psh_Round = psh_Round p, pb_psh_ChainID = psh_ChainID p\<rparr>"

definition NewPartSetHeaderFromProto :: "pb_PartSetHeader option \<Rightarrow> PartSetHeader option" where
  "NewPartSetHeaderFromProto p = map_option (\<lambda>p. \<lparr>psh_View = pb_psh_View p, psh_Round = pb_psh_Round p, psh_Total = pb_psh_Total p,
     psh_Root = pb_psh_Root p, psh_ChainID = pb_psh_ChainID p\<rparr>) p"

definition PartSetHeader_Equal :: "PartSetHeader \<Rightarrow> PartSetHeader \<Rightarrow> bool" where
  "PartSetHeader_Equal p other \<longleftrightarrow> psh_ChainID p = psh_ChainID other \<and> psh_View p = psh_View other \<and> psh_Round p = psh_Round other
     \<and> psh_Total p = psh_Total other \<and> psh_Root p = psh_Root other"

datatype header_error =
    HeaderView | HeaderRound | HeaderTotal | HeaderChain | HeaderRoot | ProposerNegative | ProposalHashSize

definition PartSetHeader_ValidateBasic :: "PartSetHeader \<Rightarrow> header_error + unit" where
  "PartSetHeader_ValidateBasic p =
     (if psh_View p < 0 then Inl HeaderView
      else if psh_Round p < 0 then Inl HeaderRound
      else if psh_Total p < 0 then Inl HeaderTotal
      else if length (psh_ChainID p) = 0 then Inl HeaderChain
      else if length (psh_Root p) \<noteq> hash_size then Inl HeaderRoot
      else Inr ())"

record Proposal =
  pr_Header :: PartSetHeader
  pr_ProposerIndex :: int
  pr_BlockHeaderHash :: bytes
  pr_Signature :: string

definition NewProposal :: "PartSetHeader \<Rightarrow> int \<Rightarrow> bytes \<Rightarrow> Proposal" where
  "NewProposal header proposer_index blockHeaderHash =
     \<lparr>pr_Header = header, pr_ProposerIndex = proposer_index, pr_BlockHeaderHash = blockHeaderHash, pr_Signature = []\<rparr>"

record pb_Proposal =
  pb_pr_Header :: "pb_PartSetHeader option"
  pb_pr_ProposerIndex :: "32 word"
  pb_pr_BlockHeaderHash :: bytes
  pb_pr_Signature :: string

definition Proposal_ToProto :: "Proposal \<Rightarrow> pb_Proposal" where
  "Proposal_ToProto p = \<lparr>pb_pr_Header = Some (PartSetHeader_ToProto (pr_Header p)), pb_pr_ProposerIndex = word_of_int (pr_ProposerIndex p),
     pb_pr_BlockHeaderHash = pr_BlockHeaderHash p, pb_pr_Signature = pr_Signature p\<rparr>"

text \<open>What is signed: the proposal without its signature, encoded by the argument.\<close>

definition Proposal_SignBytes :: "(pb_Proposal \<Rightarrow> bytes) \<Rightarrow> Proposal \<Rightarrow> bytes" where
  "Proposal_SignBytes marshal p = marshal \<lparr>pb_pr_Header = Some (PartSetHeader_ToProto (pr_Header p)),
     pb_pr_ProposerIndex = word_of_int (pr_ProposerIndex p), pb_pr_BlockHeaderHash = pr_BlockHeaderHash p, pb_pr_Signature = []\<rparr>"

text \<open>A message without header panics.\<close>

definition NewProposalFromProto :: "pb_Proposal \<Rightarrow> Proposal option" where
  "NewProposalFromProto p = map_option (\<lambda>h. \<lparr>pr_Header = h, pr_ProposerIndex = sint (pb_pr_ProposerIndex p),
     pr_BlockHeaderHash = pb_pr_BlockHeaderHash p, pr_Signature = pb_pr_Signature p\<rparr>) (NewPartSetHeaderFromProto (pb_pr_Header p))"

definition Proposal_ValidateBasic :: "Proposal \<Rightarrow> header_error + unit" where
  "Proposal_ValidateBasic p =
     (if pr_ProposerIndex p < 0 then Inl ProposerNegative
      else if length (pr_BlockHeaderHash p) \<noteq> hash_size then Inl ProposalHashSize
      else PartSetHeader_ValidateBasic (pr_Header p))"

section \<open>Part sets\<close>

record PartSet =
  ps_Header :: PartSetHeader
  Parts :: "Part option list"
  ps_count :: int
  ps_BlockHeaderHash :: bytes

text \<open>Allocating a slice of negative length panics.\<close>

definition NewPartSet :: "PartSetHeader \<Rightarrow> bytes \<Rightarrow> PartSet option" where
  "NewPartSet h headerHash = (if psh_Total h < 0 then None
     else Some \<lparr>ps_Header = h, Parts = replicate (nat (psh_Total h)) None, ps_count = 0, ps_BlockHeaderHash = headerHash\<rparr>)"

text \<open>The block is returned as well: encoding and hashing it fills its roots and caches.\<close>

definition PartSetFromBlock :: "wire \<Rightarrow> hash_fn \<Rightarrow> Block \<Rightarrow> int \<Rightarrow> int \<Rightarrow> (Block \<times> PartSet) option" where
  "PartSetFromBlock w H b maxPartSize round = do {
     (b1, p) \<leftarrow> Block_ToProto (w_codec w) H b;
     bzList \<leftarrow> SplitByteArray (enc_Block w p) maxPartSize;
     (hs, proofs) \<leftarrow> ProofsFromByteSlices H bzList;
     let chainid = h_ChainID (Header_of b1);
     let view = h_View (Header_of b1);
     let parts = map (\<lambda>(bz, sp). \<lparr>p_ChainID = chainid, p_View = view, p_Round = round, p_Bytes = bz, p_Proof = Some sp\<rparr>) (zip bzList proofs);
     (b2, hash) \<leftarrow> Block_Hash (w_codec w) H (Some b1);
     b3 \<leftarrow> b2;
     Some (b3, \<lparr>ps_Header = \<lparr>psh_View = view, psh_Round = round, psh_Total = int (length parts), psh_Root = hs, psh_ChainID = chainid\<rparr>,
        Parts = map Some parts, ps_count = int (length parts), ps_BlockHeaderHash = hash\<rparr>) }"

definition AddPart :: "hash_fn \<Rightarrow> PartSet \<Rightarrow> Part \<Rightarrow> (part_error + PartSet) option" where
  "AddPart H ps p = do {
     i \<leftarrow> Part_Index p;
     dup \<leftarrow> (if i < psh_Total (ps_Header ps) then map_option (\<lambda>slot. slot \<noteq> None) (index (Parts ps) i) else Some False);
     if dup then Some (Inl DuplicatedPart)
     else if psh_View (ps_Header ps) \<noteq> p_View p then Some (Inl PartViewMismatch)
     else if psh_Round (ps_Header ps) \<noteq> p_Round p then Some (Inl PartRoundMismatch)
     else do {
       r \<leftarrow> Part_Verify H p (psh_Root (ps_Header ps)) (psh_Total (ps_Header ps)) (psh_ChainID (ps_Header ps));
       (case r of
          Inl e \<Rightarrow> Some (Inl (PartVerifyFailed e))
        | Inr _ \<Rightarrow> if 0 \<le> i \<and> i < int (length (Parts ps))
            then Some (Inr (ps\<lparr>Parts := (Parts ps)[nat i := Some p], ps_count := ps_count ps + 1\<rparr>)) else None) } }"

definition ps_IsComplete :: "PartSet \<Rightarrow> bool" where
  "ps_IsComplete ps \<longleftrightarrow> psh_Total (ps_Header ps) = ps_count ps"

datatype gen_error = GenDecode | GenChain | GenView | GenBlock_error block_error | GenHash

text \<open>
  The bytes of the parts in a slice of \<open>count\<close> elements; a missing part, and a slot behind the end
  of the slice, panic.
\<close>

definition join_parts :: "PartSet \<Rightarrow> bytes option" where
  "join_parts ps = (if int (length (Parts ps)) > ps_count ps then None
     else map_option concat (map_or_panic (map_option p_Bytes) (Parts ps)))"

text \<open>
  The result is the pair of block and error. An incomplete set gives neither; the last two
  errors come with the block.
\<close>

definition GenBlock :: "wire \<Rightarrow> hash_fn \<Rightarrow> PartSet \<Rightarrow> (Block option \<times> gen_error option) option" where
  "GenBlock w H ps =
     (if \<not> ps_IsComplete ps then Some (None, None)
      else do {
        bz \<leftarrow> join_parts ps;
        (case dec_Block w bz of
           None \<Rightarrow> Some (None, Some GenDecode)
         | Some p \<Rightarrow> do {
             block \<leftarrow> NewBlockFromProto p;
             if h_ChainID (Header_of block) \<noteq> psh_ChainID (ps_Header ps) then Some (None, Some GenChain)
             else if h_View (Header_of block) \<noteq> psh_View (ps_Header ps) then Some (None, Some GenView)
             else do {
               v \<leftarrow> Block_ValidateBasic H block;
               (case v of
                  Inl e \<Rightarrow> Some (Some block, Some (GenBlock_error e))
                | Inr _ \<Rightarrow> do {
                    (block', hash) \<leftarrow> Block_Hash (w_codec w) H (Some block);
                    Some (block', if hash \<noteq> ps_BlockHeaderHash ps then Some GenHash else None) }) } }) })"


section \<open>Collecting parts\<close>

lemma map_or_panic_nth:
  "length xs = length ys \<Longrightarrow> (\<And>i. i < length xs \<Longrightarrow> f (xs ! i) = Some (ys ! i)) \<Longrightarrow> map_or_panic f xs = Some ys"
proof (induction xs ys rule: list_induct2)
  case (Cons x xs y ys)
  have "f x = Some y" "\<And>i. i < length xs \<Longrightarrow> f (xs ! i) = Some (ys ! i)" using Cons.prems [of 0] Cons.prems [of "Suc _"] by simp_all
  then show ?case using Cons.IH by simp
qed simp

text \<open>
  The contract of a set of slots that is filled part by part: a part that fits a slot is stored
  there unless the slot is taken, any other part leaves the slots alone.
\<close>

locale part_collector =
  fixes add :: "'s \<Rightarrow> 'p \<Rightarrow> 's"
    and slots :: "'s \<Rightarrow> 'p option list"
    and fits :: "'s \<Rightarrow> 'p \<Rightarrow> nat \<Rightarrow> bool"
    and ok :: "'s \<Rightarrow> bool"
  assumes fits_bound: "fits s p i \<Longrightarrow> i < length (slots s)"
    and fits_add: "ok s \<Longrightarrow> fits (add s p) q i = fits s q i"
    and add_fit: "ok s \<Longrightarrow> fits s p i \<Longrightarrow> slots (add s p) = (if slots s ! i = None then (slots s)[i := Some p] else slots s)"
    and add_unfit: "ok s \<Longrightarrow> (\<And>i. \<not> fits s p i) \<Longrightarrow> slots (add s p) = slots s"
    and add_ok: "ok s \<Longrightarrow> ok (add s p)"
begin

lemma add_length: "ok s \<Longrightarrow> length (slots (add s p)) = length (slots s)"
proof (cases "\<exists>i. fits s p i")
  case True
  assume "ok s"
  moreover obtain i where "fits s p i" using True by blast
  ultimately show ?thesis by (simp add: add_fit [of s p i])
qed (simp add: add_unfit)

lemma add_keeps: "ok s \<Longrightarrow> slots s ! i = Some q \<Longrightarrow> slots (add s p) ! i = Some q"
proof -
  assume a: "ok s" "slots s ! i = Some q"
  show ?thesis
  proof (cases "\<exists>j. fits s p j")
    case True
    then obtain j where "fits s p j" by blast
    from add_fit [OF a(1) this] a(2) show ?thesis by (cases "i = j") (auto split: if_splits)
  qed (use a add_unfit [of s p] in auto)
qed

lemma deliver_ok: "ok s \<Longrightarrow> ok (foldl add s ps) \<and> length (slots (foldl add s ps)) = length (slots s) \<and> fits (foldl add s ps) = fits s"
proof (induction ps arbitrary: s)
  case (Cons p ps)
  have "fits (add s p) = fits s" by (intro ext) (rule fits_add [OF Cons.prems])
  then show ?case using Cons.IH [OF add_ok [OF Cons.prems], of p] add_length [OF Cons.prems, of p] by simp
qed simp

lemma deliver_keeps: "ok s \<Longrightarrow> slots s ! i = Some q \<Longrightarrow> slots (foldl add s ps) ! i = Some q"
  by (induction ps arbitrary: s) (simp_all add: add_ok add_keeps)

text \<open>A slot is filled once a part that fits it has been delivered, in whatever order.\<close>

lemma deliver_fills: "ok s \<Longrightarrow> p \<in> set ps \<Longrightarrow> fits s p i \<Longrightarrow> slots (foldl add s ps) ! i \<noteq> None"
proof (induction ps arbitrary: s)
  case (Cons a ps)
  show ?case
  proof (cases "p = a")
    case True
    have "i < length (slots s)" using fits_bound [OF Cons.prems(3)] .
    then have "\<exists>q. slots (add s a) ! i = Some q"
      using add_fit [OF Cons.prems(1), of a i] Cons.prems(3) True by (cases "slots s ! i") auto
    then obtain q where "slots (add s a) ! i = Some q" by blast
    from deliver_keeps [OF add_ok [OF Cons.prems(1)] this, of ps] show ?thesis by simp
  next
    case False
    then show ?thesis using Cons.IH [OF add_ok [OF Cons.prems(1)], of a] Cons.prems fits_add [OF Cons.prems(1)] by simp
  qed
qed simp

lemma deliver_all: "ok s \<Longrightarrow> (\<And>i. i < length (slots s) \<Longrightarrow> \<exists>p \<in> set ps. fits s p i) \<Longrightarrow> None \<notin> set (slots (foldl add s ps))"
proof
  assume a: "ok s" "\<And>i. i < length (slots s) \<Longrightarrow> \<exists>p \<in> set ps. fits s p i" "None \<in> set (slots (foldl add s ps))"
  then obtain i where i: "i < length (slots s)" "slots (foldl add s ps) ! i = None"
    using deliver_ok [OF a(1), of ps] by (auto simp: in_set_conv_nth)
  with a(2) [OF i(1)] deliver_fills [OF a(1)] show False by blast
qed

text \<open>What fills an empty slot fits it and was delivered.\<close>

lemma deliver_source: "ok s \<Longrightarrow> i < length (slots s) \<Longrightarrow> slots s ! i = None \<Longrightarrow> slots (foldl add s ps) ! i = Some q \<Longrightarrow> q \<in> set ps \<and> fits s q i"
proof (induction ps arbitrary: s)
  case (Cons a ps)
  show ?case
  proof (cases "slots (add s a) ! i")
    case None
    then show ?thesis
      using Cons.IH [OF add_ok [OF Cons.prems(1)], of a] Cons.prems add_length [OF Cons.prems(1)] fits_add [OF Cons.prems(1)] by simp
  next
    case (Some q')
    have "q' = q" using deliver_keeps [OF add_ok [OF Cons.prems(1)] Some, of ps] Cons.prems(4) by simp
    moreover have "fits s a i \<and> q' = a"
    proof (cases "\<exists>j. fits s a j")
      case True
      then obtain j where j: "fits s a j" by blast
      have "i = j" using add_fit [OF Cons.prems(1) j] Some Cons.prems(3) by (cases "i = j") (auto split: if_splits)
      then show ?thesis using add_fit [OF Cons.prems(1) j] Some Cons.prems(2,3) j by simp
    next
      case False
      then have "slots (add s a) = slots s" by (intro add_unfit [OF Cons.prems(1)]) blast
      then show ?thesis using Some Cons.prems(3) by simp
    qed
    ultimately show ?thesis by simp
  qed
qed simp

text \<open>A full set that started empty holds, slot by slot, the contents that fitting parts have.\<close>

lemma deliver_contents:
  assumes "ok s" "slots s = replicate (length bzs) None" "None \<notin> set (slots (foldl add s ps))"
    and "\<And>p i. p \<in> set ps \<Longrightarrow> fits s p i \<Longrightarrow> content p = bzs ! i"
  shows "map_or_panic (map_option content) (slots (foldl add s ps)) = Some bzs"
proof -
  have len: "length (slots (foldl add s ps)) = length bzs" using deliver_ok [OF assms(1), of ps] assms(2) by simp
  show ?thesis
  proof (rule map_or_panic_nth [OF len])
    fix i assume "i < length (slots (foldl add s ps))"
    then have i: "i < length bzs" "slots (foldl add s ps) ! i \<in> set (slots (foldl add s ps))" using len by simp_all
    then obtain q where q: "slots (foldl add s ps) ! i = Some q" using assms(3) by (cases "slots (foldl add s ps) ! i") auto
    then have "q \<in> set ps \<and> fits s q i" by (intro deliver_source [OF assms(1)]) (simp_all add: assms(2) i)
    then show "map_option content (slots (foldl add s ps) ! i) = Some (bzs ! i)" using assms(4) q by auto
  qed
qed

end


section \<open>The set of parts of a block\<close>

text \<open>The part passes every check of \<open>AddPart\<close> for the slot.\<close>

definition part_fits :: "hash_fn \<Rightarrow> PartSet \<Rightarrow> Part \<Rightarrow> nat \<Rightarrow> bool" where
  "part_fits H ps p i \<longleftrightarrow> i < length (Parts ps) \<and> psh_View (ps_Header ps) = p_View p \<and> psh_Round (ps_Header ps) = p_Round p
     \<and> Part_Index p = Some (int i)
     \<and> Part_Verify H p (psh_Root (ps_Header ps)) (psh_Total (ps_Header ps)) (psh_ChainID (ps_Header ps)) = Some (Inr ())"

fun taken :: "'a option \<Rightarrow> bool" where
  "taken None = False"
| "taken (Some x) = True"

definition wf_slots :: "PartSet \<Rightarrow> bool" where
  "wf_slots ps \<longleftrightarrow> psh_Total (ps_Header ps) = int (length (Parts ps))
     \<and> ps_count ps = int (length (filter taken (Parts ps)))"

text \<open>The set after a part was offered: an error leaves it as it is.\<close>

definition offer :: "hash_fn \<Rightarrow> PartSet \<Rightarrow> Part \<Rightarrow> PartSet" where
  "offer H ps p = (case AddPart H ps p of Some (Inr ps') \<Rightarrow> ps' | _ \<Rightarrow> ps)"

lemma AddPart_cases:
  assumes "wf_slots ps" "AddPart H ps p = Some (Inr ps')"
  obtains i where "part_fits H ps p i" "Parts ps ! i = None"
    "ps' = ps\<lparr>Parts := (Parts ps)[i := Some p], ps_count := ps_count ps + 1\<rparr>"
proof -
  obtain i where i: "Part_Index p = Some i" using assms(2) by (auto simp: AddPart_def bind_eq_Some_conv)
  let ?dup = "if i < psh_Total (ps_Header ps) then map_option (\<lambda>slot. slot \<noteq> None) (index (Parts ps) i) else Some False"
  let ?v = "Part_Verify H p (psh_Root (ps_Header ps)) (psh_Total (ps_Header ps)) (psh_ChainID (ps_Header ps))"
  have dup: "?dup = Some False" and hd: "psh_View (ps_Header ps) = p_View p" "psh_Round (ps_Header ps) = p_Round p"
    using assms(2) unfolding AddPart_def i by (auto simp: bind_eq_Some_conv split: if_splits)
  obtain r where r: "?v = Some r" using assms(2) hd unfolding AddPart_def i by (auto simp: bind_eq_Some_conv split: if_splits)
  have v: "?v = Some (Inr ())" and b: "0 \<le> i" "i < int (length (Parts ps))"
    and ps': "ps' = ps\<lparr>Parts := (Parts ps)[nat i := Some p], ps_count := ps_count ps + 1\<rparr>"
    using assms(2) hd r unfolding AddPart_def i Option.bind.bind_lunit dup by (cases r; auto split: if_splits)+
  have "Parts ps ! nat i = None" using dup b assms(1) by (simp add: wf_slots_def index_def)
  with hd v b ps' i show ?thesis by (intro that [of "nat i"]) (simp_all add: part_fits_def)
qed

lemma AddPart_fits:
  assumes "wf_slots ps" "part_fits H ps p i"
  shows "AddPart H ps p = Some (if Parts ps ! i = None then Inr (ps\<lparr>Parts := (Parts ps)[i := Some p], ps_count := ps_count ps + 1\<rparr>)
     else Inl DuplicatedPart)"
  using assms by (auto simp: AddPart_def part_fits_def wf_slots_def index_def)

lemma filter_fill: "i < length xs \<Longrightarrow> xs ! i = None \<Longrightarrow>
    length (filter taken (xs[i := Some x])) = Suc (length (filter taken xs))"
proof (induction xs arbitrary: i)
  case (Cons y ys)
  then show ?case by (cases i) auto
qed simp

lemma offer_wf: "wf_slots ps \<Longrightarrow> wf_slots (offer H ps p) \<and> ps_Header (offer H ps p) = ps_Header ps
    \<and> ps_BlockHeaderHash (offer H ps p) = ps_BlockHeaderHash ps \<and> length (Parts (offer H ps p)) = length (Parts ps)"
proof (cases "\<exists>ps'. AddPart H ps p = Some (Inr ps')")
  case True
  assume wf: "wf_slots ps"
  obtain ps' where ps': "AddPart H ps p = Some (Inr ps')" using True by blast
  obtain i where i: "part_fits H ps p i" "Parts ps ! i = None"
    "ps' = ps\<lparr>Parts := (Parts ps)[i := Some p], ps_count := ps_count ps + 1\<rparr>" by (rule AddPart_cases [OF wf ps'])
  have "i < length (Parts ps)" using i(1) by (simp add: part_fits_def)
  then show ?thesis using wf ps' i(2,3) by (simp add: offer_def wf_slots_def filter_fill)
qed (auto simp: offer_def split: option.split sum.split)

interpretation parts: part_collector "offer H" Parts "part_fits H" wf_slots for H
proof unfold_locales
  fix s p i
  show "part_fits H s p i \<Longrightarrow> i < length (Parts s)" by (simp add: part_fits_def)
next
  fix s p q i assume "wf_slots s"
  then show "part_fits H (offer H s p) q i = part_fits H s q i" using offer_wf [of s H p] by (simp add: part_fits_def)
next
  fix s p i assume "wf_slots s" "part_fits H s p i"
  then show "Parts (offer H s p) = (if Parts s ! i = None then (Parts s)[i := Some p] else Parts s)"
    by (simp add: offer_def AddPart_fits)
next
  fix s p assume wf: "wf_slots s" and un: "\<And>i. \<not> part_fits H s p i"
  have "\<not> (\<exists>s'. AddPart H s p = Some (Inr s'))" using AddPart_cases [OF wf] un by blast
  then show "Parts (offer H s p) = Parts s" by (auto simp: offer_def split: option.split sum.split)
next
  fix s p assume "wf_slots s"
  then show "wf_slots (offer H s p)" by (simp add: offer_wf)
qed

text \<open>Validated parts never make \<open>AddPart\<close> panic.\<close>

lemma AddPart_total:
  assumes "wf_slots ps" "psh_Root (ps_Header ps) \<noteq> []" "Part_ValidateBasic p = Some (Inr ())"
  shows "AddPart H ps p \<noteq> None"
proof -
  obtain sp where sp: "p_Proof p = Some sp" "0 \<le> Index sp"
    using assms(3) by (auto simp: Part_ValidateBasic_def Proof_ValidateBasic_def split: if_splits)
  let ?v = "Part_Verify H p (psh_Root (ps_Header ps)) (psh_Total (ps_Header ps)) (psh_ChainID (ps_Header ps))"
  obtain r where r: "?v = Some r" using sp(1) by (simp add: Part_Verify_def)
  show ?thesis
  proof (cases "Index sp < psh_Total (ps_Header ps)")
    case True
    then show ?thesis using sp assms(1) r
      by (cases r) (auto simp: AddPart_def Part_Index_def wf_slots_def index_def)
  next
    case False
    have "\<exists>e. r = Inl e"
    proof (cases "Total sp = psh_Total (ps_Header ps)")
      case True
      then have "ComputeRootHash H sp = None" using False by (simp add: ComputeRootHash_def computeHashFromAunts.simps [of H "Index sp"])
      then have "\<exists>e. Proof_Verify H sp (psh_Root (ps_Header ps)) (p_Bytes p) = Inl e" using assms(2) by (simp add: Proof_Verify_def slice_bytes_def)
      then show ?thesis using r sp(1) by (auto simp: Part_Verify_def)
    next
      case neq: False
      then show ?thesis using r sp(1) by (auto simp: Part_Verify_def split: sum.splits)
    qed
    then show ?thesis using sp False r by (auto simp: AddPart_def Part_Index_def)
  qed
qed


text \<open>A sequence of parts from the network; \<open>None\<close> is a panic, errors are reported and dropped.\<close>

fun deliver :: "hash_fn \<Rightarrow> PartSet \<Rightarrow> Part list \<Rightarrow> PartSet option" where
  "deliver H ps [] = Some ps"
| "deliver H ps (p # parts) = (case AddPart H ps p of
      None \<Rightarrow> None
    | Some (Inl e) \<Rightarrow> deliver H ps parts
    | Some (Inr ps') \<Rightarrow> deliver H ps' parts)"

lemma deliver_offers:
  assumes "wf_slots ps" "psh_Root (ps_Header ps) \<noteq> []" "list_all (\<lambda>p. Part_ValidateBasic p = Some (Inr ())) parts"
  shows "deliver H ps parts = Some (foldl (offer H) ps parts)"
  using assms
proof (induction parts arbitrary: ps)
  case (Cons p parts)
  have "deliver H ps (p # parts) = deliver H (offer H ps p) parts"
    using AddPart_total [of ps p H] Cons.prems by (auto simp: offer_def split: option.split sum.split)
  then show ?case using Cons.IH [of "offer H ps p"] Cons.prems offer_wf [of ps H p] by simp
qed simp

lemma deliver_header:
  "wf_slots ps \<Longrightarrow> ps_Header (foldl (offer H) ps parts) = ps_Header ps \<and> ps_BlockHeaderHash (foldl (offer H) ps parts) = ps_BlockHeaderHash ps"
  by (induction parts arbitrary: ps) (simp_all add: offer_wf)

lemma filter_taken: "length (filter taken xs) = length xs \<longleftrightarrow> None \<notin> set xs"
proof (cases "None \<in> set xs")
  case True
  then show ?thesis using length_filter_less [of None xs taken] by simp
next
  case False
  then have "filter taken xs = xs" by (intro filter_True) (metis taken.elims(3))
  then show ?thesis using False by simp
qed

lemma complete_iff: "wf_slots ps \<Longrightarrow> ps_IsComplete ps \<longleftrightarrow> None \<notin> set (Parts ps)"
  unfolding filter_taken [symmetric] wf_slots_def ps_IsComplete_def by (elim conjE) (simp only: of_nat_eq_iff, rule eq_commute)

lemma wf_NewPartSet: "NewPartSet h hash = Some ps \<Longrightarrow> wf_slots ps \<and> ps_Header ps = h \<and> ps_BlockHeaderHash ps = hash
    \<and> Parts ps = replicate (nat (psh_Total h)) None"
  by (auto simp: NewPartSet_def wf_slots_def split: if_splits)

definition honest_part :: "hash_fn \<Rightarrow> PartSetHeader \<Rightarrow> bytes list \<Rightarrow> nat \<Rightarrow> Part" where
  "honest_part H h bzs i = \<lparr>p_ChainID = psh_ChainID h, p_View = psh_View h, p_Round = psh_Round h, p_Bytes = bzs ! i,
     p_Proof = Some (honest_proof H bzs i)\<rparr>"

lemma PartSetFromBlock_eq:
  assumes "PartSetFromBlock w H b sz round = Some (b', sent)" "0 < sz"
  obtains b1 p bzs where "Block_ToProto (w_codec w) H b = Some (b1, p)" "bzs = chunks (nat sz) (enc_Block w p)"
    "ps_Header sent = \<lparr>psh_View = h_View (Header_of b1), psh_Round = round, psh_Total = int (length bzs),
       psh_Root = HashFromByteSlices H bzs, psh_ChainID = h_ChainID (Header_of b1)\<rparr>"
    "Parts sent = map (\<lambda>i. Some (honest_part H (ps_Header sent) bzs i)) [0..<length bzs]"
    "Block_Hash (w_codec w) H (Some b1) = Some (Some b', ps_BlockHeaderHash sent)"
proof -
  obtain b1 p where bp: "Block_ToProto (w_codec w) H b = Some (b1, p)"
    using assms(1) by (auto simp: PartSetFromBlock_def bind_eq_Some_conv)
  define bzs where "bzs = chunks (nat sz) (enc_Block w p)"
  have zip: "zip bzs (map (honest_proof H bzs) [0..<length bzs]) = map (\<lambda>i. (bzs ! i, honest_proof H bzs i)) [0..<length bzs]"
    by (rule nth_equalityI) simp_all
  let ?parts = "map (\<lambda>i. \<lparr>p_ChainID = h_ChainID (Header_of b1), p_View = h_View (Header_of b1), p_Round = round, p_Bytes = bzs ! i,
      p_Proof = Some (honest_proof H bzs i)\<rparr>) [0..<length bzs]"
  have "PartSetFromBlock w H b sz round = Option.bind (Block_Hash (w_codec w) H (Some b1)) (\<lambda>(b2, hash). Option.bind b2 (\<lambda>b3.
      Some (b3, \<lparr>ps_Header = \<lparr>psh_View = h_View (Header_of b1), psh_Round = round, psh_Total = int (length bzs),
          psh_Root = HashFromByteSlices H bzs, psh_ChainID = h_ChainID (Header_of b1)\<rparr>,
        Parts = map Some ?parts, ps_count = int (length bzs), ps_BlockHeaderHash = hash\<rparr>)))"
    by (simp add: PartSetFromBlock_def bp SplitByteArray_chunks [OF assms(2)] bzs_def [symmetric] ProofsFromByteSlices_eq zip o_def Let_def)
  then obtain hash where h: "Block_Hash (w_codec w) H (Some b1) = Some (Some b', hash)"
    and sent: "sent = \<lparr>ps_Header = \<lparr>psh_View = h_View (Header_of b1), psh_Round = round, psh_Total = int (length bzs),
          psh_Root = HashFromByteSlices H bzs, psh_ChainID = h_ChainID (Header_of b1)\<rparr>,
        Parts = map Some ?parts, ps_count = int (length bzs), ps_BlockHeaderHash = hash\<rparr>"
    unfolding assms(1) by (auto simp: bind_eq_Some_conv eq_commute [of "Some (b', sent)"])
  show ?thesis by (rule that [OF bp bzs_def]) (simp_all add: sent h honest_part_def)
qed

lemma honest_part_fits:
  assumes "ps_Header ps = h" "psh_Total h = int (length bzs)" "psh_Root h = HashFromByteSlices H bzs" "length (Parts ps) = length bzs"
    "i < length bzs"
  shows "part_fits H ps (honest_part H h bzs i) i"
  using assms honest_proof_verifies [OF assms(5), of H]
  by (simp add: part_fits_def honest_part_def Part_Index_def Part_Verify_def) (simp add: honest_proof_def)

text \<open>No collision among the strings hashed for the sender's list and for the proof of the part.\<close>

definition part_binding :: "hash_fn \<Rightarrow> bytes list \<Rightarrow> Part \<Rightarrow> bool" where
  "part_binding H bzs p \<longleftrightarrow> (case p_Proof p of None \<Rightarrow> True | Some sp \<Rightarrow> no_collision H bzs sp (p_Bytes p))"

lemma fits_bytes:
  assumes "part_fits H ps p i" "part_binding H bzs p" "psh_Root (ps_Header ps) = HashFromByteSlices H bzs" "psh_Total (ps_Header ps) = int (length bzs)"
  shows "i < length bzs \<and> p_Bytes p = bzs ! i"
proof -
  obtain sp where sp: "p_Proof p = Some sp" "Index sp = int i" using assms(1) by (auto simp: part_fits_def Part_Index_def)
  have "Proof_Verify H sp (HashFromByteSlices H bzs) (p_Bytes p) = Inr ()" "Total sp = int (length bzs)"
    using assms(1,3,4) sp(1) by (auto simp: part_fits_def Part_Verify_def split: sum.splits if_splits)
  then have "0 \<le> Index sp \<and> Index sp < int (length bzs) \<and> bzs ! nat (Index sp) = p_Bytes p"
    using merkle.sound [of H bzs sp "p_Bytes p"] assms(2) sp(1) by (simp add: part_binding_def)
  then show ?thesis using sp(2) by simp
qed


text \<open>Whatever parts are offered, a complete set holds the bytes that its root commits to.\<close>

lemma collected_bytes:
  assumes new: "NewPartSet h hash = Some ps0" "psh_Total h = int (length bzs)" "psh_Root h = HashFromByteSlices H bzs"
    and bind: "list_all (part_binding H bzs) parts" and full: "ps_IsComplete (foldl (offer H) ps0 parts)"
  shows "join_parts (foldl (offer H) ps0 parts) = Some (concat bzs)"
proof -
  let ?ps = "foldl (offer H) ps0 parts"
  have e: "wf_slots ps0" "ps_Header ps0 = h" "Parts ps0 = replicate (length bzs) None"
    using wf_NewPartSet [OF new(1)] new(2) by simp_all
  have ok: "wf_slots ?ps" "length (Parts ?ps) = length bzs" using parts.deliver_ok [OF e(1), of H parts] e(3) by simp_all
  have full': "None \<notin> set (Parts ?ps)" using complete_iff [OF ok(1)] full by simp
  have "map_or_panic (map_option p_Bytes) (Parts ?ps) = Some bzs"
  proof (rule parts.deliver_contents [OF e(1,3) full'])
    fix p i assume "p \<in> set parts" "part_fits H ps0 p i"
    then show "p_Bytes p = bzs ! i" using fits_bytes [of H ps0 p i bzs] bind new(2,3) e(2) by (auto simp: list_all_iff)
  qed
  moreover have "ps_count ?ps = int (length bzs)" using full ok by (simp add: ps_IsComplete_def wf_slots_def)
  ultimately show ?thesis using ok(2) by (simp add: join_parts_def)
qed

text \<open>The fields that identify a block survive the computation of its roots.\<close>

definition same_id :: "Block \<Rightarrow> Block \<Rightarrow> bool" where
  "same_id b b' \<longleftrightarrow> h_ChainID (Header_of b') = h_ChainID (Header_of b) \<and> h_View (Header_of b') = h_View (Header_of b)
     \<and> h_hash (Header_of b') = h_hash (Header_of b)"

lemma same_id_trans: "same_id a b \<Longrightarrow> same_id b c \<Longrightarrow> same_id a c"
  by (simp add: same_id_def)

lemma fill_same_id:
  "same_id b (fill_prepare H b)" "same_id b (fill_cross H b)" "same_id b (fill_output H b)" "same_id b (fill_agg c H b)"
  "same_id b (fill_ci c H b)" "fill_cc H b = Some b' \<Longrightarrow> same_id b b'" "fill_ctxs H b = Some b' \<Longrightarrow> same_id b b'"
  by (auto simp: same_id_def fill_prepare_def fill_cross_def fill_output_def fill_agg_def fill_ci_def fill_cc_def fill_ctxs_def
      split: option.splits prod.splits if_splits)

lemma fillInHeader_same_id:
  assumes "fillInHeader c H b = Some b'"
  shows "same_id b b'"
proof -
  let ?b5 = "fill_ci c H (fill_agg c H (fill_output H (fill_cross H (fill_prepare H b))))"
  obtain b6 where b6: "fill_cc H ?b5 = Some b6" "fill_ctxs H b6 = Some b'" using assms by (auto simp: fillInHeader_def bind_eq_Some_conv)
  have "same_id b ?b5"
    by (rule same_id_trans [OF same_id_trans [OF same_id_trans [OF same_id_trans [OF fill_same_id(1) fill_same_id(2)] fill_same_id(3)]
      fill_same_id(4)] fill_same_id(5)])
  then show ?thesis by (rule same_id_trans [OF same_id_trans [OF _ fill_same_id(6) [OF b6(1)]] fill_same_id(7) [OF b6(2)]])
qed

text \<open>Hashing the encoded block gives the receiver's hash as well.\<close>

lemma filled_hash:
  assumes "\<And>x. length (H x) = hash_size" "fillInHeader c H b = Some b1" "h_hash (Header_of b) = []"
  shows "map_option snd (Block_Hash c H (Some (stripped b1))) = map_option snd (Block_Hash c H (Some b1))"
proof -
  have f: "fillInHeader c H b1 = Some (fill_cross H b1)" by (rule fill_filled, rule fill_filled_roots [OF assms(1,2)])
  have "h_hash (Header_of b1) = []" using fillInHeader_same_id [OF assms(2)] assms(3) by (simp add: same_id_def)
  moreover have "stripped (fill_cross H b1) = stripped b1" by (simp add: stripped_def fill_cross_def upd_header_def)
  ultimately show ?thesis using decoded_hash [of H, OF assms(1) f] by simp
qed

lemma rebuilt_block:
  assumes len: "\<And>x. length (H x) = hash_size" and hash: "h_hash (Header_of b) = []"
    and enc: "Block_ToProto (w_codec w) H b = Some (b1, p)" "dec_Block w (enc_Block w p) = Some p" "block_fits b1"
    and valid: "Block_ValidateBasic H (stripped b1) = Some (Inr ())"
    and join: "join_parts ps = Some (enc_Block w p)" "ps_IsComplete ps"
    and hd: "psh_ChainID (ps_Header ps) = h_ChainID (Header_of b1)" "psh_View (ps_Header ps) = h_View (Header_of b1)"
      "Block_Hash (w_codec w) H (Some b1) = Some (Some b', ps_BlockHeaderHash ps)"
  shows "\<exists>b2. Block_Hash (w_codec w) H (Some (stripped b1)) = Some (Some b2, ps_BlockHeaderHash ps) \<and> GenBlock w H ps = Some (Some b2, None)"
proof -
  note rt = Block_roundtrip [OF enc(1,3)]
  have id: "h_ChainID (Header_of (stripped b1)) = h_ChainID (Header_of b1)" "h_View (Header_of (stripped b1)) = h_View (Header_of b1)"
    by (simp_all add: stripped_def)
  have "map_option snd (Block_Hash (w_codec w) H (Some (stripped b1))) = Some (ps_BlockHeaderHash ps)"
    using filled_hash [of H, OF len _ hash] rt hd(3) by simp
  then obtain b2 where b2: "Block_Hash (w_codec w) H (Some (stripped b1)) = Some (Some b2, ps_BlockHeaderHash ps)"
    by (auto simp: Block_Hash_def split: if_splits)
  show ?thesis using rt b2 id hd(1,2) by (simp add: GenBlock_def join enc(2) valid)
qed


lemma delivered_complete:
  assumes new: "NewPartSet (ps_Header sent) (ps_BlockHeaderHash sent) = Some ps0"
    and sent: "psh_Total (ps_Header sent) = int (length bzs)" "psh_Root (ps_Header sent) = HashFromByteSlices H bzs"
      "Parts sent = map (\<lambda>i. Some (honest_part H (ps_Header sent) bzs i)) [0..<length bzs]"
    and all: "set (Parts sent) \<subseteq> Some ` set parts"
  shows "ps_IsComplete (foldl (offer H) ps0 parts)"
proof -
  have e: "wf_slots ps0" "ps_Header ps0 = ps_Header sent" "Parts ps0 = replicate (length bzs) None"
    using wf_NewPartSet [OF new] sent(1) by simp_all
  have "None \<notin> set (Parts (foldl (offer H) ps0 parts))"
  proof (rule parts.deliver_all [OF e(1)])
    fix i assume "i < length (Parts ps0)"
    then have i: "i < length bzs" by (simp add: e(3))
    then have "Some (honest_part H (ps_Header sent) bzs i) \<in> set (Parts sent)" by (simp add: sent(3))
    then have "honest_part H (ps_Header sent) bzs i \<in> set parts" using all by auto
    moreover have "part_fits H ps0 (honest_part H (ps_Header sent) bzs i) i"
      by (rule honest_part_fits) (simp_all add: e i sent)
    ultimately show "\<exists>p \<in> set parts. part_fits H ps0 p i" by blast
  qed
  then show ?thesis using complete_iff parts.deliver_ok [OF e(1), of H parts] by blast
qed

text \<open>
  Once every part of a block has arrived, in any order, repeated, and mixed with validated parts of
  anyone else, the set is complete and gives the sender's block, with its hash and no error.
\<close>

lemma parts_rebuild_block:
  assumes "\<And>x. length (H x) = hash_size" "h_hash (Header_of b) = []" "0 < sz"
    and "PartSetFromBlock w H b sz round = Some (b', sent)"
    and "Block_ToProto (w_codec w) H b = Some (b1, p)" "dec_Block w (enc_Block w p) = Some p" "block_fits b1"
    and "Block_ValidateBasic H (stripped b1) = Some (Inr ())"
    and "NewPartSet (ps_Header sent) (ps_BlockHeaderHash sent) = Some ps0"
    and "set (Parts sent) \<subseteq> Some ` set parts"
    and "list_all (\<lambda>q. Part_ValidateBasic q = Some (Inr ())) parts"
    and "list_all (part_binding H (chunks (nat sz) (enc_Block w p))) parts"
  shows "\<exists>ps b2. deliver H ps0 parts = Some ps \<and> ps_IsComplete ps \<and> GenBlock w H ps = Some (Some b2, None)
     \<and> Block_Hash (w_codec w) H (Some (stripped b1)) = Some (Some b2, ps_BlockHeaderHash sent)"
proof -
  let ?bzs = "chunks (nat sz) (enc_Block w p)"
  have s: "ps_Header sent = \<lparr>psh_View = h_View (Header_of b1), psh_Round = round, psh_Total = int (length ?bzs),
       psh_Root = HashFromByteSlices H ?bzs, psh_ChainID = h_ChainID (Header_of b1)\<rparr>"
    "Parts sent = map (\<lambda>i. Some (honest_part H (ps_Header sent) ?bzs i)) [0..<length ?bzs]"
    "Block_Hash (w_codec w) H (Some b1) = Some (Some b', ps_BlockHeaderHash sent)"
    by (rule PartSetFromBlock_eq [OF assms(4,3)], use assms(5) in simp)+
  have t: "psh_Total (ps_Header sent) = int (length ?bzs)" "psh_Root (ps_Header sent) = HashFromByteSlices H ?bzs" by (simp_all add: s(1))
  let ?ps = "foldl (offer H) ps0 parts"
  have e: "wf_slots ps0" "ps_Header ps0 = ps_Header sent" "ps_BlockHeaderHash ps0 = ps_BlockHeaderHash sent"
    using wf_NewPartSet [OF assms(9)] by simp_all
  have d: "deliver H ps0 parts = Some ?ps"
    by (rule deliver_offers [OF e(1) _ assms(11)]) (simp add: e(2) t(2) Hash_nonempty [of H, OF assms(1)])
  have c: "ps_IsComplete ?ps" by (rule delivered_complete [OF assms(9) t s(2) assms(10)])
  have "join_parts ?ps = Some (concat ?bzs)" by (rule collected_bytes [OF assms(9) t assms(12) c])
  then have j: "join_parts ?ps = Some (enc_Block w p)" using assms(3) by (simp add: concat_chunks)
  have h: "ps_Header ?ps = ps_Header sent" "ps_BlockHeaderHash ?ps = ps_BlockHeaderHash sent" using deliver_header [OF e(1), of H parts] e by simp_all
  have "\<exists>b2. Block_Hash (w_codec w) H (Some (stripped b1)) = Some (Some b2, ps_BlockHeaderHash ?ps) \<and> GenBlock w H ?ps = Some (Some b2, None)"
    by (rule rebuilt_block [OF assms(1,2,5-8) j c, of b']) (simp_all add: h s)
  then show ?thesis unfolding h(2) using d c by blast
qed

section \<open>A concrete set of parts\<close>

definition sample_pb :: pb_Block where
  "sample_pb = snd (the (Block_ToProto sample_codec sample_hash sample_block))"

definition sample_wire :: wire where
  "sample_wire = \<lparr>w_codec = sample_codec, enc_Block = (\<lambda>_. [1, 2, 3]), dec_Block = (\<lambda>_. Some sample_pb)\<rparr>"

definition sample_header :: PartSetHeader where
  "sample_header = \<lparr>psh_View = 0, psh_Round = 0, psh_Total = 2, psh_Root = digest 29, psh_ChainID = ''a''\<rparr>"

definition sample_part :: "nat \<Rightarrow> Part" where
  "sample_part i = honest_part sample_hash sample_header [[1, 2], [3]] i"

text \<open>The parts in reverse order, one of them twice, and one for another view in between.\<close>

definition sample_parts :: "Part list" where
  "sample_parts = [sample_part 1, (sample_part 0)\<lparr>p_View := 5\<rparr>, sample_part 1, sample_part 0]"

lemma sample_pb_eq: "Block_ToProto sample_codec sample_hash sample_block = Some (sample_filled, sample_pb)"
proof -
  obtain p where "Block_ToProto sample_codec sample_hash sample_block = Some (sample_filled, p)"
    by (simp add: Block_ToProto_def sample_filled_eq CommitCertificate_ToProto_def) (simp add: sample_filled_def)
  then show ?thesis by (simp add: sample_pb_def)
qed

lemma sample_chunks: "chunks 2 [1, 2, 3 :: byte] = [[1, 2], [3]]"
  by code_simp

lemma sample_parts_root: "HashFromByteSlices sample_hash [[1, 2], [3]] = digest 29"
  by code_simp

lemma sample_filled_hash:
  obtains b' where "Block_Hash sample_codec sample_hash (Some sample_filled) = Some (Some b', digest 26)"
proof -
  have f: "fillInHeader sample_codec sample_hash sample_filled = Some sample_filled"
    using fill_filled [OF fill_filled_roots [OF sample_hash_length sample_filled_eq], of sample_codec sample_hash]
    by (simp add: fill_cross_def sample_filled_def)
  obtain pkg where p: "packageHash sample_codec sample_hash (Header_of sample_filled) = Some pkg" using packageHash_Some by blast
  have "header_items pkg (Header_of sample_filled) = sample_items" using sample_filled_items p by (simp add: block_items_def)
  then obtain b' where "calBlockHashAndProof sample_codec sample_hash sample_filled = Some b'" "h_hash (Header_of b') = digest 26"
    using calBlock_hash [OF f p] sample_root by auto
  moreover have "h_hash (Header_of sample_filled) = []" by (simp add: sample_filled_def)
  ultimately show ?thesis by (intro that [of b']) (simp add: Block_Hash_def)
qed

lemma sample_sent:
  obtains b' sent where "PartSetFromBlock sample_wire sample_hash sample_block 2 0 = Some (b', sent)" "ps_Header sent = sample_header"
    "Parts sent = [Some (sample_part 0), Some (sample_part 1)]" "ps_BlockHeaderHash sent = digest 26"
proof -
  obtain b' where b': "Block_Hash sample_codec sample_hash (Some sample_filled) = Some (Some b', digest 26)" by (rule sample_filled_hash)
  have n: "nat 2 = 2" by simp
  show ?thesis
    by (rule that [of b' "\<lparr>ps_Header = sample_header, Parts = [Some (sample_part 0), Some (sample_part 1)], ps_count = 2, ps_BlockHeaderHash = digest 26\<rparr>"])
      (simp_all add: PartSetFromBlock_def sample_wire_def sample_pb_eq SplitByteArray_chunks n sample_chunks ProofsFromByteSlices_eq
        b' sample_part_def honest_part_def sample_header_def sample_parts_root Let_def, simp_all add: sample_filled_def)
qed

lemma sample_parts_valid: "list_all (\<lambda>p. Part_ValidateBasic p = Some (Inr ())) sample_parts"
proof -
  have "Part_ValidateBasic (sample_part 0) = Some (Inr ())" "Part_ValidateBasic (sample_part 1) = Some (Inr ())"
    "Part_ValidateBasic ((sample_part 0)\<lparr>p_View := 5\<rparr>) = Some (Inr ())" by code_simp+
  then show ?thesis by (simp add: sample_parts_def)
qed

lemma sample_parts_binding: "list_all (part_binding sample_hash [[1, 2], [3]]) sample_parts"
proof -
  have t: "tree_inputs sample_hash [[1, 2], [3]] \<subseteq> set sample_table" by code_simp
  have "no_collision sample_hash [[1, 2], [3]] (honest_proof sample_hash [[1, 2], [3]] i) ([[1, 2], [3]] ! i)" if "i < 2" for i
    unfolding no_collision_def
    by (intro conjI allI sample_hash_length inj_on_subset [OF sample_table_inj])
      (use t honest_inputs [of i "[[1, 2], [3]]" sample_hash] that in auto)
  from this [of 0] this [of 1] show ?thesis
    by (simp add: sample_parts_def part_binding_def sample_part_def honest_part_def)
qed

lemma sample_new: "NewPartSet sample_header (digest 26) =
    Some \<lparr>ps_Header = sample_header, Parts = [None, None], ps_count = 0, ps_BlockHeaderHash = digest 26\<rparr>"
  by (simp add: NewPartSet_def sample_header_def numeral_2_eq_2)

section \<open>Properties\<close>

text \<open>
  C32: a set that starts empty under a header with a root stays well formed whatever validated
  parts are offered: nothing panics, the counter is the number of taken slots, it is complete
  exactly when no slot is empty, and a taken slot holds an offered part that passes every check
  for this slot.
\<close>

theorem part_set_well_formed:
  assumes "NewPartSet h hash = Some ps0" "PartSetHeader_ValidateBasic h = Inr ()"
    and "list_all (\<lambda>p. Part_ValidateBasic p = Some (Inr ())) parts"
  shows "\<exists>ps. deliver H ps0 parts = Some ps \<and> ps_Header ps = h \<and> length (Parts ps) = nat (psh_Total h)
     \<and> ps_count ps = int (length (filter taken (Parts ps))) \<and> (ps_IsComplete ps \<longleftrightarrow> None \<notin> set (Parts ps))
     \<and> (\<forall>i q. i < length (Parts ps) \<and> Parts ps ! i = Some q \<longrightarrow> q \<in> set parts \<and> part_fits H ps q i)"
proof -
  have e: "wf_slots ps0" "ps_Header ps0 = h" "Parts ps0 = replicate (nat (psh_Total h)) None" using wf_NewPartSet [OF assms(1)] by simp_all
  have "psh_Root (ps_Header ps0) \<noteq> []" using assms(2) e(2) by (auto simp: PartSetHeader_ValidateBasic_def hash_size_def split: if_splits)
  note d = deliver_offers [OF e(1) this assms(3), of H]
  let ?ps = "foldl (offer H) ps0 parts"
  note ok = parts.deliver_ok [OF e(1), of H parts]
  have "q \<in> set parts \<and> part_fits H ?ps q i" if "i < length (Parts ?ps)" "Parts ?ps ! i = Some q" for i q
    using parts.deliver_source [OF e(1), of i H parts q] that ok e(3) by simp
  then have "\<forall>i q. i < length (Parts ?ps) \<and> Parts ?ps ! i = Some q \<longrightarrow> q \<in> set parts \<and> part_fits H ?ps q i" by blast
  moreover have "ps_count ?ps = int (length (filter taken (Parts ?ps)))" using ok by (simp add: wf_slots_def)
  ultimately show ?thesis using d deliver_header [OF e(1), of H parts] ok complete_iff [of ?ps] e(2,3) by simp
qed

theorem part_set_well_formed_witness:
  "\<exists>ps0 ps. NewPartSet sample_header (digest 26) = Some ps0 \<and> deliver sample_hash ps0 sample_parts = Some ps
     \<and> ps_count ps = int (length (filter taken (Parts ps)))"
proof -
  have "PartSetHeader_ValidateBasic sample_header = Inr ()"
    by (simp add: PartSetHeader_ValidateBasic_def sample_header_def digest_def hash_size_def)
  from part_set_well_formed [OF sample_new this sample_parts_valid, of sample_hash] sample_new show ?thesis by blast
qed

text \<open>
  When the hash function does not collide on the strings at hand, a complete set holds the
  bytes that the root commits to, whatever parts from the network filled it.
\<close>

theorem complete_set_bytes:
  assumes "NewPartSet h hash = Some ps0" "psh_Total h = int (length bzs)" "psh_Root h = HashFromByteSlices H bzs"
    and "list_all (part_binding H bzs) parts" "list_all (\<lambda>p. Part_ValidateBasic p = Some (Inr ())) parts"
    and "psh_Root h \<noteq> []" "deliver H ps0 parts = Some ps" "ps_IsComplete ps"
  shows "join_parts ps = Some (concat bzs)"
proof -
  have e: "wf_slots ps0" "ps_Header ps0 = h" using wf_NewPartSet [OF assms(1)] by simp_all
  then have "ps = foldl (offer H) ps0 parts" using deliver_offers [OF e(1) _ assms(5), of H] assms(6,7) by simp
  then show ?thesis using collected_bytes [OF assms(1-4)] assms(8) by simp
qed

theorem complete_set_bytes_witness:
  "\<exists>ps0 ps. NewPartSet sample_header (digest 26) = Some ps0 \<and> deliver sample_hash ps0 sample_parts = Some ps
     \<and> ps_IsComplete ps \<and> join_parts ps = Some [1, 2, 3]"
proof -
  obtain b' sent where "PartSetFromBlock sample_wire sample_hash sample_block 2 0 = Some (b', sent)" and s: "ps_Header sent = sample_header"
    "Parts sent = [Some (sample_part 0), Some (sample_part 1)]" "ps_BlockHeaderHash sent = digest 26" by (rule sample_sent)
  have h: "psh_Total sample_header = int (length [[1, 2], [3 :: byte]])" "psh_Root sample_header = HashFromByteSlices sample_hash [[1, 2], [3]]"
    "psh_Root sample_header \<noteq> []"
    by (simp_all add: sample_header_def sample_parts_root digest_def)
  define ps0 where "ps0 = \<lparr>ps_Header = sample_header, Parts = [None, None], ps_count = 0, ps_BlockHeaderHash = digest 26\<rparr>"
  have n: "NewPartSet sample_header (digest 26) = Some ps0" unfolding ps0_def by (rule sample_new)
  have d: "deliver sample_hash ps0 sample_parts = Some (foldl (offer sample_hash) ps0 sample_parts)"
    by (rule deliver_offers [OF _ _ sample_parts_valid]) (use wf_NewPartSet [OF n] h(3) in simp_all)
  have c: "ps_IsComplete (foldl (offer sample_hash) ps0 sample_parts)"
    by (rule delivered_complete [where sent = sent and bzs = "[[1, 2], [3]]"])
      (use n s h in \<open>simp_all add: sample_part_def sample_parts_def\<close>)
  from complete_set_bytes [OF n h(1,2) sample_parts_binding sample_parts_valid h(3) d c] n d c show ?thesis by auto
qed

end
