(* ===== verification/Block_Pool.thy ===== *)
theory Block_Pool
  imports Part_Set "HOL-Library.AList"
begin

text \<open>
  The blocks that a validator is collecting, \<open>src/source/urd/consensus/block_datas.go\<close>: part sets
  and early parts by view and round, the messages of the other shards for this view and the two
  before. A Go map is an association list with distinct keys. The maps are never nil after
  \<open>NewBlockData\<close>. Operations return the new state with the error, and \<open>None\<close> for a panic.
\<close>

section \<open>Maps of maps\<close>

type_synonym 'a view_map = "(int \<times> (int \<times> 'a) list) list"

definition inner :: "'a view_map \<Rightarrow> int \<Rightarrow> (int \<times> 'a) list" where
  "inner m v = (case map_of m v of None \<Rightarrow> [] | Some rs \<Rightarrow> rs)"

definition lookup2 :: "'a view_map \<Rightarrow> int \<Rightarrow> int \<Rightarrow> 'a option" where
  "lookup2 m v r = map_of (inner m v) r"

definition update2 :: "int \<Rightarrow> int \<Rightarrow> 'a \<Rightarrow> 'a view_map \<Rightarrow> 'a view_map" where
  "update2 v r x m = AList.update v (AList.update r x (inner m v)) m"

text \<open>The two loops of \<open>prune\<close>: a view whose last round is deleted goes as well.\<close>

definition prune_map :: "int \<Rightarrow> int \<Rightarrow> 'a view_map \<Rightarrow> 'a view_map" where
  "prune_map view round m =
     filter (\<lambda>(v, rs). \<not> (v = view \<and> rs = []))
       (map (\<lambda>(v, rs). (v, if v = view then filter (\<lambda>(r, _). \<not> r < round) rs else rs))
         (filter (\<lambda>(v, _). \<not> v < view) m))"

section \<open>Operations\<close>

record BlockData =
  retainView :: int
  retainRound :: int
  blocks :: "PartSet view_map"
  retainBlockParts :: "Part list view_map"
  lastHash :: "(string \<times> bytes) list"
  finished :: "(string \<times> CrossShardMessage) list"
  j_1finished :: "(string \<times> CrossShardMessage) list"
  j_2finished :: "(string \<times> CrossShardMessage) list"
  j_cross_shard_txs :: "Txs list"
  j_1_cross_shard_txs :: "Txs list"
  j_2_cross_shard_txs :: "Txs list"

datatype bd_error =
    OldPartSetHeader | OldPartSet | OldPart | PartSetExists | NoPartSet | BadPart part_error | NoBlock

definition NewBlockData :: "int \<Rightarrow> int \<Rightarrow> (string \<times> bytes) list \<Rightarrow> (string \<times> CrossShardMessage) list \<Rightarrow> BlockData" where
  "NewBlockData view round lh fin = \<lparr>retainView = view, retainRound = round, blocks = [], retainBlockParts = [], lastHash = lh,
     finished = fin, j_1finished = [], j_2finished = [], j_cross_shard_txs = [], j_1_cross_shard_txs = [], j_2_cross_shard_txs = []\<rparr>"

definition old :: "BlockData \<Rightarrow> int \<Rightarrow> int \<Rightarrow> bool" where
  "old bd v r \<longleftrightarrow> v < retainView bd \<or> (v = retainView bd \<and> r < retainRound bd)"

definition append_part :: "BlockData \<Rightarrow> Part \<Rightarrow> BlockData" where
  "append_part bd p = (if old bd (p_View p) (p_Round p) then bd
     else bd\<lparr>retainBlockParts := update2 (p_View p) (p_Round p)
        ((case lookup2 (retainBlockParts bd) (p_View p) (p_Round p) of None \<Rightarrow> [] | Some ps \<Rightarrow> ps) @ [p]) (retainBlockParts bd)\<rparr>)"

definition bd_addPart :: "hash_fn \<Rightarrow> BlockData \<Rightarrow> Part \<Rightarrow> (BlockData \<times> bd_error option) option" where
  "bd_addPart H bd p =
     (if old bd (p_View p) (p_Round p) then Some (bd, Some OldPart)
      else (case lookup2 (blocks bd) (p_View p) (p_Round p) of
          None \<Rightarrow> Some (append_part bd p, Some NoPartSet)
        | Some ps \<Rightarrow> (case AddPart H ps p of
              None \<Rightarrow> None
            | Some (Inl e) \<Rightarrow> Some (bd, Some (BadPart e))
            | Some (Inr ps') \<Rightarrow> Some (bd\<lparr>blocks := update2 (p_View p) (p_Round p) ps' (blocks bd)\<rparr>, None))))"

text \<open>The loop over the parts that arrived before the header; their errors are printed.\<close>

fun replay_parts :: "hash_fn \<Rightarrow> BlockData \<Rightarrow> Part list \<Rightarrow> BlockData option" where
  "replay_parts H bd [] = Some bd"
| "replay_parts H bd (p # ps) = Option.bind (bd_addPart H bd p) (\<lambda>(bd', _). replay_parts H bd' ps)"

definition addPartSetHeader :: "hash_fn \<Rightarrow> BlockData \<Rightarrow> PartSetHeader \<Rightarrow> bytes \<Rightarrow> (BlockData \<times> bd_error option) option" where
  "addPartSetHeader H bd header headerHash =
     (let v = psh_View header; r = psh_Round header in
      if old bd v r then Some (bd, Some OldPartSetHeader)
      else (case lookup2 (blocks bd) v r of
          Some _ \<Rightarrow> Some (bd, Some PartSetExists)
        | None \<Rightarrow> do {
            ps \<leftarrow> NewPartSet header headerHash;
            let bd1 = bd\<lparr>blocks := update2 v r ps (blocks bd)\<rparr>;
            bd2 \<leftarrow> replay_parts H bd1 (case lookup2 (retainBlockParts bd) v r of None \<Rightarrow> [] | Some parts \<Rightarrow> parts);
            Some (bd2, None) }))"

definition addPartSet :: "BlockData \<Rightarrow> PartSet \<Rightarrow> BlockData \<times> bd_error option" where
  "addPartSet bd ps =
     (let v = psh_View (ps_Header ps); r = psh_Round (ps_Header ps) in
      if old bd v r then (bd, Some OldPartSet)
      else (case lookup2 (blocks bd) v r of
          None \<Rightarrow> (bd\<lparr>blocks := update2 v r ps (blocks bd)\<rparr>, None)
        | Some _ \<Rightarrow> (bd, Some PartSetExists)))"

definition addBlock :: "wire \<Rightarrow> hash_fn \<Rightarrow> BlockData \<Rightarrow> Block \<Rightarrow> int \<Rightarrow> int \<Rightarrow> (Block \<times> PartSet \<times> BlockData \<times> bd_error option) option" where
  "addBlock w H bd b sz round = map_option (\<lambda>(b', ps). (b', ps, addPartSet bd ps)) (PartSetFromBlock w H b sz round)"

definition isCrossShardMessageComplete :: "BlockData \<Rightarrow> bool" where
  "isCrossShardMessageComplete bd \<longleftrightarrow> length (finished bd) = length (lastHash bd)"

definition isComplete :: "BlockData \<Rightarrow> int \<Rightarrow> int \<Rightarrow> bool" where
  "isComplete bd v r = (case lookup2 (blocks bd) v r of None \<Rightarrow> False | Some ps \<Rightarrow> ps_IsComplete ps)"

definition getBlock :: "wire \<Rightarrow> hash_fn \<Rightarrow> BlockData \<Rightarrow> int \<Rightarrow> int \<Rightarrow> ((bd_error + gen_error) option \<times> Block option) option" where
  "getBlock w H bd v r = (case lookup2 (blocks bd) v r of
      None \<Rightarrow> Some (Some (Inl NoBlock), None)
    | Some ps \<Rightarrow> if \<not> ps_IsComplete ps then Some (Some (Inl NoBlock), None)
        else map_option (\<lambda>(b, e). (map_option Inr e, b)) (GenBlock w H ps))"

definition prune :: "BlockData \<Rightarrow> int \<Rightarrow> int \<Rightarrow> BlockData" where
  "prune bd view round = bd\<lparr>blocks := prune_map view round (blocks bd), retainBlockParts := prune_map view round (retainBlockParts bd)\<rparr>"

definition bd_next :: "BlockData \<Rightarrow> int \<Rightarrow> int \<Rightarrow> BlockData" where
  "bd_next bd view round = (prune bd view round)\<lparr>j_2finished := j_1finished bd, j_1finished := finished bd, finished := [],
     j_2_cross_shard_txs := j_1_cross_shard_txs bd, j_1_cross_shard_txs := j_cross_shard_txs bd, j_cross_shard_txs := [],
     retainView := view, retainRound := round\<rparr>"

section \<open>Lookups\<close>

lemma lookup2_update2: "lookup2 (update2 v r x m) v' r' = (if v = v' \<and> r = r' then Some x else lookup2 m v' r')"
  by (auto simp: lookup2_def update2_def inner_def update_conv')

lemma map_of_filter_key: "map_of (filter (\<lambda>(k, _). P k) xs) k = (if P k then map_of xs k else None)"
  by (induction xs) auto

definition keep_from :: "int \<Rightarrow> int \<Rightarrow> int \<Rightarrow> int \<Rightarrow> bool" where
  "keep_from view round v r \<longleftrightarrow> \<not> (v < view \<or> (v = view \<and> r < round))"


lemma lookup2_prune:
  assumes "distinct (map fst m)"
  shows "lookup2 (prune_map view round m) v r = (if keep_from view round v r then lookup2 m v r else None)"
proof -
  let ?f = "\<lambda>v rs. if v = view then filter (\<lambda>(r, _). \<not> r < round) rs else rs"
  have f: "map_of (map (\<lambda>(v, rs). (v, ?f v rs)) xs) v = map_option (?f v) (map_of xs v)" for xs :: "'a view_map"
    by (induction xs) auto
  have g: "map_of (filter (\<lambda>(v, rs). \<not> (v = view \<and> rs = [])) xs) v = (case map_of xs v of None \<Rightarrow> None
      | Some rs \<Rightarrow> if v = view \<and> rs = [] then None else Some rs)" if "distinct (map fst xs)" for xs :: "'a view_map"
    using that by (induction xs) (auto split: option.splits simp: map_of_eq_None_iff dest: map_of_SomeD)
  have d: "distinct (map fst (map (\<lambda>(v, rs). (v, ?f v rs)) (filter (\<lambda>(v, _). \<not> v < view) m)))"
    using assms by (simp add: o_def case_prod_unfold distinct_map_filter)
  have "inner (prune_map view round m) v = (if v < view then [] else ?f v (inner m v))"
    unfolding inner_def prune_map_def g [OF d] f map_of_filter_key by (auto split: option.split)
  then show ?thesis by (auto simp: lookup2_def keep_from_def map_of_filter_key)
qed

lemma distinct_prune: "distinct (map fst m) \<Longrightarrow> distinct (map fst (prune_map view round m))"
  by (simp add: prune_map_def o_def case_prod_unfold distinct_map_filter)

lemma distinct_update2: "distinct (map fst m) \<Longrightarrow> distinct (map fst (update2 v r x m))"
  by (simp add: update2_def distinct_update)


section \<open>Arrivals in any order\<close>

datatype arrival = PartArrives Part | HeaderArrives PartSetHeader bytes

fun arrive :: "hash_fn \<Rightarrow> BlockData \<Rightarrow> arrival \<Rightarrow> BlockData option" where
  "arrive H bd (PartArrives p) = map_option fst (bd_addPart H bd p)"
| "arrive H bd (HeaderArrives h hash) = map_option fst (addPartSetHeader H bd h hash)"

fun arrivals :: "hash_fn \<Rightarrow> BlockData \<Rightarrow> arrival list \<Rightarrow> BlockData option" where
  "arrivals H bd [] = Some bd"
| "arrivals H bd (a # as) = Option.bind (arrive H bd a) (\<lambda>bd'. arrivals H bd' as)"

text \<open>What was checked on reception.\<close>

fun checked :: "arrival \<Rightarrow> bool" where
  "checked (PartArrives p) \<longleftrightarrow> Part_ValidateBasic p = Some (Inr ())"
| "checked (HeaderArrives h hash) \<longleftrightarrow> PartSetHeader_ValidateBasic h = Inr ()"

text \<open>The specification: the first header for a view and round, and all parts for them, whenever they came.\<close>

fun parts_for :: "int \<Rightarrow> int \<Rightarrow> arrival list \<Rightarrow> Part list" where
  "parts_for v r [] = []"
| "parts_for v r (PartArrives p # as) = (if p_View p = v \<and> p_Round p = r then p # parts_for v r as else parts_for v r as)"
| "parts_for v r (HeaderArrives h hash # as) = parts_for v r as"

fun first_header :: "int \<Rightarrow> int \<Rightarrow> arrival list \<Rightarrow> (PartSetHeader \<times> bytes) option" where
  "first_header v r [] = None"
| "first_header v r (PartArrives p # as) = first_header v r as"
| "first_header v r (HeaderArrives h hash # as) = (if psh_View h = v \<and> psh_Round h = r then Some (h, hash) else first_header v r as)"

definition set_for :: "hash_fn \<Rightarrow> int \<Rightarrow> int \<Rightarrow> arrival list \<Rightarrow> PartSet option" where
  "set_for H v r as = (case first_header v r as of
      None \<Rightarrow> None
    | Some (h, hash) \<Rightarrow> map_option (\<lambda>ps0. foldl (offer H) ps0 (parts_for v r as)) (NewPartSet h hash))"

definition early :: "BlockData \<Rightarrow> int \<Rightarrow> int \<Rightarrow> Part list" where
  "early bd v r = (case lookup2 (retainBlockParts bd) v r of None \<Rightarrow> [] | Some parts \<Rightarrow> parts)"

lemma arrivals_snoc: "arrivals H bd (as @ [a]) = Option.bind (arrivals H bd as) (\<lambda>bd'. arrive H bd' a)"
  by (induction as arbitrary: bd) (auto split: Option.bind_split)

lemma parts_for_append: "parts_for v r (as @ bs) = parts_for v r as @ parts_for v r bs"
  by (induction v r as rule: parts_for.induct) auto

lemma first_header_append: "first_header v r (as @ bs) = (case first_header v r as of None \<Rightarrow> first_header v r bs | Some x \<Rightarrow> Some x)"
  by (induction v r as rule: first_header.induct) auto

lemma first_header_in: "first_header v r as = Some (h, hash) \<Longrightarrow> HeaderArrives h hash \<in> set as \<and> psh_View h = v \<and> psh_Round h = r"
  by (induction v r as rule: first_header.induct) (auto split: if_splits)

lemma parts_for_in: "p \<in> set (parts_for v r as) \<longleftrightarrow> PartArrives p \<in> set as \<and> p_View p = v \<and> p_Round p = r"
  by (induction v r as rule: parts_for.induct) auto

lemma header_checked: "PartSetHeader_ValidateBasic h = Inr () \<Longrightarrow>
    \<exists>ps0. NewPartSet h hash = Some ps0 \<and> wf_slots ps0 \<and> psh_Root (ps_Header ps0) \<noteq> []"
  by (auto simp: PartSetHeader_ValidateBasic_def NewPartSet_def wf_slots_def hash_size_def split: if_splits)

lemma offers_wf: "wf_slots ps \<Longrightarrow> wf_slots (foldl (offer H) ps parts) \<and> ps_Header (foldl (offer H) ps parts) = ps_Header ps"
  by (induction parts arbitrary: ps) (simp_all add: offer_wf)

lemma addPart_stored:
  assumes "\<not> old bd v r" "lookup2 (blocks bd) v r = Some ps" "wf_slots ps" "psh_Root (ps_Header ps) \<noteq> []"
    and "Part_ValidateBasic p = Some (Inr ())" "p_View p = v" "p_Round p = r"
  shows "\<exists>bl e. bd_addPart H bd p = Some (bd\<lparr>blocks := bl\<rparr>, e)
     \<and> (\<forall>v' r'. lookup2 bl v' r' = (if v = v' \<and> r = r' then Some (offer H ps p) else lookup2 (blocks bd) v' r'))"
proof -
  have t: "AddPart H ps p \<noteq> None" by (rule AddPart_total [OF assms(3-5)])
  show ?thesis
  proof (cases "\<exists>ps'. AddPart H ps p = Some (Inr ps')")
    case True
    then obtain ps' where "AddPart H ps p = Some (Inr ps')" by blast
    then show ?thesis using assms(1,2,6,7) by (auto simp: bd_addPart_def offer_def lookup2_update2)
  next
    case False
    then obtain e where "AddPart H ps p = Some (Inl e)" using t by (metis not_Some_eq sumE)
    then have "bd_addPart H bd p = Some (bd\<lparr>blocks := blocks bd\<rparr>, Some (BadPart e))" "offer H ps p = ps"
      using assms(1,2,6,7) by (simp_all add: bd_addPart_def offer_def)
    then show ?thesis using assms(2) by (intro exI [of _ "blocks bd"] exI [of _ "Some (BadPart e)"] conjI allI) auto
  qed
qed

lemma replay_stored:
  assumes "\<not> old bd v r" "lookup2 (blocks bd) v r = Some ps" "wf_slots ps" "psh_Root (ps_Header ps) \<noteq> []"
    and "\<forall>p \<in> set parts. Part_ValidateBasic p = Some (Inr ()) \<and> p_View p = v \<and> p_Round p = r"
  shows "\<exists>bl. replay_parts H bd parts = Some (bd\<lparr>blocks := bl\<rparr>)
     \<and> (\<forall>v' r'. lookup2 bl v' r' = (if v = v' \<and> r = r' then Some (foldl (offer H) ps parts) else lookup2 (blocks bd) v' r'))"
  using assms
proof (induction parts arbitrary: bd ps)
  case Nil
  then show ?case by (intro exI [of _ "blocks bd"]) auto
next
  case (Cons p parts)
  obtain bl e where b: "bd_addPart H bd p = Some (bd\<lparr>blocks := bl\<rparr>, e)"
    "\<And>v' r'. lookup2 bl v' r' = (if v = v' \<and> r = r' then Some (offer H ps p) else lookup2 (blocks bd) v' r')"
    using addPart_stored [OF Cons.prems(1-4)] Cons.prems(5) by (metis list.set_intros(1))
  obtain bl' where "replay_parts H (bd\<lparr>blocks := bl\<rparr>) parts = Some (bd\<lparr>blocks := bl'\<rparr>)"
    "\<And>v' r'. lookup2 bl' v' r' = (if v = v' \<and> r = r' then Some (foldl (offer H) (offer H ps p) parts) else lookup2 bl v' r')"
    using Cons.IH [of "bd\<lparr>blocks := bl\<rparr>" "offer H ps p"] Cons.prems b(2) offer_wf [OF Cons.prems(3), of H p] by (auto simp: old_def)
  then show ?case using b by (intro exI [of _ bl']) simp
qed


text \<open>The state after some arrivals, for the views and rounds that are not old.\<close>

definition collects :: "hash_fn \<Rightarrow> int \<Rightarrow> int \<Rightarrow> arrival list \<Rightarrow> BlockData \<Rightarrow> bool" where
  "collects H view round as bd \<longleftrightarrow> retainView bd = view \<and> retainRound bd = round \<and>
     (\<forall>v r. keep_from view round v r \<longrightarrow> lookup2 (blocks bd) v r = set_for H v r as
        \<and> (first_header v r as = None \<longrightarrow> early bd v r = parts_for v r as))"

lemma old_keep: "old bd v r \<longleftrightarrow> \<not> keep_from (retainView bd) (retainRound bd) v r"
  by (auto simp: old_def keep_from_def)

lemma set_for_wf:
  assumes "list_all checked as" "set_for H v r as = Some ps"
  shows "wf_slots ps \<and> psh_Root (ps_Header ps) \<noteq> []"
proof -
  obtain h hash ps0 where f: "first_header v r as = Some (h, hash)" "NewPartSet h hash = Some ps0" "ps = foldl (offer H) ps0 (parts_for v r as)"
    using assms(2) by (auto simp: set_for_def split: option.splits)
  have "PartSetHeader_ValidateBasic h = Inr ()" using first_header_in [OF f(1)] assms(1) by (auto simp: list_all_iff)
  from header_checked [OF this, of hash] f(2,3) show ?thesis using offers_wf by auto
qed

lemma set_for_none: "list_all checked as \<Longrightarrow> set_for H v r as = None \<longleftrightarrow> first_header v r as = None"
proof (cases "first_header v r as")
  case (Some x)
  assume a: "list_all checked as"
  obtain h hash where f: "first_header v r as = Some (h, hash)" using Some by (cases x) auto
  then have "PartSetHeader_ValidateBasic h = Inr ()" using first_header_in [OF f] a by (auto simp: list_all_iff)
  from header_checked [OF this, of hash] f show ?thesis by (auto simp: set_for_def)
qed (simp add: set_for_def)

lemma set_for_part:
  "set_for H v r (as @ [PartArrives p]) =
     map_option (\<lambda>ps. if p_View p = v \<and> p_Round p = r then offer H ps p else ps) (set_for H v r as)"
  by (auto simp: set_for_def parts_for_append first_header_append option.map_comp o_def split: option.split)

lemma append_part_fields:
  "blocks (append_part bd p) = blocks bd" "retainView (append_part bd p) = retainView bd" "retainRound (append_part bd p) = retainRound bd"
  by (simp_all add: append_part_def)

lemma early_append:
  "\<not> old bd (p_View p) (p_Round p) \<Longrightarrow>
     early (append_part bd p) v r = (if p_View p = v \<and> p_Round p = r then early bd v r @ [p] else early bd v r)"
  by (auto simp: early_def append_part_def lookup2_update2)

lemma collectsI:
  assumes "retainView bd = view" "retainRound bd = round"
    and "\<And>v r. keep_from view round v r \<Longrightarrow> lookup2 (blocks bd) v r = set_for H v r as
        \<and> (first_header v r as = None \<longrightarrow> early bd v r = parts_for v r as)"
  shows "collects H view round as bd"
  using assms by (simp add: collects_def)

lemma collects_part:
  assumes c: "collects H view round as bd" and ok: "list_all checked as" "checked (PartArrives p)"
  shows "\<exists>bd'. arrive H bd (PartArrives p) = Some bd' \<and> collects H view round (as @ [PartArrives p]) bd'"
proof -
  let ?v = "p_View p" and ?r = "p_Round p"
  note cD = c [unfolded collects_def]
  show ?thesis
  proof (cases "keep_from view round ?v ?r")
    case False
    then have o: "old bd ?v ?r" using cD by (simp add: old_keep)
    have "set_for H v r (as @ [PartArrives p]) = set_for H v r as \<and> parts_for v r (as @ [PartArrives p]) = parts_for v r as
        \<and> first_header v r (as @ [PartArrives p]) = first_header v r as" if "keep_from view round v r" for v r
      using that False by (auto simp: set_for_part parts_for_append first_header_append option.map_ident split: option.split)
    then show ?thesis using o cD by (auto simp: bd_addPart_def collects_def)
  next
    case True
    then have no: "\<not> old bd ?v ?r" using cD by (simp add: old_keep)
    show ?thesis
    proof (cases "set_for H ?v ?r as")
      case None
      have l: "lookup2 (blocks bd) ?v ?r = None" "early bd ?v ?r = parts_for ?v ?r as"
        using cD True None set_for_none [OF ok(1)] by auto
      have "arrive H bd (PartArrives p) = Some (append_part bd p)" using no l(1) by (simp add: bd_addPart_def)
      moreover have "collects H view round (as @ [PartArrives p]) (append_part bd p)"
      proof (rule collectsI)
        fix v r assume k: "keep_from view round v r"
        then have a: "lookup2 (blocks bd) v r = set_for H v r as" "first_header v r as = None \<longrightarrow> early bd v r = parts_for v r as"
          using cD by auto
        have "set_for H v r (as @ [PartArrives p]) = set_for H v r as"
          using None by (cases "p_View p = v \<and> p_Round p = r") (auto simp: set_for_part option.map_ident)
        then show "lookup2 (blocks (append_part bd p)) v r = set_for H v r (as @ [PartArrives p])
            \<and> (first_header v r (as @ [PartArrives p]) = None \<longrightarrow> early (append_part bd p) v r = parts_for v r (as @ [PartArrives p]))"
          using a by (simp add: append_part_fields early_append [OF no] parts_for_append first_header_append split: option.split)
      qed (use cD in \<open>simp_all add: append_part_fields\<close>)
      ultimately show ?thesis by blast
    next
      case (Some ps)
      have l: "lookup2 (blocks bd) ?v ?r = Some ps" using cD True Some by simp
      obtain bl e where b: "bd_addPart H bd p = Some (bd\<lparr>blocks := bl\<rparr>, e)"
        "\<And>v' r'. lookup2 bl v' r' = (if ?v = v' \<and> ?r = r' then Some (offer H ps p) else lookup2 (blocks bd) v' r')"
        using addPart_stored [OF no l] set_for_wf [OF ok(1) Some] ok(2) by (metis checked.simps(1))
      have fh: "first_header ?v ?r as \<noteq> None" using Some set_for_none [OF ok(1)] by (metis option.distinct(1))
      have "collects H view round (as @ [PartArrives p]) (bd\<lparr>blocks := bl\<rparr>)"
      proof (rule collectsI)
        fix v r assume k: "keep_from view round v r"
        then have a: "lookup2 (blocks bd) v r = set_for H v r as" "first_header v r as = None \<longrightarrow> early bd v r = parts_for v r as"
          using cD by auto
        have "lookup2 bl v r = set_for H v r (as @ [PartArrives p])"
          using a(1) Some by (cases "p_View p = v \<and> p_Round p = r") (auto simp: b(2) set_for_part option.map_ident)
        moreover have "first_header v r as = None \<longrightarrow> \<not> (p_View p = v \<and> p_Round p = r)" using fh by blast
        ultimately show "lookup2 (blocks (bd\<lparr>blocks := bl\<rparr>)) v r = set_for H v r (as @ [PartArrives p])
            \<and> (first_header v r (as @ [PartArrives p]) = None \<longrightarrow> early (bd\<lparr>blocks := bl\<rparr>) v r = parts_for v r (as @ [PartArrives p]))"
          using a(2) by (auto simp: parts_for_append first_header_append early_def split: option.split)
      qed (use cD in simp_all)
      then show ?thesis using b(1) by simp
    qed
  qed
qed


lemma set_for_header:
  "\<not> (psh_View h = v \<and> psh_Round h = r \<and> first_header v r as = None) \<Longrightarrow> set_for H v r (as @ [HeaderArrives h hash]) = set_for H v r as"
  "psh_View h = v \<Longrightarrow> psh_Round h = r \<Longrightarrow> first_header v r as = None \<Longrightarrow> set_for H v r (as @ [HeaderArrives h hash]) =
     map_option (\<lambda>ps0. foldl (offer H) ps0 (parts_for v r as)) (NewPartSet h hash)"
  by (auto simp: set_for_def parts_for_append first_header_append split: option.split)

lemma collects_keep:
  assumes "collects H view round as bd" "arrive H bd (HeaderArrives h hash) = Some bd"
    and "\<And>v r. keep_from view round v r \<Longrightarrow> \<not> (psh_View h = v \<and> psh_Round h = r \<and> first_header v r as = None)"
  shows "collects H view round (as @ [HeaderArrives h hash]) bd"
proof (rule collectsI)
  fix v r assume k: "keep_from view round v r"
  have "first_header v r (as @ [HeaderArrives h hash]) = None \<Longrightarrow> first_header v r as = None"
    by (simp add: first_header_append split: option.splits)
  then show "lookup2 (blocks bd) v r = set_for H v r (as @ [HeaderArrives h hash])
      \<and> (first_header v r (as @ [HeaderArrives h hash]) = None \<longrightarrow> early bd v r = parts_for v r (as @ [HeaderArrives h hash]))"
    using assms(1) k set_for_header(1) [OF assms(3) [OF k]] by (auto simp: collects_def parts_for_append)
qed (use assms(1) in \<open>simp_all add: collects_def\<close>)

lemma collects_header:
  assumes c: "collects H view round as bd" and ok: "list_all checked as" "checked (HeaderArrives h hash)"
  shows "\<exists>bd'. arrive H bd (HeaderArrives h hash) = Some bd' \<and> collects H view round (as @ [HeaderArrives h hash]) bd'"
proof -
  let ?v = "psh_View h" and ?r = "psh_Round h"
  note cD = c [unfolded collects_def]
  consider "\<not> keep_from view round ?v ?r" | ps where "keep_from view round ?v ?r" "set_for H ?v ?r as = Some ps"
    | "keep_from view round ?v ?r" "set_for H ?v ?r as = None" by fastforce
  then show ?thesis
  proof cases
    case 1
    then have same: "arrive H bd (HeaderArrives h hash) = Some bd" using cD by (simp add: addPartSetHeader_def Let_def old_keep)
    have "collects H view round (as @ [HeaderArrives h hash]) bd" by (rule collects_keep [OF c same]) (use 1 in auto)
    then show ?thesis using same by blast
  next
    case 2
    then have same: "arrive H bd (HeaderArrives h hash) = Some bd" using cD by (simp add: addPartSetHeader_def Let_def old_keep)
    have "first_header ?v ?r as \<noteq> None" using 2(2) set_for_none [OF ok(1)] by (metis option.distinct(1))
    then have "collects H view round (as @ [HeaderArrives h hash]) bd" by (intro collects_keep [OF c same]) auto
    then show ?thesis using same by blast
  next
    case 3
    obtain ps0 where ps0: "NewPartSet h hash = Some ps0" "wf_slots ps0" "psh_Root (ps_Header ps0) \<noteq> []"
      using header_checked ok(2) by (metis checked.simps(2))
    have fh: "first_header ?v ?r as = None" using 3(2) set_for_none [OF ok(1)] by blast
    have e: "lookup2 (blocks bd) ?v ?r = None" "early bd ?v ?r = parts_for ?v ?r as" using cD 3 fh by auto
    let ?bd1 = "bd\<lparr>blocks := update2 ?v ?r ps0 (blocks bd)\<rparr>"
    have no: "\<not> old bd ?v ?r" using cD 3(1) by (simp add: old_keep)
    have "\<forall>p \<in> set (parts_for ?v ?r as). Part_ValidateBasic p = Some (Inr ()) \<and> p_View p = ?v \<and> p_Round p = ?r"
      using ok(1) by (fastforce simp: parts_for_in list_all_iff)
    from replay_stored [of ?bd1 ?v ?r ps0, OF _ _ ps0(2,3) this, of H]
    obtain bl where bl: "replay_parts H ?bd1 (parts_for ?v ?r as) = Some (?bd1\<lparr>blocks := bl\<rparr>)"
      "\<And>v' r'. lookup2 bl v' r' = (if ?v = v' \<and> ?r = r' then Some (foldl (offer H) ps0 (parts_for ?v ?r as)) else lookup2 (blocks ?bd1) v' r')"
      using no by (auto simp: old_def lookup2_update2)
    have "arrive H bd (HeaderArrives h hash) = Some (bd\<lparr>blocks := bl\<rparr>)"
      using no e bl(1) by (simp add: addPartSetHeader_def Let_def ps0(1) early_def)
    moreover have "collects H view round (as @ [HeaderArrives h hash]) (bd\<lparr>blocks := bl\<rparr>)"
    proof (rule collectsI)
      fix v r assume k: "keep_from view round v r"
      then have a: "lookup2 (blocks bd) v r = set_for H v r as" "first_header v r as = None \<longrightarrow> early bd v r = parts_for v r as"
        using cD by auto
      have "lookup2 bl v r = set_for H v r (as @ [HeaderArrives h hash])"
        using a(1) set_for_header(1) [of h v r as H hash] set_for_header(2) [OF refl refl fh, of H hash]
        by (cases "?v = v \<and> ?r = r") (auto simp: bl(2) ps0(1) lookup2_update2)
      moreover have "first_header v r (as @ [HeaderArrives h hash]) = None \<Longrightarrow> first_header v r as = None"
        by (simp add: first_header_append split: option.splits)
      ultimately show "lookup2 (blocks (bd\<lparr>blocks := bl\<rparr>)) v r = set_for H v r (as @ [HeaderArrives h hash])
          \<and> (first_header v r (as @ [HeaderArrives h hash]) = None \<longrightarrow> early (bd\<lparr>blocks := bl\<rparr>) v r = parts_for v r (as @ [HeaderArrives h hash]))"
        using a(2) by (auto simp: parts_for_append early_def)
    qed (use cD in simp_all)
    ultimately show ?thesis by blast
  qed
qed

lemma arrivals_collect:
  "list_all checked as \<Longrightarrow> \<exists>bd. arrivals H (NewBlockData view round lh fin) as = Some bd \<and> collects H view round as bd"
proof (induction as rule: rev_induct)
  case Nil
  have "collects H view round [] (NewBlockData view round lh fin)"
    by (rule collectsI) (simp_all add: NewBlockData_def lookup2_def inner_def set_for_def early_def)
  then show ?case by simp
next
  case (snoc a as)
  then obtain bd where bd: "arrivals H (NewBlockData view round lh fin) as = Some bd" "collects H view round as bd" by auto
  have "\<exists>bd'. arrive H bd a = Some bd' \<and> collects H view round (as @ [a]) bd'"
    using snoc.prems collects_part [OF bd(2)] collects_header [OF bd(2)] by (cases a) auto
  then show ?case using bd(1) by (auto simp: arrivals_snoc)
qed


lemma sent_parts_ids:
  assumes "PartSetFromBlock w H b sz round = Some (b', sent)" "0 < sz" "Some q \<in> set (Parts sent)"
  shows "p_View q = psh_View (ps_Header sent) \<and> p_Round q = psh_Round (ps_Header sent)"
  by (rule PartSetFromBlock_eq [OF assms(1,2)]) (use assms(3) in \<open>auto simp: honest_part_def\<close>)

text \<open>The message maps after a view change.\<close>

lemma next_lookup:
  assumes "distinct (map fst (blocks bd))" "distinct (map fst (retainBlockParts bd))"
  shows "lookup2 (blocks (bd_next bd view round)) v r = (if keep_from view round v r then lookup2 (blocks bd) v r else None)"
    "lookup2 (retainBlockParts (bd_next bd view round)) v r = (if keep_from view round v r then lookup2 (retainBlockParts bd) v r else None)"
  using assms by (simp_all add: bd_next_def prune_def lookup2_prune)

section \<open>Properties\<close>

text \<open>
  C25: the order in which headers and parts arrive does not matter: after any sequence of checked
  arrivals the part set of every view and round that is not old is the one made from the first
  header for it and from all of its parts, early ones included, in the order of arrival; nothing
  panics.
\<close>

theorem arrivals_refine:
  assumes "list_all checked as"
  shows "\<exists>bd. arrivals H (NewBlockData view round lh fin) as = Some bd
     \<and> (\<forall>v r. keep_from view round v r \<longrightarrow> lookup2 (blocks bd) v r = set_for H v r as)"
  using arrivals_collect [OF assms, of H view round lh fin] by (auto simp: collects_def)

theorem arrivals_refine_witness:
  "\<exists>bd. arrivals sample_hash (NewBlockData 0 0 [] []) [PartArrives (sample_part 1), HeaderArrives sample_header (digest 26), PartArrives (sample_part 0)] = Some bd
     \<and> lookup2 (blocks bd) 0 0 = set_for sample_hash 0 0 [PartArrives (sample_part 1), HeaderArrives sample_header (digest 26), PartArrives (sample_part 0)]"
proof -
  have "list_all checked [PartArrives (sample_part 1), HeaderArrives sample_header (digest 26), PartArrives (sample_part 0)]"
    using sample_parts_valid by (simp add: sample_parts_def PartSetHeader_ValidateBasic_def sample_header_def digest_def hash_size_def)
  from arrivals_refine [OF this, of sample_hash 0 0 "[]" "[]"] show ?thesis by (auto simp: keep_from_def)
qed



end
