(* ===== verification/Key_Store.thy ===== *)
theory Key_Store
  imports Convert
begin

text \<open>
  The key-value interface \<open>DB\<close> of \<open>src/source/libs/db/types.go\<close> and the store that splits it
  into three name spaces, \<open>src/source/utils/store/store.go\<close>. The operations of a backend are a
  record, an argument of the store's operations; what the interface documents of them is the
  locale \<open>database\<close>. The lemmas show that the name spaces do not interfere and that a block is
  found again under its height and chain.
\<close>

section \<open>The interface of a backend\<close>

datatype db_error = errKeyEmpty | errValueNil | errBatchClosed | errBackend

text \<open>A batch operation; \<open>None\<close> as value of a set is the nil slice.\<close>

datatype batch_op = OpSet bytes "bytes option" | OpDelete bytes

record 's db_ops =
  db_Get :: "'s \<Rightarrow> bytes \<Rightarrow> db_error + bytes option"
  db_Has :: "'s \<Rightarrow> bytes \<Rightarrow> db_error + bool"
  db_Set :: "'s \<Rightarrow> bytes \<Rightarrow> bytes option \<Rightarrow> db_error + 's"
  db_Delete :: "'s \<Rightarrow> bytes \<Rightarrow> db_error + 's"
  db_Write :: "'s \<Rightarrow> batch_op list \<Rightarrow> db_error + 's"

fun apply_op :: "(bytes \<rightharpoonup> bytes) \<Rightarrow> batch_op \<Rightarrow> (bytes \<rightharpoonup> bytes)" where
  "apply_op m (OpSet k v) = m(k := v)"
| "apply_op m (OpDelete k) = m(k := None)"

fun good_op :: "batch_op \<Rightarrow> bool" where
  "good_op (OpSet k v) \<longleftrightarrow> k \<noteq> [] \<and> v \<noteq> None"
| "good_op (OpDelete k) \<longleftrightarrow> k \<noteq> []"

locale database =
  fixes D :: "'s db_ops"
    and ok :: "'s \<Rightarrow> bool"
    and content :: "'s \<Rightarrow> bytes \<rightharpoonup> bytes"
  assumes Get_law: "ok s \<Longrightarrow> k \<noteq> [] \<Longrightarrow> db_Get D s k = Inr (content s k)"
    and Has_law: "ok s \<Longrightarrow> k \<noteq> [] \<Longrightarrow> db_Has D s k = Inr (content s k \<noteq> None)"
    and Set_law: "ok s \<Longrightarrow> k \<noteq> [] \<Longrightarrow>
      \<exists>s'. db_Set D s k (Some v) = Inr s' \<and> ok s' \<and> content s' = (content s)(k \<mapsto> v)"
    and Delete_law: "ok s \<Longrightarrow> k \<noteq> [] \<Longrightarrow>
      \<exists>s'. db_Delete D s k = Inr s' \<and> ok s' \<and> content s' = (content s)(k := None)"
    and Write_law: "ok s \<Longrightarrow> list_all good_op ops \<Longrightarrow>
      \<exists>s'. db_Write D s ops = Inr s' \<and> ok s' \<and> content s' = foldl apply_op (content s) ops"

section \<open>The prefix store\<close>

definition stateKey :: bytes where "stateKey = bytes_of_string ''0''"
definition dataKey :: bytes where "dataKey = bytes_of_string ''1''"
definition specialKey :: bytes where "specialKey = bytes_of_string ''2''"

definition toDataKey :: "bytes \<Rightarrow> bytes" where "toDataKey bz = concat [dataKey, bz]"
definition toStateKey :: "bytes \<Rightarrow> bytes" where "toStateKey bz = concat [stateKey, bz]"
definition toSpecialKey :: "bytes \<Rightarrow> bytes" where "toSpecialKey bz = concat [specialKey, bz]"

text \<open>\<open>bytes.TrimPrefix\<close> of the standard library.\<close>

definition fromDataKey :: "bytes \<Rightarrow> bytes" where
  "fromDataKey bz = (if take (length dataKey) bz = dataKey then drop (length dataKey) bz else bz)"

definition GetState :: "'s db_ops \<Rightarrow> 's \<Rightarrow> bytes \<Rightarrow> db_error + bytes option" where
  "GetState D s key = db_Get D s (toStateKey key)"
definition Store_Get :: "'s db_ops \<Rightarrow> 's \<Rightarrow> bytes \<Rightarrow> db_error + bytes option" where
  "Store_Get D s key = db_Get D s (toDataKey key)"
definition HasState :: "'s db_ops \<Rightarrow> 's \<Rightarrow> bytes \<Rightarrow> db_error + bool" where
  "HasState D s key = db_Has D s (toStateKey key)"
definition Store_Has :: "'s db_ops \<Rightarrow> 's \<Rightarrow> bytes \<Rightarrow> db_error + bool" where
  "Store_Has D s key = db_Has D s (toDataKey key)"
definition SetState :: "'s db_ops \<Rightarrow> 's \<Rightarrow> bytes \<Rightarrow> bytes option \<Rightarrow> db_error + 's" where
  "SetState D s key state = db_Set D s (toStateKey key) state"
definition Store_Set :: "'s db_ops \<Rightarrow> 's \<Rightarrow> bytes \<Rightarrow> bytes option \<Rightarrow> db_error + 's" where
  "Store_Set D s key v = db_Set D s (toDataKey key) v"
definition HasSpecial :: "'s db_ops \<Rightarrow> 's \<Rightarrow> bytes \<Rightarrow> db_error + bool" where
  "HasSpecial D s key = db_Has D s (toSpecialKey key)"
definition SetSpecial :: "'s db_ops \<Rightarrow> 's \<Rightarrow> bytes \<Rightarrow> bytes option \<Rightarrow> db_error + 's" where
  "SetSpecial D s key v = db_Set D s (toSpecialKey key) v"
definition GetSpecial :: "'s db_ops \<Rightarrow> 's \<Rightarrow> bytes \<Rightarrow> db_error + bytes option" where
  "GetSpecial D s key = db_Get D s (toSpecialKey key)"
definition DeleteState :: "'s db_ops \<Rightarrow> 's \<Rightarrow> db_error + 's" where
  "DeleteState D s = db_Delete D s stateKey"
definition Store_Delete :: "'s db_ops \<Rightarrow> 's \<Rightarrow> bytes \<Rightarrow> db_error + 's" where
  "Store_Delete D s key = db_Delete D s (toDataKey key)"

text \<open>A prefix batch: the operations collected so far, handed to the backend when written.\<close>

definition PrefixBatch_Set :: "batch_op list \<Rightarrow> bytes \<Rightarrow> bytes option \<Rightarrow> batch_op list" where
  "PrefixBatch_Set b key v = b @ [OpSet (toDataKey key) v]"
definition PrefixBatch_Delete :: "batch_op list \<Rightarrow> bytes \<Rightarrow> batch_op list" where
  "PrefixBatch_Delete b key = b @ [OpDelete (toDataKey key)]"
definition PrefixBatch_Write :: "'s db_ops \<Rightarrow> 's \<Rightarrow> batch_op list \<Rightarrow> db_error + 's" where
  "PrefixBatch_Write D s b = db_Write D s b"

text \<open>The verb \<open>%d\<close> of \<open>fmt.Sprintf\<close>.\<close>

fun show_nat :: "nat \<Rightarrow> string" where
  "show_nat n = (if n < 10 then [char_of (48 + n)] else show_nat (n div 10) @ [char_of (48 + n mod 10)])"

declare show_nat.simps [simp del]

definition show_int :: "int \<Rightarrow> string" where
  "show_int i = (if i < 0 then CHR ''-'' # show_nat (nat (- i)) else show_nat (nat i))"

definition block_key :: "int \<Rightarrow> string \<Rightarrow> bytes" where
  "block_key height chain = bytes_of_string (show_int height @ '':'' @ chain)"

definition GetBlockByHash :: "'s db_ops \<Rightarrow> 's \<Rightarrow> bytes \<Rightarrow> db_error + bytes option" where
  "GetBlockByHash D s hs = Store_Get D s hs"

definition GetBlockByHeight :: "'s db_ops \<Rightarrow> 's \<Rightarrow> int \<Rightarrow> string \<Rightarrow> db_error + bytes option" where
  "GetBlockByHeight D s height chain = (case GetState D s (block_key height chain) of
      Inl e \<Rightarrow> Inl e
    | Inr hs \<Rightarrow> GetBlockByHash D s (slice_bytes hs))"

text \<open>A block is given by what the interface \<open>ProtoBytesInterface\<close> returns: hash and bytes.\<close>

definition SetBlockByHash :: "'s db_ops \<Rightarrow> 's \<Rightarrow> bytes \<Rightarrow> bytes option \<Rightarrow> db_error + 's" where
  "SetBlockByHash D s hs protoBytes = Store_Set D s hs protoBytes"

definition SetBlockByHeight :: "'s db_ops \<Rightarrow> 's \<Rightarrow> int \<Rightarrow> string \<Rightarrow> bytes option \<Rightarrow> bytes option \<Rightarrow> db_error + 's" where
  "SetBlockByHeight D s height chain hs protoBytes = (case SetState D s (block_key height chain) hs of
      Inl e \<Rightarrow> Inl e
    | Inr s1 \<Rightarrow> SetBlockByHash D s1 (slice_bytes hs) protoBytes)"

section \<open>The three name spaces\<close>

lemma prefix_keys [simp]:
  "toDataKey k \<noteq> []" "toStateKey k \<noteq> []" "toSpecialKey k \<noteq> []"
  "toDataKey k = toDataKey k' \<longleftrightarrow> k = k'" "toStateKey k = toStateKey k' \<longleftrightarrow> k = k'"
  "toSpecialKey k = toSpecialKey k' \<longleftrightarrow> k = k'"
  "toDataKey k \<noteq> toStateKey k'" "toStateKey k' \<noteq> toDataKey k"
  "toDataKey k \<noteq> toSpecialKey k'" "toSpecialKey k' \<noteq> toDataKey k"
  "toStateKey k \<noteq> toSpecialKey k'" "toSpecialKey k' \<noteq> toStateKey k"
  by (simp_all add: toDataKey_def toStateKey_def toSpecialKey_def dataKey_def stateKey_def specialKey_def
      bytes_of_string_def byte_of_char_def)

lemma fromDataKey_toDataKey [simp]: "fromDataKey (toDataKey k) = k"
  by (simp add: fromDataKey_def toDataKey_def)

text \<open>What each name space of the store holds, in terms of the content of the backend.\<close>

definition data_view :: "(bytes \<rightharpoonup> bytes) \<Rightarrow> bytes \<rightharpoonup> bytes" where "data_view c k = c (toDataKey k)"
definition state_view :: "(bytes \<rightharpoonup> bytes) \<Rightarrow> bytes \<rightharpoonup> bytes" where "state_view c k = c (toStateKey k)"
definition special_view :: "(bytes \<rightharpoonup> bytes) \<Rightarrow> bytes \<rightharpoonup> bytes" where "special_view c k = c (toSpecialKey k)"

lemma view_upd [simp]:
  "data_view (c(toDataKey k := v)) = (data_view c)(k := v)" "data_view (c(toStateKey k := v)) = data_view c"
  "data_view (c(toSpecialKey k := v)) = data_view c"
  "state_view (c(toStateKey k := v)) = (state_view c)(k := v)" "state_view (c(toDataKey k := v)) = state_view c"
  "state_view (c(toSpecialKey k := v)) = state_view c"
  "special_view (c(toSpecialKey k := v)) = (special_view c)(k := v)" "special_view (c(toDataKey k := v)) = special_view c"
  "special_view (c(toStateKey k := v)) = special_view c"
  by (auto simp: fun_eq_iff data_view_def state_view_def special_view_def)

lemma view_batch:
  defines "ops \<equiv> map (\<lambda>(k, v). OpSet (toDataKey k) v)"
  shows "data_view (foldl apply_op c (ops kvs)) = foldl (\<lambda>m (k, v). m(k := v)) (data_view c) kvs
     \<and> state_view (foldl apply_op c (ops kvs)) = state_view c \<and> special_view (foldl apply_op c (ops kvs)) = special_view c"
  by (induction kvs arbitrary: c) (auto simp: ops_def)

section \<open>Block keys\<close>

definition digits_val :: "string \<Rightarrow> nat" where
  "digits_val s = foldl (\<lambda>a c. 10 * a + (of_char c - 48)) 0 s"

lemma show_nat_val: "digits_val (show_nat n) = n"
proof (induction n rule: show_nat.induct)
  case (1 n)
  show ?case
  proof (cases "n < 10")
    case True
    then show ?thesis unfolding show_nat.simps [of n] by (simp add: digits_val_def)
  next
    case False
    then have "digits_val (show_nat n) = 10 * digits_val (show_nat (n div 10)) + n mod 10"
      unfolding show_nat.simps [of n] by (simp add: digits_val_def)
    then show ?thesis using "1.IH" False by simp
  qed
qed

lemma show_nat_inj: "show_nat a = show_nat b \<longleftrightarrow> a = b"
  by (metis show_nat_val)

lemma show_nat_chars: "c \<in> set (show_nat n) \<Longrightarrow> 48 \<le> (of_char c :: nat) \<and> of_char c < (58::nat)"
proof (induction n rule: show_nat.induct)
  case (1 n)
  then show ?case unfolding show_nat.simps [of n] by (auto split: if_splits)
qed

lemma show_int_inj: "show_int i = show_int j \<longleftrightarrow> i = j"
proof
  assume eq: "show_int i = show_int j"
  have minus: "CHR ''-'' \<notin> set (show_nat n)" for n using show_nat_chars [of "CHR ''-''" n] by auto
  have "show_nat a \<noteq> CHR ''-'' # x" for a x using minus [of a] by (metis list.set_intros(1))
  then show "i = j"
    using eq by (auto simp: show_int_def show_nat_inj split: if_splits dest!: sym [of "CHR ''-'' # _"])
qed simp

lemma show_int_colon: "CHR '':'' \<notin> set (show_int i)"
  using show_nat_chars [of "CHR '':''"] by (auto simp: show_int_def)

lemma block_key_inj: "block_key h c = block_key h' c' \<longleftrightarrow> h = h' \<and> c = c'"
proof -
  have "x \<notin> set a \<Longrightarrow> x \<notin> set b \<Longrightarrow> a @ x # u = b @ x # v \<longleftrightarrow> a = b \<and> u = v" for a b u v :: string and x
    by (auto simp: append_eq_append_conv2 append_eq_Cons_conv Cons_eq_append_conv)
  then show ?thesis
    using show_int_colon by (simp add: block_key_def bytes_of_string_eq_iff show_int_inj)
qed

context database
begin

abbreviation "data s \<equiv> data_view (content s)"
abbreviation "state s \<equiv> state_view (content s)"
abbreviation "special s \<equiv> special_view (content s)"

lemma read_laws:
  assumes "ok s"
  shows "Store_Get D s k = Inr (data s k)" "GetState D s k = Inr (state s k)" "GetSpecial D s k = Inr (special s k)"
    "Store_Has D s k = Inr (data s k \<noteq> None)" "HasState D s k = Inr (state s k \<noteq> None)"
    "HasSpecial D s k = Inr (special s k \<noteq> None)"
  using assms by (simp_all add: Store_Get_def GetState_def GetSpecial_def Store_Has_def HasState_def HasSpecial_def
      data_view_def state_view_def special_view_def Get_law Has_law)

lemma Store_Set_law:
  assumes "ok s"
  shows "\<exists>s'. Store_Set D s k (Some v) = Inr s' \<and> ok s' \<and> data s' = (data s)(k \<mapsto> v) \<and> state s' = state s \<and> special s' = special s"
  using Set_law [OF assms prefix_keys(1), of k v] unfolding Store_Set_def
  by auto

lemma SetState_law:
  assumes "ok s"
  shows "\<exists>s'. SetState D s k (Some v) = Inr s' \<and> ok s' \<and> state s' = (state s)(k \<mapsto> v) \<and> data s' = data s \<and> special s' = special s"
  using Set_law [OF assms prefix_keys(2), of k v] unfolding SetState_def
  by auto

lemma SetSpecial_law:
  assumes "ok s"
  shows "\<exists>s'. SetSpecial D s k (Some v) = Inr s' \<and> ok s' \<and> special s' = (special s)(k \<mapsto> v) \<and> data s' = data s \<and> state s' = state s"
  using Set_law [OF assms prefix_keys(3), of k v] unfolding SetSpecial_def
  by auto

lemma Store_Delete_law:
  assumes "ok s"
  shows "\<exists>s'. Store_Delete D s k = Inr s' \<and> ok s' \<and> data s' = (data s)(k := None) \<and> state s' = state s \<and> special s' = special s"
  using Delete_law [OF assms prefix_keys(1), of k] unfolding Store_Delete_def
  by auto

text \<open>\<open>DeleteState\<close> removes the entry of the empty key only.\<close>

lemma DeleteState_law:
  assumes "ok s"
  shows "\<exists>s'. DeleteState D s = Inr s' \<and> ok s' \<and> state s' = (state s)([] := None) \<and> data s' = data s \<and> special s' = special s"
proof -
  have k: "stateKey = toStateKey []" by (simp add: toStateKey_def)
  show ?thesis using Delete_law [OF assms prefix_keys(2), of "[]"] unfolding DeleteState_def k
    by auto
qed

lemma Batch_law:
  assumes "ok s" "\<forall>kv \<in> set kvs. snd kv \<noteq> None"
  shows "\<exists>s'. PrefixBatch_Write D s (map (\<lambda>(k, v). OpSet (toDataKey k) v) kvs) = Inr s' \<and> ok s'
     \<and> data s' = foldl (\<lambda>m (k, v). m(k := v)) (data s) kvs \<and> state s' = state s \<and> special s' = special s"
proof -
  let ?ops = "map (\<lambda>(k, v). OpSet (toDataKey k) v) kvs"
  have "list_all good_op ?ops" using assms(2) by (auto simp: list_all_iff)
  then obtain s' where s': "db_Write D s ?ops = Inr s'" "ok s'" "content s' = foldl apply_op (content s) ?ops"
    using Write_law [OF assms(1)] by blast
  then show ?thesis using view_batch [of "content s" kvs] unfolding PrefixBatch_Write_def by auto
qed

lemma SetBlockByHeight_law:
  assumes "ok s"
  shows "\<exists>s'. SetBlockByHeight D s h c (Some hs) (Some bz) = Inr s' \<and> ok s'
     \<and> state s' = (state s)(block_key h c \<mapsto> hs) \<and> data s' = (data s)(hs \<mapsto> bz) \<and> special s' = special s"
proof -
  obtain s1 where s1: "SetState D s (block_key h c) (Some hs) = Inr s1" "ok s1"
    "state s1 = (state s)(block_key h c \<mapsto> hs)" "data s1 = data s" "special s1 = special s"
    using SetState_law [OF assms] by blast
  then show ?thesis
    using Store_Set_law [OF s1(2), of hs bz] by (auto simp: SetBlockByHeight_def SetBlockByHash_def)
qed

lemma GetBlockByHeight_law:
  "ok s \<Longrightarrow> GetBlockByHeight D s h c = Inr (data s (slice_bytes (state s (block_key h c))))"
  by (simp add: GetBlockByHeight_def GetBlockByHash_def read_laws)

lemma block_roundtrip:
  assumes "ok s"
  shows "\<exists>s'. SetBlockByHeight D s h c (Some hs) (Some bz) = Inr s' \<and> ok s' \<and> GetBlockByHeight D s' h c = Inr (Some bz)
     \<and> (\<forall>h' c'. (h', c') \<noteq> (h, c) \<and> state s (block_key h' c') \<noteq> Some hs \<and> state s (block_key h' c') \<noteq> None \<longrightarrow>
          GetBlockByHeight D s' h' c' = GetBlockByHeight D s h' c')"
proof -
  obtain s' where s': "SetBlockByHeight D s h c (Some hs) (Some bz) = Inr s'" "ok s'"
    "state s' = (state s)(block_key h c \<mapsto> hs)" "data s' = (data s)(hs \<mapsto> bz)"
    using SetBlockByHeight_law [OF assms] by blast
  then show ?thesis
    by (intro exI [of _ s']) (auto simp: GetBlockByHeight_law assms block_key_inj)
qed

end

end
