(* ===== verification/Urd_Consensus.thy ===== *)
theory Urd_Consensus
  imports Block_Pool Key_Store
begin

text \<open>
  The consensus state machine of a replica, \<open>src/source/urd/consensus/state.go\<close> and
  \<open>state_transition.go\<close>: a leader proposes a block per view, waits for votes and for the messages
  of the other shards; a validator rebuilds the proposed block, checks it, executes the block two
  views back and votes. The application, the mempools, the store, the signer, the clock and the
  encoders are arguments, collected in a record. Messages to the network are appended to an
  outbox; log lines and byte counters are left out. Operations return the error and the state,
  and \<open>None\<close> for a panic. The blocks of the pool have been hashed before they are stored, so
  reading their hash does not change them.
\<close>

section \<open>State\<close>

datatype outgoing =
    SendShard string Proposal | SendShardPart string Part | SendVote string int Vote | SendCsm string int pb_CrossShardMessage

record ('pk, 'app, 'mp, 's) cons_State =
  c_hs :: "'pk hs_State"
  c_mempool :: 'mp
  c_cross_shard_mempool :: 'mp
  c_abci :: 'app
  c_store :: 's
  c_step :: string
  c_signerIndex :: int
  c_proposerIndex :: int
  c_verifier :: "'pk Verifier"
  c_block_data :: BlockData
  c_ShardIDList :: "string list"
  c_leaders :: "(string \<times> int) list"
  c_chain_id :: string
  c_block_pool :: "Block list"
  c_max_bytes :: int
  c_max_cross_shard_bytes :: int
  c_EnablePipelineFlag :: bool
  c_outbox :: "outgoing list"

text \<open>
  The code the state machine calls: \<open>e_exec\<close> is \<open>Execution\<close> of the application, \<open>e_reap\<close> and
  \<open>e_update\<close> are \<open>ReapTx\<close> and \<open>Update\<close> of a mempool, \<open>e_sign\<close> is the signer.
\<close>

record ('pk, 'sg, 'app, 'mp, 's) env =
  e_bls :: "('pk, 'sg) bls_lib"
  e_hash :: hash_fn
  e_wire :: wire
  e_vote :: "pb_Vote \<Rightarrow> bytes"
  e_proposal :: "pb_Proposal \<Rightarrow> bytes"
  e_enc_csm :: "pb_CrossShardMessage \<Rightarrow> bytes"
  e_dec_csm :: "bytes \<Rightarrow> pb_CrossShardMessage option"
  e_exec :: "'app \<Rightarrow> Txs \<Rightarrow> Txs \<Rightarrow> Txs list \<Rightarrow> ('app \<times> Txs list) option"
  e_reap :: "'mp \<Rightarrow> int \<Rightarrow> Txs option"
  e_update :: "'mp \<Rightarrow> Txs \<Rightarrow> 'mp"
  e_store :: "'s db_ops"
  e_sign :: "bytes \<Rightarrow> string option"
  e_now :: timestamp

datatype cons_error =
    ErrBlockData bd_error | ErrGen gen_error | ErrVote hs_error | ErrSign | ErrDB db_error | ErrDecodeCsm
  | ErrChainID | ErrProposalSignature | ErrNoShard | ErrDuplicatedCsm
  | ErrHashJ2 | ErrHashJ1 | ErrIntentionCount | ErrCertificateCount
  | ErrPart part_error | ErrHeader header_error | ErrCsm block_error

type_synonym ('pk, 'app, 'mp, 's) cons_result = "(cons_error option \<times> ('pk, 'app, 'mp, 's) cons_State) option"

definition STEP_VALIDATOR :: string where "STEP_VALIDATOR = ''validator-wait''"
definition STEP_LEADER_VOTE :: string where "STEP_LEADER_VOTE = ''leader-vote''"
definition STEP_LEADER_WAIT :: string where "STEP_LEADER_WAIT = ''leader-wait''"

definition isProposer :: "('pk, 'app, 'mp, 's) cons_State \<Rightarrow> bool" where
  "isProposer st \<longleftrightarrow> c_proposerIndex st = c_signerIndex st"

definition block_pool_size :: "('pk, 'app, 'mp, 's) cons_State \<Rightarrow> int" where
  "block_pool_size st = int (length (c_block_pool st))"

text \<open>The inner option is a nil block.\<close>

definition fetch_block :: "('pk, 'app, 'mp, 's) cons_State \<Rightarrow> int \<Rightarrow> Block option option" where
  "fetch_block st pre_index = (if pre_index > block_pool_size st then Some None
     else map_option Some (index (c_block_pool st) (block_pool_size st - pre_index)))"

definition append_block :: "('pk, 'app, 'mp, 's) cons_State \<Rightarrow> Block \<Rightarrow> ('pk, 'app, 'mp, 's) cons_State" where
  "append_block st b = (if block_pool_size st = 7 then st\<lparr>c_block_pool := tl (c_block_pool st) @ [b]\<rparr>
     else st\<lparr>c_block_pool := c_block_pool st @ [b]\<rparr>)"

definition hash_of :: "('pk, 'sg, 'app, 'mp, 's) env \<Rightarrow> Block option \<Rightarrow> bytes option" where
  "hash_of e b = map_option snd (Block_Hash (w_codec (e_wire e)) (e_hash e) b)"

definition next_step :: "('pk, 'app, 'mp, 's) cons_State \<Rightarrow> string option" where
  "next_step st = (if \<not> isProposer st then Some STEP_VALIDATOR
     else map_option (\<lambda>q. if q then STEP_LEADER_WAIT else STEP_LEADER_VOTE) (IsQuorum (c_hs st)))"

definition send :: "outgoing list \<Rightarrow> ('pk, 'app, 'mp, 's) cons_State \<Rightarrow> ('pk, 'app, 'mp, 's) cons_State" where
  "send ms st = st\<lparr>c_outbox := c_outbox st @ ms\<rparr>"

section \<open>Messages of the other shards\<close>

definition csm_key :: "string \<Rightarrow> bytes \<Rightarrow> bytes" where
  "csm_key shard hash = bytes_of_string shard @ bytes_of_string '':'' @ hash"

definition extendHash :: "('pk, 'app, 'mp, 's) cons_State \<Rightarrow> CrossShardMessage \<Rightarrow> ('pk, 'app, 'mp, 's) cons_State option" where
  "extendHash st msg = map_option (\<lambda>v. st\<lparr>c_block_data := (c_block_data st)\<lparr>
       finished := AList.update (SourceChain msg) msg (finished (c_block_data st)),
       lastHash := AList.update (SourceChain msg) (a_ForHash v) (lastHash (c_block_data st))\<rparr>\<rparr>) (csm_AggVote msg)"

text \<open>
  The loop ranges over the map as it is at the start. A stored message has the key of its own source
  shard, so an iteration writes only the entry it is at.
\<close>

fun redo_loop :: "('pk, 'sg, 'app, 'mp, 's) env \<Rightarrow> (string \<times> bytes) list \<Rightarrow> ('pk, 'app, 'mp, 's) cons_State \<Rightarrow> ('pk, 'app, 'mp, 's) cons_result" where
  "redo_loop e [] st = Some (None, st)"
| "redo_loop e ((shard, hash) # rest) st =
     (if shard = c_chain_id st then redo_loop e rest st
      else (case GetSpecial (e_store e) (c_store st) (csm_key shard hash) of
          Inl err \<Rightarrow> Some (Some (ErrDB err), st)
        | Inr bz \<Rightarrow>
            if length (slice_bytes bz) = 0 then redo_loop e rest st
            else (case e_dec_csm e (slice_bytes bz) of
                None \<Rightarrow> Some (Some ErrDecodeCsm, st)
              | Some pb \<Rightarrow> do {
                  csm \<leftarrow> NewCrossShardMessageFromProto pb;
                  st' \<leftarrow> extendHash st csm;
                  redo_loop e rest st' })))"

definition redo_CrossShardMessage :: "('pk, 'sg, 'app, 'mp, 's) env \<Rightarrow> ('pk, 'app, 'mp, 's) cons_State \<Rightarrow> ('pk, 'app, 'mp, 's) cons_result" where
  "redo_CrossShardMessage e st = redo_loop e (lastHash (c_block_data st)) st"

text \<open>The part of the message that all shards get; it is empty while the pool is short.\<close>

definition model_csm :: "('pk, 'sg, 'app, 'mp, 's) env \<Rightarrow> ('pk, 'app, 'mp, 's) cons_State \<Rightarrow> AggregatedVote \<Rightarrow> (CrossShardMessage \<times> Block option) option" where
  "model_csm e st sig =
     (let csm = \<lparr>SourceChain = c_chain_id st, csm_AggVote = Some sig, csm_IntentionBrief = [], csm_ProofOfIntention = None,
        OPTXs = None, csm_OutputTxsProof = None\<rparr>
      in if block_pool_size st \<ge> 4 then do {
           b \<leftarrow> fetch_block st 2;
           block_j_2 \<leftarrow> b;
           ci \<leftarrow> CI block_j_2;
           (b1, ip) \<leftarrow> GetCommitIntentionProof (w_codec (e_wire e)) (e_hash e) block_j_2;
           Some (csm\<lparr>csm_IntentionBrief := GetBrief ci,
             csm_ProofOfIntention := Some \<lparr>IntentionHashProof = ip, RightHash = snd (RrightHash (w_codec (e_wire e)) (e_hash e) ci)\<rparr>\<rparr>, Some block_j_2) }
         else Some (csm, None))"

definition shard_csm :: "('pk, 'sg, 'app, 'mp, 's) env \<Rightarrow> ('pk, 'app, 'mp, 's) cons_State \<Rightarrow> CrossShardMessage \<times> Block option \<Rightarrow> int \<Rightarrow> CrossShardMessage option" where
  "shard_csm e st model i = (case model of
      (csm, None) \<Rightarrow> Some csm
    | (csm, Some block_j_2) \<Rightarrow> do {
        txs \<leftarrow> index (j_2_cross_shard_txs (c_block_data st)) i;
        (b1, proof) \<leftarrow> GetOutputTxsProofOf (w_codec (e_wire e)) (e_hash e) block_j_2 i;
        Some (csm\<lparr>OPTXs := txs, csm_OutputTxsProof := Some proof\<rparr>) })"

text \<open>The goroutines write to different places; they are run in the order of the shards.\<close>

fun broadcast :: "('pk, 'sg, 'app, 'mp, 's) env \<Rightarrow> CrossShardMessage \<times> Block option \<Rightarrow> nat \<Rightarrow> string list \<Rightarrow>
    ('pk, 'app, 'mp, 's) cons_State \<Rightarrow> ('pk, 'app, 'mp, 's) cons_State option" where
  "broadcast e model i [] st = Some st"
| "broadcast e model i (shard # shards) st = do {
     csm \<leftarrow> shard_csm e st model (int i);
     st' \<leftarrow> (if shard = c_chain_id st then extendHash st csm
        else do {
          pb \<leftarrow> CrossShardMessage_ToProto csm;
          leader \<leftarrow> map_of (c_leaders st) shard;
          Some (send [SendCsm shard leader pb] st) });
     broadcast e model (Suc i) shards st' }"

definition CrossShardCommunicate :: "('pk, 'sg, 'app, 'mp, 's) env \<Rightarrow> ('pk, 'app, 'mp, 's) cons_State \<Rightarrow> ('pk, 'app, 'mp, 's) cons_result" where
  "CrossShardCommunicate e st = do {
     (err, st1) \<leftarrow> redo_CrossShardMessage e st;
     (case err of
        Some x \<Rightarrow> Some (Some x, st1)
      | None \<Rightarrow> do {
          r \<leftarrow> GetMaj23 (e_bls e) (c_hs st1);
          (case r of
             Inl x \<Rightarrow> Some (Some (ErrVote x), st1)
           | Inr (sig, hs) \<Rightarrow> do {
               let st2 = st1\<lparr>c_hs := hs\<rparr>;
               model \<leftarrow> model_csm e st2 sig;
               st3 \<leftarrow> broadcast e model 0 (c_ShardIDList st2) st2;
               Some (None, st3) }) }) }"

section \<open>Validators\<close>

definition verify_block :: "('pk, 'sg, 'app, 'mp, 's) env \<Rightarrow> ('pk, 'app, 'mp, 's) cons_State \<Rightarrow> Block \<Rightarrow> cons_error option option" where
  "verify_block e st block =
     (if h_View (Header_of block) < 5 then Some None
      else do {
        aggSig \<leftarrow> AggSigVote block;
        b2 \<leftarrow> fetch_block st 2;
        h2 \<leftarrow> hash_of e b2;
        if h2 \<noteq> GetLastHashOfAggVote aggSig then Some (Some ErrHashJ2)
        else do {
          b1 \<leftarrow> fetch_block st 1;
          h1 \<leftarrow> hash_of e b1;
          if h1 \<noteq> a_ForHash aggSig then Some (Some ErrHashJ1)
          else do {
            ci \<leftarrow> CI block;
            if length (IntentionHash ci) \<noteq> length (c_ShardIDList st) then Some (Some ErrIntentionCount)
            else if length (CC block) \<noteq> length (c_ShardIDList st) then Some (Some ErrCertificateCount)
            else Some None } } })"

definition generate_vote_for_block :: "('pk, 'sg, 'app, 'mp, 's) env \<Rightarrow> Block \<Rightarrow> bytes \<Rightarrow> cons_error option \<Rightarrow> int \<Rightarrow> Vote option option" where
  "generate_vote_for_block e block lh blockErr i = do {
     h \<leftarrow> hash_of e (Some block);
     let vote = NewVote (h_View (Header_of block)) (h_Round (Header_of block)) h [] i;
     let vote = (if blockErr = None then SetOK vote else SetReject vote);
     let vote = SetLastHashOfVote vote lh;
     Some (map_option (\<lambda>s. vote\<lparr>v_Sign := s\<rparr>) (e_sign e (Vote_SignBytes (e_vote e) vote))) }"

text \<open>The responses of the execution; a nil block gives none.\<close>

definition commit_and_execution_j_2 :: "('pk, 'sg, 'app, 'mp, 's) env \<Rightarrow> ('pk, 'app, 'mp, 's) cons_State \<Rightarrow> (Txs list \<times> ('pk, 'app, 'mp, 's) cons_State) option" where
  "commit_and_execution_j_2 e st = do {
     b \<leftarrow> fetch_block st 2;
     (case b of
        None \<Rightarrow> Some ([], st)
      | Some block_j_2 \<Rightarrow> do {
          (app, opTxs) \<leftarrow> e_exec e (c_abci st) (PTXS block_j_2) (CrossShardTxs block_j_2) (CTXS block_j_2);
          Some (opTxs, st\<lparr>c_abci := app\<rparr>) }) }"

definition enterNextView :: "('pk, 'app, 'mp, 's) cons_State \<Rightarrow> ('pk, 'app, 'mp, 's) cons_State" where
  "enterNextView st = st\<lparr>c_block_data := bd_next (c_block_data st) (s_View (c_hs st) + 1) 0, c_hs := EnterNewView (c_hs st)\<rparr>"

definition doValidate :: "('pk, 'sg, 'app, 'mp, 's) env \<Rightarrow> ('pk, 'app, 'mp, 's) cons_State \<Rightarrow> Block \<Rightarrow> ('pk, 'app, 'mp, 's) cons_result" where
  "doValidate e st block = do {
     blockErr \<leftarrow> verify_block e st block;
     lastBlock \<leftarrow> fetch_block st 1;
     lh \<leftarrow> hash_of e lastBlock;
     v \<leftarrow> generate_vote_for_block e block lh blockErr (c_signerIndex st);
     (case v of
        None \<Rightarrow> Some (Some ErrSign, st)
      | Some vote \<Rightarrow> do {
          st' \<leftarrow> (if Vote_IsOK vote then do {
              (_, st1) \<leftarrow> commit_and_execution_j_2 e st;
              Some (append_block (enterNextView st1) block) }
            else Some st);
          Some (None, send [SendVote (c_chain_id st') (c_proposerIndex st') vote] st') }) }"

section \<open>The leader\<close>

text \<open>The lists that a block takes from the messages of the last view; a missing message panics.\<close>

definition shard_messages :: "('pk, 'app, 'mp, 's) cons_State \<Rightarrow> CrossShardMessage list option" where
  "shard_messages st = map_or_panic (map_of (j_1finished (c_block_data st))) (c_ShardIDList st)"

definition make_intention :: "CrossShardMessage list \<Rightarrow> CommitIntention option" where
  "make_intention msgs = do {
     votes \<leftarrow> map_or_panic csm_AggVote msgs;
     Some \<lparr>IntentionHash = map GetLastHashOfAggVote votes, AggregatedSignatures = votes, rightHash = [], leftHash = []\<rparr> }"

definition make_certificate :: "CrossShardMessage list \<Rightarrow> CommitCertificateCore list option" where
  "make_certificate msgs = map_or_panic (\<lambda>csm. do {
     h \<leftarrow> GetLastHash csm;
     poi \<leftarrow> csm_ProofOfIntention csm;
     Some \<lparr>core_Hash = h, MKProof = poi, IntentionBrief = csm_IntentionBrief csm\<rparr> }) msgs"

text \<open>
  The block before it is hashed. A mempool error makes the code return a nil block, which the
  caller dereferences: \<open>None\<close>.
\<close>

definition raw_block :: "('pk, 'sg, 'app, 'mp, 's) env \<Rightarrow> ('pk, 'app, 'mp, 's) cons_State \<Rightarrow> Txs list \<Rightarrow> Block option" where
  "raw_block e st opTxs = do {
     lastBlock \<leftarrow> fetch_block st 1;
     lh \<leftarrow> hash_of e lastBlock;
     agg \<leftarrow> (if block_pool_size st \<ge> 1 then do {
         csm \<leftarrow> map_of (j_1finished (c_block_data st)) (c_chain_id st);
         Some (csm_AggVote csm) } else Some None);
     (ptxs, ctxs) \<leftarrow> (if c_EnablePipelineFlag st \<or> s_View (c_hs st) smod 6 = 0 then do {
         p \<leftarrow> e_reap e (c_mempool st) (c_max_bytes st);
         c \<leftarrow> e_reap e (c_cross_shard_mempool st) (c_max_cross_shard_bytes st);
         Some (p, c) } else Some (None, None));
     ci \<leftarrow> (if block_pool_size st \<ge> 2 then do {
         msgs \<leftarrow> shard_messages st; ci \<leftarrow> make_intention msgs; Some (Some ci) } else Some None);
     cc \<leftarrow> (if block_pool_size st \<ge> 4 then Option.bind (shard_messages st) make_certificate else Some []);
     committed \<leftarrow> (if block_pool_size st \<ge> 4 then shard_messages st else Some []);
     Some \<lparr>Header_of = \<lparr>HashPointer = lh, h_ChainID = c_chain_id st, h_View = s_View (c_hs st), h_Round = s_Round (c_hs st), h_Time = e_now e,
         PrepareRoot = [], CrossShardRoot = [], OutputTxsRoot = [], LastAggSigRoot = [], CommitIntentionRoot = [], CommitCertificateRoot = [],
         CommitTxsListRoot = [], StateRoot = [], h_hash = [], mkproof = []\<rparr>,
       PTXS = ptxs, CrossShardTxs = ctxs, OPT = map (Txs_Hash (e_hash e)) opTxs, AggSigVote = agg, CI = ci, CC = cc,
       CTXS = map OPTXs committed, CTXSProof = map csm_OutputTxsProof committed\<rparr> }"

definition make_block :: "('pk, 'sg, 'app, 'mp, 's) env \<Rightarrow> ('pk, 'app, 'mp, 's) cons_State \<Rightarrow> Txs list \<Rightarrow> (Block \<times> ('pk, 'app, 'mp, 's) cons_State) option" where
  "make_block e st opTxs = do {
     b \<leftarrow> raw_block e st opTxs;
     (b', _) \<leftarrow> Block_Hash (w_codec (e_wire e)) (e_hash e) (Some b);
     b'' \<leftarrow> b';
     Some (b'', st\<lparr>c_block_data := (c_block_data st)\<lparr>j_1_cross_shard_txs := opTxs\<rparr>\<rparr>) }"

text \<open>The leader's own vote, and the clean-up of the mempools.\<close>

definition own_vote :: "('pk, 'sg, 'app, 'mp, 's) env \<Rightarrow> ('pk, 'app, 'mp, 's) cons_State \<Rightarrow> Block \<Rightarrow> ('pk, 'app, 'mp, 's) cons_result" where
  "own_vote e st block = do {
     v \<leftarrow> generate_vote_for_block e block (HashPointer (Header_of block)) None (c_signerIndex st);
     (case v of
        None \<Rightarrow> Some (Some ErrSign, st)
      | Some vote \<Rightarrow> do {
          r \<leftarrow> AddVote (e_bls e) (e_vote e) (c_hs st) vote;
          (case r of
             Inl x \<Rightarrow> Some (Some (ErrVote x), st)
           | Inr hs \<Rightarrow>
               let st1 = append_block (st\<lparr>c_hs := hs\<rparr>) block
               in Some (None, st1\<lparr>c_mempool := e_update e (c_mempool st1) (PTXS block),
                    c_cross_shard_mempool := e_update e (c_cross_shard_mempool st1) (CrossShardTxs block)\<rparr>)) }) }"

text \<open>A signer that fails on the proposal panics.\<close>

definition send_proposal :: "('pk, 'sg, 'app, 'mp, 's) env \<Rightarrow> ('pk, 'app, 'mp, 's) cons_State \<Rightarrow> Block \<Rightarrow> PartSet \<Rightarrow> ('pk, 'app, 'mp, 's) cons_State option" where
  "send_proposal e st block partset = do {
     h \<leftarrow> hash_of e (Some block);
     let proposal = NewProposal (ps_Header partset) (c_signerIndex st) (ps_BlockHeaderHash partset);
     sig \<leftarrow> e_sign e (Proposal_SignBytes (e_proposal e) proposal);
     parts \<leftarrow> map_or_panic id (Parts partset);
     Some (send (SendShard (c_chain_id st) (proposal\<lparr>pr_Signature := sig\<rparr>) # map (SendShardPart (c_chain_id st)) parts)
       (st\<lparr>c_hs := SetHash (c_hs st) h\<rparr>)) }"

text \<open>Waiting in the first view has no effect here.\<close>

definition doPropose :: "('pk, 'sg, 'app, 'mp, 's) env \<Rightarrow> ('pk, 'app, 'mp, 's) cons_State \<Rightarrow> ('pk, 'app, 'mp, 's) cons_result" where
  "doPropose e st = do {
     (resp, st1) \<leftarrow> commit_and_execution_j_2 e st;
     (block0, st2) \<leftarrow> make_block e (enterNextView st1) resp;
     (block, partset, bd, err) \<leftarrow> addBlock (e_wire e) (e_hash e) (c_block_data st2) block0 40960 (s_Round (c_hs st2));
     (case err of
        Some x \<Rightarrow> Some (Some (ErrBlockData x), st2\<lparr>c_block_data := bd\<rparr>)
      | None \<Rightarrow> do {
          st3 \<leftarrow> send_proposal e (st2\<lparr>c_block_data := bd\<rparr>) block partset;
          own_vote e st3 block }) }"

section \<open>The transition loop\<close>

text \<open>
  One run of the body of \<open>handle_state_transition\<close> up to its recursive call: whether the call is
  reached, the error, and the state. \<open>Stop\<close> ends in a panic.
\<close>

definition act :: "('pk, 'sg, 'app, 'mp, 's) env \<Rightarrow> ('pk, 'app, 'mp, 's) cons_State \<Rightarrow> (bool \<times> cons_error option \<times> ('pk, 'app, 'mp, 's) cons_State) option" where
  "act e st =
     (let bd = c_block_data st; view = s_View (c_hs st); round = s_Round (c_hs st);
          run = map_option (\<lambda>(err, st'). (err = None, err, st'))
      in if c_step st = STEP_VALIDATOR then
           if isComplete bd view round then do {
             (err, b) \<leftarrow> getBlock (e_wire e) (e_hash e) bd view round;
             (case err of
                Some (Inl x) \<Rightarrow> Some (False, Some (ErrBlockData x), st)
              | Some (Inr x) \<Rightarrow> Some (False, Some (ErrGen x), st)
              | None \<Rightarrow> Option.bind b (\<lambda>block. run (doValidate e st block))) }
           else Some (False, None, st)
         else if c_step st = STEP_LEADER_WAIT then
           if isCrossShardMessageComplete bd then run (doPropose e st) else Some (False, None, st)
         else if c_step st = STEP_LEADER_VOTE then do {
           q \<leftarrow> IsQuorum (c_hs st);
           if q then run (CrossShardCommunicate e st) else Some (False, None, st) }
         else Some (True, None, st))"

definition stopped :: "('pk, 'app, 'mp, 's) cons_State \<Rightarrow> bool" where
  "stopped st \<longleftrightarrow> isProposer st \<and> (c_EnablePipelineFlag st \<and> s_View (c_hs st) > 100 \<or> s_View (c_hs st) > 600)"

definition transition :: "('pk, 'sg, 'app, 'mp, 's) env \<Rightarrow> ('pk, 'app, 'mp, 's) cons_State \<Rightarrow> (bool \<times> cons_error option \<times> ('pk, 'app, 'mp, 's) cons_State) option" where
  "transition e st = do {
     (go, err, st1) \<leftarrow> act e st;
     if \<not> go then Some (False, err, st1)
     else do {
       s \<leftarrow> next_step st1;
       let st2 = st1\<lparr>c_step := s\<rparr>;
       if stopped st2 then None else Some (True, None, st2) } }"

text \<open>The recursive function: the outer \<open>None\<close> means that it never returns, the inner one is a panic.\<close>

partial_function (option) handle_state_transition :: "('pk, 'sg, 'app, 'mp, 's) env \<Rightarrow> ('pk, 'app, 'mp, 's) cons_State \<Rightarrow>
    ('pk, 'app, 'mp, 's) cons_result option" where
  "handle_state_transition e st = (case transition e st of
      None \<Rightarrow> Some None
    | Some (go, err, st') \<Rightarrow> if go then handle_state_transition e st' else Some (Some (err, st')))"

section \<open>Messages\<close>

datatype incoming = InPart Part | InProposal Proposal | InCsm CrossShardMessage | InVote Vote

text \<open>Decoded messages. The effect of a message before the transition loop runs:\<close>

definition store_csm :: "('pk, 'sg, 'app, 'mp, 's) env \<Rightarrow> ('pk, 'app, 'mp, 's) cons_State \<Rightarrow> CrossShardMessage \<Rightarrow> ('pk, 'app, 'mp, 's) cons_result" where
  "store_csm e st msg = do {
     lh \<leftarrow> GetLastHash msg;
     let key = csm_key (SourceChain msg) lh;
     if map_of (c_leaders st) (SourceChain msg) = None then Some (Some ErrNoShard, st)
     else (case HasSpecial (e_store e) (c_store st) key of
         Inl x \<Rightarrow> Some (Some (ErrDB x), st)
       | Inr True \<Rightarrow> Some (Some ErrDuplicatedCsm, st)
       | Inr False \<Rightarrow> do {
           pb \<leftarrow> CrossShardMessage_ToProto msg;
           (case SetSpecial (e_store e) (c_store st) key (Some (e_enc_csm e pb)) of
              Inl x \<Rightarrow> Some (Some (ErrDB x), st)
            | Inr s \<Rightarrow>
                let st1 = st\<lparr>c_store := s\<rparr>; bd = c_block_data st
                in if map_of (finished bd) (SourceChain msg) = None
                      \<and> (case map_of (lastHash bd) (SourceChain msg) of None \<Rightarrow> [] | Some h \<Rightarrow> h) = lh
                   then map_option (\<lambda>st2. (None, st2)) (extendHash st1 msg) else Some (None, st1)) }) }"

definition take_message :: "('pk, 'sg, 'app, 'mp, 's) env \<Rightarrow> ('pk, 'app, 'mp, 's) cons_State \<Rightarrow> incoming \<Rightarrow> ('pk, 'app, 'mp, 's) cons_result" where
  "take_message e st msg = (case msg of
      InPart p \<Rightarrow>
        if p_ChainID p \<noteq> c_chain_id st then Some (Some ErrChainID, st)
        else map_option (\<lambda>(bd, err). (map_option ErrBlockData err, st\<lparr>c_block_data := bd\<rparr>)) (bd_addPart (e_hash e) (c_block_data st) p)
    | InProposal p \<Rightarrow>
        if psh_ChainID (pr_Header p) \<noteq> c_chain_id st then Some (Some ErrChainID, st)
        else do {
          ok \<leftarrow> Verify (e_bls e) (c_verifier st) (pr_Signature p) (Proposal_SignBytes (e_proposal e) p) (pr_ProposerIndex p);
          if \<not> ok then Some (Some ErrProposalSignature, st)
          else map_option (\<lambda>(bd, err). (map_option ErrBlockData err, st\<lparr>c_block_data := bd\<rparr>))
            (addPartSetHeader (e_hash e) (c_block_data st) (pr_Header p) (pr_BlockHeaderHash p)) }
    | InCsm csm \<Rightarrow> store_csm e st csm
    | InVote v \<Rightarrow> map_option (\<lambda>r. case r of Inl x \<Rightarrow> (Some (ErrVote x), st) | Inr hs \<Rightarrow> (None, st\<lparr>c_hs := hs\<rparr>))
        (AddVote (e_bls e) (e_vote e) (c_hs st) v))"

definition doMessage :: "('pk, 'sg, 'app, 'mp, 's) env \<Rightarrow> ('pk, 'app, 'mp, 's) cons_State \<Rightarrow> incoming \<Rightarrow> ('pk, 'app, 'mp, 's) cons_result option" where
  "doMessage e st msg = (case take_message e st msg of
      None \<Rightarrow> Some None
    | Some (Some x, st') \<Rightarrow> Some (Some (Some x, st'))
    | Some (None, st') \<Rightarrow> handle_state_transition e st')"

definition validate_message :: "('pk, 'sg, 'app, 'mp, 's) env \<Rightarrow> incoming \<Rightarrow> cons_error option option" where
  "validate_message e msg = (case msg of
      InPart p \<Rightarrow> map_option (\<lambda>r. case r of Inl x \<Rightarrow> Some (ErrPart x) | Inr _ \<Rightarrow> None) (Part_ValidateBasic p)
    | InProposal p \<Rightarrow> Some (case Proposal_ValidateBasic p of Inl x \<Rightarrow> Some (ErrHeader x) | Inr _ \<Rightarrow> None)
    | InCsm csm \<Rightarrow> map_option (\<lambda>r. case r of Inl x \<Rightarrow> Some (ErrCsm x) | Inr _ \<Rightarrow> None) (CrossShardMessage_ValidateBasic (e_hash e) csm)
    | InVote v \<Rightarrow> Some (case Vote_ValidateBasic v of Inl x \<Rightarrow> Some (ErrVote x) | Inr _ \<Rightarrow> None))"

definition Receive :: "('pk, 'sg, 'app, 'mp, 's) env \<Rightarrow> ('pk, 'app, 'mp, 's) cons_State \<Rightarrow> incoming \<Rightarrow> ('pk, 'app, 'mp, 's) cons_result option" where
  "Receive e st msg = (case validate_message e msg of
      None \<Rightarrow> Some None
    | Some (Some x) \<Rightarrow> Some (Some (Some x, st))
    | Some None \<Rightarrow> doMessage e st msg)"

text \<open>Starting at view 0 proposes or waits; an error of the proposal panics, one of the loop is dropped.\<close>

definition Start :: "('pk, 'sg, 'app, 'mp, 's) env \<Rightarrow> ('pk, 'app, 'mp, 's) cons_State \<Rightarrow> ('pk, 'app, 'mp, 's) cons_result option" where
  "Start e st =
     (if s_View (c_hs st) = 0 then
        if isProposer st then Some (case doPropose e st of
            Some (None, st') \<Rightarrow> Some (None, st'\<lparr>c_step := STEP_LEADER_VOTE\<rparr>) | _ \<Rightarrow> None)
        else Some (Some (None, (enterNextView st)\<lparr>c_step := STEP_VALIDATOR\<rparr>))
      else map_option (map_option (\<lambda>(_, st'). (None, st'))) (handle_state_transition e st))"

definition NewConsensusState :: "int \<Rightarrow> int \<Rightarrow> int \<Rightarrow> string \<Rightarrow> string list \<Rightarrow> (string \<times> int) list \<Rightarrow> 'pk Verifier \<Rightarrow> int list \<Rightarrow>
    'mp \<Rightarrow> 'mp \<Rightarrow> 'app \<Rightarrow> 's \<Rightarrow> int \<Rightarrow> int \<Rightarrow> ('pk, 'app, 'mp, 's) cons_State option" where
  "NewConsensusState view round signer_index chain shards leaders validators perVotes mp csmp app s max_bytes max_cross =
     map_option (\<lambda>leader. \<lparr>c_hs = NewState view round signer_index validators perVotes, c_mempool = mp, c_cross_shard_mempool = csmp,
       c_abci = app, c_store = s, c_step = [], c_signerIndex = signer_index, c_proposerIndex = leader, c_verifier = validators,
       c_block_data = NewBlockData view round (map (\<lambda>id. (id, [])) (remdups shards)) [], c_ShardIDList = shards, c_leaders = leaders, c_chain_id = chain,
       c_block_pool = [], c_max_bytes = max_bytes, c_max_cross_shard_bytes = max_cross, c_EnablePipelineFlag = False, c_outbox = []\<rparr>)
       (map_of leaders chain)"

section \<open>Running the loop\<close>

definition proceeds :: "('pk, 'sg, 'app, 'mp, 's) env \<Rightarrow> ('pk, 'app, 'mp, 's) cons_State \<Rightarrow> ('pk, 'app, 'mp, 's) cons_State \<Rightarrow> bool" where
  "proceeds e st st' \<longleftrightarrow> (\<exists>err. transition e st = Some (True, err, st'))"

lemma handle_proceeds: "proceeds e st st' \<Longrightarrow> handle_state_transition e st = handle_state_transition e st'"
  by (auto simp: proceeds_def handle_state_transition.simps [of e st])

lemma handle_stops: "(\<And>st'. \<not> proceeds e st st') \<Longrightarrow> handle_state_transition e st \<noteq> None"
  by (auto simp: proceeds_def handle_state_transition.simps [of e st] split: option.split)

lemma handle_reaches: "(proceeds e)\<^sup>*\<^sup>* st st' \<Longrightarrow> handle_state_transition e st = handle_state_transition e st'"
  by (induction rule: rtranclp_induct) (auto dest: handle_proceeds)

text \<open>A set of states that the loop never leaves: it does not return.\<close>

lemma handle_diverges:
  fixes e :: "('pk, 'sg, 'app, 'mp, 's) env"
  assumes "\<And>st. Q st \<Longrightarrow> \<exists>st'. proceeds e st st' \<and> Q st'" and "Q st"
  shows "handle_state_transition e st = None"
proof (rule ccontr)
  assume "handle_state_transition e st \<noteq> None"
  then obtain r where r: "handle_state_transition e st = Some r" by blast
  have "e' = e \<longrightarrow> \<not> Q st" if "handle_state_transition e' st = Some r" for e' st r
  proof (rule handle_state_transition.raw_induct [where P = "\<lambda>e' st r. e' = e \<longrightarrow> \<not> Q st", OF _ that])
    fix f :: "('pk, 'sg, 'app, 'mp, 's) env \<Rightarrow> ('pk, 'app, 'mp, 's) cons_State \<Rightarrow> ('pk, 'app, 'mp, 's) cons_result option" and e' st r
    assume IH: "\<And>e' st r. f e' st = Some r \<Longrightarrow> e' = e \<longrightarrow> \<not> Q st"
      and eq: "(case transition e' st of None \<Rightarrow> Some None
        | Some (go, err, st') \<Rightarrow> if go then f e' st' else Some (Some (err, st'))) = Some r"
    show "e' = e \<longrightarrow> \<not> Q st"
    proof (rule impI, rule notI)
      assume "e' = e" "Q st"
      from assms(1) [OF this(2)] obtain st' err where "transition e st = Some (True, err, st')" "Q st'" by (auto simp: proceeds_def)
      then show False using eq IH [of e st'] \<open>e' = e\<close> by auto
    qed
  qed
  from this [OF r] assms(2) show False by simp
qed

text \<open>A measure that every step decreases: it returns.\<close>

lemma handle_returns:
  fixes m :: "('pk, 'app, 'mp, 's) cons_State \<Rightarrow> nat"
  assumes "\<And>st1 st2. I st1 \<Longrightarrow> proceeds e st1 st2 \<Longrightarrow> I st2 \<and> m st2 < m st1" and "I st"
  shows "handle_state_transition e st \<noteq> None"
  using assms(2)
proof (induction "m st" arbitrary: st rule: less_induct)
  case less
  show ?case
  proof (cases "\<exists>st'. proceeds e st st'")
    case True
    then obtain st' where s: "proceeds e st st'" by blast
    have "handle_state_transition e st' \<noteq> None" using assms(1) [OF less.prems s] by (intro less.hyps) auto
    then show ?thesis using handle_proceeds [OF s] by simp
  next
    case False
    then show ?thesis by (intro handle_stops) blast
  qed
qed

section \<open>What a step of the loop does\<close>

lemma send_fields [simp]:
  "c_hs (send ms st) = c_hs st" "c_step (send ms st) = c_step st" "c_block_data (send ms st) = c_block_data st"
  "c_block_pool (send ms st) = c_block_pool st" "c_chain_id (send ms st) = c_chain_id st" "c_proposerIndex (send ms st) = c_proposerIndex st"
  "c_signerIndex (send ms st) = c_signerIndex st" "c_ShardIDList (send ms st) = c_ShardIDList st"
  "c_EnablePipelineFlag (send ms st) = c_EnablePipelineFlag st" "c_abci (send ms st) = c_abci st"
  by (simp_all add: send_def)

lemma send_readers [simp]:
  "isProposer (send ms st) = isProposer st" "block_pool_size (send ms st) = block_pool_size st" "stopped (send ms st) = stopped st"
  "next_step (send ms st) = next_step st"
  by (simp_all add: isProposer_def block_pool_size_def stopped_def next_step_def)

lemma send_fetch [simp]: "fetch_block (send ms st) = fetch_block st"
  by (rule ext) (simp add: fetch_block_def)

lemma send_verify [simp]: "verify_block e (send ms st) = verify_block e st"
  by (rule ext) (simp only: verify_block_def send_fields send_fetch)

text \<open>The replica's identity, which no step changes.\<close>

definition same_replica :: "('pk, 'app, 'mp, 's) cons_State \<Rightarrow> ('pk, 'app, 'mp, 's) cons_State \<Rightarrow> bool" where
  "same_replica st st' \<longleftrightarrow> c_signerIndex st' = c_signerIndex st \<and> c_proposerIndex st' = c_proposerIndex st
     \<and> c_EnablePipelineFlag st' = c_EnablePipelineFlag st \<and> c_chain_id st' = c_chain_id st \<and> c_ShardIDList st' = c_ShardIDList st"

lemma same_replica_refl [simp]: "same_replica st st"
  by (simp add: same_replica_def)

lemma same_replica_trans: "same_replica a b \<Longrightarrow> same_replica b c \<Longrightarrow> same_replica a c"
  by (simp add: same_replica_def)

lemma same_replica_proposer: "same_replica st st' \<Longrightarrow> isProposer st' = isProposer st"
  by (simp add: same_replica_def isProposer_def)

lemma exec_keeps:
  assumes "commit_and_execution_j_2 e st = Some (r, st')"
  shows "\<exists>app. st' = st\<lparr>c_abci := app\<rparr>"
proof -
  obtain b where b: "fetch_block st 2 = Some b" using assms by (auto simp: commit_and_execution_j_2_def bind_eq_Some_conv)
  show ?thesis
  proof (cases b)
    case None
    then show ?thesis using assms b by (intro exI [of _ "c_abci st"]) (simp add: commit_and_execution_j_2_def)
  next
    case (Some x)
    then show ?thesis using assms b by (auto simp: commit_and_execution_j_2_def bind_eq_Some_conv)
  qed
qed

definition keeps :: "('pk, 'app, 'mp, 's) cons_State \<Rightarrow> ('pk, 'app, 'mp, 's) cons_State \<Rightarrow> bool" where
  "keeps st st' \<longleftrightarrow> same_replica st st' \<and> c_hs st' = c_hs st"

lemma keeps_refl [simp]: "keeps st st" "keeps st (send ms st)"
  by (simp_all add: keeps_def same_replica_def)

lemma keeps_trans: "keeps a b \<Longrightarrow> keeps b c \<Longrightarrow> keeps a c"
  by (auto simp: keeps_def intro: same_replica_trans)

lemma extendHash_keeps: "extendHash st csm = Some st' \<Longrightarrow> keeps st st'"
  by (auto simp: extendHash_def keeps_def same_replica_def)

lemma redo_keeps: "redo_loop e hs st = Some (err, st') \<Longrightarrow> keeps st st'"
proof (induction hs arbitrary: st)
  case (Cons x hs)
  obtain shard hash where x: "x = (shard, hash)" by (cases x)
  show ?case
  proof (cases "shard = c_chain_id st")
    case True
    then show ?thesis using Cons x by simp
  next
    case other: False
    show ?thesis
    proof (cases "GetSpecial (e_store e) (c_store st) (csm_key shard hash)")
      case (Inr bz)
      show ?thesis
      proof (cases "length (slice_bytes bz) = 0 \<or> e_dec_csm e (slice_bytes bz) = None")
        case True
        then show ?thesis using Cons.prems Cons.IH [of st] x other Inr by (auto split: if_splits)
      next
        case False
        then obtain pb csm st1 where "NewCrossShardMessageFromProto pb = Some csm" "extendHash st csm = Some st1" "redo_loop e hs st1 = Some (err, st')"
          using Cons.prems x other Inr by (auto simp: bind_eq_Some_conv split: if_splits)
        then show ?thesis using Cons.IH keeps_trans [OF extendHash_keeps] by blast
      qed
    qed (use Cons.prems x other in simp)
  qed
qed simp

lemma broadcast_keeps: "broadcast e model i shards st = Some st' \<Longrightarrow> keeps st st'"
proof (induction shards arbitrary: i st)
  case (Cons shard shards)
  show ?case
  proof (cases "shard = c_chain_id st")
    case True
    then obtain csm st1 where "extendHash st csm = Some st1" "broadcast e model (Suc i) shards st1 = Some st'"
      using Cons.prems by (auto simp: bind_eq_Some_conv)
    then show ?thesis using Cons.IH keeps_trans [OF extendHash_keeps] by blast
  next
    case False
    then obtain leader pb where "broadcast e model (Suc i) shards (send [SendCsm shard leader pb] st) = Some st'"
      using Cons.prems by (auto simp: bind_eq_Some_conv)
    then show ?thesis using Cons.IH keeps_trans [OF keeps_refl(2)] by blast
  qed
qed simp

lemma CrossShardCommunicate_keeps:
  assumes "CrossShardCommunicate e st = Some (None, st')"
  shows "same_replica st st' \<and> s_View (c_hs st') = s_View (c_hs st) \<and> IsQuorum (c_hs st') = IsQuorum (c_hs st)"
proof -
  obtain st1 r where 1: "redo_CrossShardMessage e st = Some (None, st1)" "GetMaj23 (e_bls e) (c_hs st1) = Some r"
    using assms by (auto simp: CrossShardCommunicate_def bind_eq_Some_conv split: option.splits)
  obtain sig hs where r: "r = Inr (sig, hs)" using assms 1 by (cases r) (auto simp: CrossShardCommunicate_def)
  then obtain model where m: "broadcast e model 0 (c_ShardIDList (st1\<lparr>c_hs := hs\<rparr>)) (st1\<lparr>c_hs := hs\<rparr>) = Some st'"
    using assms 1 by (auto simp: CrossShardCommunicate_def bind_eq_Some_conv Let_def)
  obtain h h' where h: "heightDatas (c_hs st1) = Some h" "getMaj23 (e_bls e) h = Some (Inr (sig, h'))" "hs = (c_hs st1)\<lparr>heightDatas := Some h'\<rparr>"
    using 1(2) r GetMaj23_Inr by metis
  have "isQuorum h' = isQuorum h" using getMaj23_view [OF h(2)] by (auto simp: isQuorum_def)
  then have "s_View hs = s_View (c_hs st1) \<and> IsQuorum hs = IsQuorum (c_hs st1)" using h by (simp add: IsQuorum_def)
  moreover have "keeps st st1" using redo_keeps 1(1) by (auto simp: redo_CrossShardMessage_def)
  ultimately show ?thesis using broadcast_keeps [OF m] by (auto simp: keeps_def same_replica_def)
qed

lemma enterNextView_fields [simp]:
  "same_replica st (enterNextView st)" "s_View (c_hs (enterNextView st)) = s_View (c_hs st) + 1"
  "c_block_data (enterNextView st) = bd_next (c_block_data st) (s_View (c_hs st) + 1) 0" "c_step (enterNextView st) = c_step st"
  by (simp_all add: enterNextView_def same_replica_def EnterNewView_def Let_def)

lemma append_block_fields [simp]:
  "same_replica st (append_block st b)" "c_hs (append_block st b) = c_hs st" "c_block_data (append_block st b) = c_block_data st"
  "c_step (append_block st b) = c_step st" "c_signerIndex (append_block st b) = c_signerIndex st"
  "c_proposerIndex (append_block st b) = c_proposerIndex st" "c_EnablePipelineFlag (append_block st b) = c_EnablePipelineFlag st"
  "c_chain_id (append_block st b) = c_chain_id st" "c_ShardIDList (append_block st b) = c_ShardIDList st"
  by (simp_all add: append_block_def same_replica_def)

lemma AddVote_view: "AddVote b marshal hs v = Some (Inr hs') \<Longrightarrow> s_View hs' = s_View hs"
  by (auto simp: AddVote_Inr)

lemma make_block_keeps: "make_block e st r = Some (b, st') \<Longrightarrow> keeps st st'"
  by (auto simp: make_block_def bind_eq_Some_conv keeps_def same_replica_def)

lemma SetHash_view [simp]: "s_View (SetHash hs h) = s_View hs"
  by (simp add: SetHash_def Let_def)

lemma own_vote_keeps:
  assumes "own_vote e st block = Some (None, st')"
  shows "same_replica st st' \<and> s_View (c_hs st') = s_View (c_hs st)"
proof -
  obtain v where v: "generate_vote_for_block e block (HashPointer (Header_of block)) None (c_signerIndex st) = Some v"
    using assms by (auto simp: own_vote_def bind_eq_Some_conv)
  obtain vote where vote: "v = Some vote" using assms v by (cases v) (auto simp: own_vote_def)
  obtain r where r: "AddVote (e_bls e) (e_vote e) (c_hs st) vote = Some r" using assms v vote by (auto simp: own_vote_def bind_eq_Some_conv)
  obtain hs where hs: "r = Inr hs" using assms v vote r by (cases r) (auto simp: own_vote_def)
  have "s_View hs = s_View (c_hs st)" using AddVote_view r hs by blast
  then show ?thesis using assms v vote r hs by (auto simp: own_vote_def Let_def same_replica_def)
qed

lemma send_proposal_keeps:
  "send_proposal e st block ps = Some st' \<Longrightarrow> same_replica st st' \<and> s_View (c_hs st') = s_View (c_hs st)"
  by (auto simp: send_proposal_def Let_def bind_eq_Some_conv same_replica_def)

lemma doPropose_view:
  assumes "doPropose e st = Some (None, st')"
  shows "same_replica st st' \<and> s_View (c_hs st') = s_View (c_hs st) + 1"
proof -
  obtain resp st1 block0 st2 where 1: "commit_and_execution_j_2 e st = Some (resp, st1)" "make_block e (enterNextView st1) resp = Some (block0, st2)"
    using assms by (auto simp: doPropose_def bind_eq_Some_conv)
  obtain block partset bd err where 2: "addBlock (e_wire e) (e_hash e) (c_block_data st2) block0 40960 (s_Round (c_hs st2)) = Some (block, partset, bd, err)"
    using assms 1 by (auto simp: doPropose_def bind_eq_Some_conv)
  have err: "err = None" using assms 1 2 by (cases err) (auto simp: doPropose_def)
  obtain st3 where 3: "send_proposal e (st2\<lparr>c_block_data := bd\<rparr>) block partset = Some st3" "own_vote e st3 block = Some (None, st')"
    using assms 1 2 err by (auto simp: doPropose_def bind_eq_Some_conv)
  obtain app where "st1 = st\<lparr>c_abci := app\<rparr>" using exec_keeps [OF 1(1)] by blast
  then show ?thesis using make_block_keeps [OF 1(2)] send_proposal_keeps [OF 3(1)] own_vote_keeps [OF 3(2)]
    by (simp add: keeps_def same_replica_def enterNextView_def EnterNewView_def Let_def)
qed

text \<open>The code of a generated vote tells whether the block was rejected.\<close>

lemma generated_code:
  "generate_vote_for_block e b lh err i = Some (Some v) \<Longrightarrow> Vote_IsOK v \<longleftrightarrow> err = None"
  by (auto simp: generate_vote_for_block_def Let_def bind_eq_Some_conv Vote_IsOK_def SetLastHashOfVote_def SetOK_def SetReject_def
      CodeTypeOK_def CodeTypeReject_def split: if_splits)

lemma doValidate_cases:
  assumes "doValidate e st block = Some (None, st')"
  obtains (accept) app lb lh vote where "verify_block e st block = Some None"
      "st' = send [SendVote (c_chain_id st) (c_proposerIndex st) vote] (append_block (enterNextView (st\<lparr>c_abci := app\<rparr>)) block)"
      "fetch_block st 1 = Some lb" "hash_of e lb = Some lh" "generate_vote_for_block e block lh None (c_signerIndex st) = Some (Some vote)"
    | (reject) x lb lh vote where "verify_block e st block = Some (Some x)" "fetch_block st 1 = Some lb" "hash_of e lb = Some lh"
      "generate_vote_for_block e block lh (Some x) (c_signerIndex st) = Some (Some vote)"
      "st' = send [SendVote (c_chain_id st) (c_proposerIndex st) vote] st"
proof -
  obtain err lb lh v where 1: "verify_block e st block = Some err" "fetch_block st 1 = Some lb" "hash_of e lb = Some lh"
    "generate_vote_for_block e block lh err (c_signerIndex st) = Some v"
    using assms by (auto simp: doValidate_def bind_eq_Some_conv)
  obtain vote where v: "v = Some vote" using assms 1 by (cases v) (auto simp: doValidate_def)
  note ok = generated_code [OF 1(4) [unfolded v]]
  show ?thesis
  proof (cases err)
    case None
    then obtain r st1 where 2: "commit_and_execution_j_2 e st = Some (r, st1)"
      "st' = send [SendVote (c_chain_id (append_block (enterNextView st1) block)) (c_proposerIndex (append_block (enterNextView st1) block)) vote]
        (append_block (enterNextView st1) block)"
      using assms 1 v ok by (auto simp: doValidate_def bind_eq_Some_conv)
    obtain app where "st1 = st\<lparr>c_abci := app\<rparr>" using exec_keeps [OF 2(1)] by blast
    then show ?thesis using 2(2) 1 v None by (intro accept [of vote app lb lh]) (simp_all add: enterNextView_def)
  next
    case (Some x)
    then show ?thesis using assms 1 v ok by (intro reject [of x lb lh vote]) (auto simp: doValidate_def)
  qed
qed

definition validating :: "('pk, 'app, 'mp, 's) cons_State \<Rightarrow> bool" where
  "validating st \<longleftrightarrow> c_step st = STEP_VALIDATOR \<and> \<not> isProposer st"

text \<open>A validator that has a complete block for its view, finds it wrong and can sign the vote.\<close>

definition rejecting :: "('pk, 'sg, 'app, 'mp, 's) env \<Rightarrow> ('pk, 'app, 'mp, 's) cons_State \<Rightarrow> bool" where
  "rejecting e st \<longleftrightarrow> (\<exists>block x lb lh vote. isComplete (c_block_data st) (s_View (c_hs st)) (s_Round (c_hs st))
     \<and> getBlock (e_wire e) (e_hash e) (c_block_data st) (s_View (c_hs st)) (s_Round (c_hs st)) = Some (None, Some block)
     \<and> verify_block e st block = Some (Some x) \<and> fetch_block st 1 = Some lb \<and> hash_of e lb = Some lh
     \<and> generate_vote_for_block e block lh (Some x) (c_signerIndex st) = Some (Some vote))"

lemma rejecting_step:
  assumes "validating st" "rejecting e st"
  shows "\<exists>vote. proceeds e st (send [SendVote (c_chain_id st) (c_proposerIndex st) vote] st)"
proof -
  obtain block x lb lh vote where r: "isComplete (c_block_data st) (s_View (c_hs st)) (s_Round (c_hs st))"
     "getBlock (e_wire e) (e_hash e) (c_block_data st) (s_View (c_hs st)) (s_Round (c_hs st)) = Some (None, Some block)"
     "verify_block e st block = Some (Some x)" "fetch_block st 1 = Some lb" "hash_of e lb = Some lh"
     "generate_vote_for_block e block lh (Some x) (c_signerIndex st) = Some (Some vote)"
    using assms(2) by (auto simp: rejecting_def)
  let ?st = "send [SendVote (c_chain_id st) (c_proposerIndex st) vote] st"
  have "doValidate e st block = Some (None, ?st)"
    using r generated_code [OF r(6)] by (simp add: doValidate_def)
  then have a: "act e st = Some (True, None, ?st)" using assms(1) r by (simp add: act_def validating_def Let_def)
  have eq: "?st\<lparr>c_step := STEP_VALIDATOR\<rparr> = ?st" using assms(1) by (simp add: validating_def send_def)
  have n: "next_step st = Some STEP_VALIDATOR" "\<not> stopped st" using assms(1) by (simp_all add: next_step_def stopped_def validating_def)
  have "transition e st = Some (True, None, ?st)"
    unfolding transition_def a by (simp add: Let_def n eq)
  then show ?thesis by (auto simp: proceeds_def)
qed

lemma rejecting_diverges:
  fixes st :: "('pk, 'app, 'mp, 's) cons_State"
  shows "validating st \<Longrightarrow> rejecting e st \<Longrightarrow> handle_state_transition e st = None"
proof (rule handle_diverges [where Q = "\<lambda>st. validating st \<and> rejecting e st"])
  fix st :: "('pk, 'app, 'mp, 's) cons_State" assume a: "validating st \<and> rejecting e st"
  then obtain vote where "proceeds e st (send [SendVote (c_chain_id st) (c_proposerIndex st) vote] st)" using rejecting_step by blast
  moreover have "validating (send ms st) = validating st" "rejecting e (send ms st) = rejecting e st" for ms
    by (simp_all add: validating_def rejecting_def)
  ultimately show "\<exists>st'. proceeds e st st' \<and> validating st' \<and> rejecting e st'" using a by blast
qed simp

section \<open>When the loop returns\<close>

lemma proceeds_act:
  assumes "proceeds e st st'"
  obtains err st1 where "act e st = Some (True, err, st1)" "next_step st1 = Some (c_step st')" "st' = st1\<lparr>c_step := c_step st'\<rparr>" "\<not> stopped st'"
proof -
  obtain err where t: "transition e st = Some (True, err, st')" using assms by (auto simp: proceeds_def)
  obtain go err1 st1 where a: "act e st = Some (go, err1, st1)" using t by (auto simp: transition_def bind_eq_Some_conv)
  have go: "go" using t a by (auto simp: transition_def split: if_splits)
  obtain s where s: "next_step st1 = Some s" using t a go by (auto simp: transition_def bind_eq_Some_conv)
  have "\<not> stopped (st1\<lparr>c_step := s\<rparr>)" "st' = st1\<lparr>c_step := s\<rparr>" using t a go s by (auto simp: transition_def Let_def split: if_splits)
  then show ?thesis using a go s by (intro that [of err1 st1]) simp_all
qed

text \<open>The views for which a validator holds parts, from its current view on.\<close>

definition pending :: "('pk, 'app, 'mp, 's) cons_State \<Rightarrow> nat" where
  "pending st = length (filter (\<lambda>(v, _). s_View (c_hs st) \<le> v) (blocks (c_block_data st)))"

lemma filter_less: "x \<in> set xs \<Longrightarrow> P x \<Longrightarrow> \<not> Q x \<Longrightarrow> (\<And>y. Q y \<Longrightarrow> P y) \<Longrightarrow> length (filter Q xs) < length (filter P xs)"
proof -
  assume a: "x \<in> set xs" "P x" "\<not> Q x" "\<And>y. Q y \<Longrightarrow> P y"
  have "filter Q xs = filter Q (filter P xs)" using a(4) by (simp add: conj_commute) (metis (mono_tags, lifting) filter_cong)
  moreover have "length (filter Q (filter P xs)) < length (filter P xs)" by (rule length_filter_less [of x]) (use a in simp_all)
  ultimately show ?thesis by simp
qed

lemma pending_accept:
  assumes "isComplete (c_block_data st) (s_View (c_hs st)) r"
    and "s_View (c_hs st') = s_View (c_hs st) + 1" "blocks (c_block_data st') = prune_map (s_View (c_hs st) + 1) 0 (blocks (c_block_data st))"
  shows "pending st' < pending st"
proof -
  let ?v = "s_View (c_hs st)" and ?m = "blocks (c_block_data st)"
  obtain ps where "lookup2 ?m ?v r = Some ps" using assms(1) by (auto simp: isComplete_def split: option.splits)
  then obtain rs where "map_of ?m ?v = Some rs" by (auto simp: lookup2_def inner_def split: option.splits)
  then have "(?v, rs) \<in> set ?m" by (rule map_of_SomeD)
  then have "length (filter (\<lambda>(v, _). ?v + 1 \<le> v) ?m) < length (filter (\<lambda>(v, _). ?v \<le> v) ?m)"
    by (rule filter_less) auto
  moreover have "length (filter (\<lambda>(v, _). ?v + 1 \<le> v) (prune_map (?v + 1) 0 ?m)) \<le> length (filter (\<lambda>(v, _). ?v + 1 \<le> v) ?m)"
  proof -
    have "length (prune_map (?v + 1) 0 ?m) \<le> length (filter (\<lambda>(v, _). \<not> v < ?v + 1) ?m)"
      unfolding prune_map_def by (rule order_trans [OF length_filter_le]) simp
    moreover have "filter (\<lambda>(v, _). \<not> v < ?v + 1) ?m = filter (\<lambda>(v, _). ?v + 1 \<le> v) ?m" by (rule filter_cong) auto
    ultimately show ?thesis using order_trans [OF length_filter_le] by simp
  qed
  ultimately show ?thesis by (simp add: pending_def assms(2,3))
qed

lemma act_validator:
  assumes "act e st = Some (True, err, st1)" "c_step st = STEP_VALIDATOR"
  obtains block where "isComplete (c_block_data st) (s_View (c_hs st)) (s_Round (c_hs st))"
    "getBlock (e_wire e) (e_hash e) (c_block_data st) (s_View (c_hs st)) (s_Round (c_hs st)) = Some (None, Some block)"
    "doValidate e st block = Some (None, st1)"
proof -
  let ?bd = "c_block_data st" and ?v = "s_View (c_hs st)" and ?r = "s_Round (c_hs st)"
  have c: "isComplete ?bd ?v ?r" using assms by (auto simp: act_def Let_def split: if_splits)
  obtain ge b where g: "getBlock (e_wire e) (e_hash e) ?bd ?v ?r = Some (ge, b)"
    using assms c by (auto simp: act_def Let_def bind_eq_Some_conv)
  have ge: "ge = None" using assms c g by (cases ge; cases "the ge") (auto simp: act_def Let_def)
  obtain block where b: "b = Some block" using assms c g ge by (cases b) (auto simp: act_def Let_def)
  have "doValidate e st block = Some (None, st1)" using assms c g ge b by (auto simp: act_def Let_def)
  then show ?thesis using that c g ge b by blast
qed

lemma validating_step:
  assumes "validating st" "\<not> rejecting e st" "proceeds e st st'"
  shows "validating st' \<and> pending st' < pending st"
proof -
  obtain err st1 where a: "act e st = Some (True, err, st1)" "next_step st1 = Some (c_step st')" "st' = st1\<lparr>c_step := c_step st'\<rparr>"
    by (rule proceeds_act [OF assms(3)])
  have st: "c_step st = STEP_VALIDATOR" "\<not> isProposer st" using assms(1) by (simp_all add: validating_def)
  let ?bd = "c_block_data st" and ?v = "s_View (c_hs st)" and ?r = "s_Round (c_hs st)"
  obtain block where c: "isComplete ?bd ?v ?r" and g: "getBlock (e_wire e) (e_hash e) ?bd ?v ?r = Some (None, Some block)"
    and d: "doValidate e st block = Some (None, st1)" by (rule act_validator [OF a(1) st(1)])
  from d show ?thesis
  proof (cases rule: doValidate_cases)
    case (accept app lb lh vote)
    have "same_replica st st1" by (simp add: accept(2) same_replica_def enterNextView_def)
    then have np: "\<not> isProposer st1" using st(2) same_replica_proposer by blast
    then have s: "c_step st' = STEP_VALIDATOR" using a(2) by (simp add: next_step_def)
    have "isProposer st' = isProposer st1" by (subst a(3)) (simp add: isProposer_def)
    moreover have "pending st' < pending st"
    proof (rule pending_accept [OF c])
      show "s_View (c_hs st') = ?v + 1" by (subst a(3)) (simp add: accept(2))
      show "blocks (c_block_data st') = prune_map (?v + 1) 0 (blocks ?bd)" by (subst a(3)) (simp add: accept(2) bd_next_def prune_def)
    qed
    ultimately show ?thesis using np s by (simp add: validating_def)
  next
    case (reject x lb lh vote)
    then have "rejecting e st" using c g unfolding rejecting_def by blast
    then show ?thesis using assms(2) by blast
  qed
qed

text \<open>A leader stops at the latest when its view passes the limit of \<open>stopped\<close>.\<close>

definition leader_rank :: "('pk, 'app, 'mp, 's) cons_State \<Rightarrow> nat" where
  "leader_rank st = 3 * nat (602 - s_View (c_hs st)) +
     (if c_step st = STEP_LEADER_WAIT then 0 else if c_step st = STEP_LEADER_VOTE then 1 else 2)"

lemma step_names: "STEP_LEADER_WAIT \<noteq> STEP_VALIDATOR" "STEP_LEADER_VOTE \<noteq> STEP_VALIDATOR" "STEP_LEADER_VOTE \<noteq> STEP_LEADER_WAIT"
  by (simp_all add: STEP_LEADER_WAIT_def STEP_LEADER_VOTE_def STEP_VALIDATOR_def)

lemma doValidate_view:
  assumes "doValidate e st block = Some (None, st')"
  shows "same_replica st st' \<and> s_View (c_hs st) \<le> s_View (c_hs st')"
  using assms
  by (cases rule: doValidate_cases) (simp_all add: same_replica_def enterNextView_def EnterNewView_def Let_def)

lemma leader_act:
  assumes "act e st = Some (True, err, st1)"
  shows "same_replica st st1 \<and> (s_View (c_hs st) < s_View (c_hs st1)
     \<or> s_View (c_hs st) = s_View (c_hs st1) \<and> c_step st \<noteq> STEP_LEADER_WAIT
       \<and> (c_step st = STEP_LEADER_VOTE \<longrightarrow> IsQuorum (c_hs st1) = Some True))"
proof -
  consider "c_step st = STEP_VALIDATOR" | "c_step st = STEP_LEADER_WAIT" | "c_step st = STEP_LEADER_VOTE"
    | "c_step st \<noteq> STEP_VALIDATOR" "c_step st \<noteq> STEP_LEADER_WAIT" "c_step st \<noteq> STEP_LEADER_VOTE" by blast
  then show ?thesis
  proof cases
    case 1
    then obtain block where "doValidate e st block = Some (None, st1)" by (rule act_validator [OF assms])
    from doValidate_view [OF this] 1 show ?thesis using step_names by auto
  next
    case 2
    then have "doPropose e st = Some (None, st1)" using assms step_names by (auto simp: act_def Let_def split: if_splits)
    from doPropose_view [OF this] show ?thesis by simp
  next
    case 3
    obtain q where q: "IsQuorum (c_hs st) = Some q" using assms 3 step_names by (auto simp: act_def Let_def bind_eq_Some_conv)
    then have "q" "CrossShardCommunicate e st = Some (None, st1)" using assms 3 step_names by (auto simp: act_def Let_def split: if_splits)
    from CrossShardCommunicate_keeps [OF this(2)] this(1) q 3 show ?thesis using step_names by simp
  next
    case 4
    then have "st1 = st" using assms by (simp add: act_def Let_def)
    then show ?thesis using 4 by simp
  qed
qed

lemma leader_step:
  assumes "isProposer st" "proceeds e st st'"
  shows "isProposer st' \<and> leader_rank st' < leader_rank st"
proof -
  obtain err st1 where a: "act e st = Some (True, err, st1)" "next_step st1 = Some (c_step st')" "st' = st1\<lparr>c_step := c_step st'\<rparr>" "\<not> stopped st'"
    by (rule proceeds_act [OF assms(2)])
  note l = leader_act [OF a(1)]
  have p1: "isProposer st1" using l same_replica_proposer assms(1) by blast
  have hs: "c_hs st' = c_hs st1" and p: "isProposer st'" by (subst a(3), simp add: p1 [unfolded isProposer_def] isProposer_def)+
  have v: "s_View (c_hs st') \<le> 600" using a(4) p by (auto simp: stopped_def)
  obtain q where q: "IsQuorum (c_hs st1) = Some q" "c_step st' = (if q then STEP_LEADER_WAIT else STEP_LEADER_VOTE)"
    using a(2) p1 by (auto simp: next_step_def)
  show ?thesis
  proof (cases "s_View (c_hs st) < s_View (c_hs st1)")
    case True
    then have "nat (602 - s_View (c_hs st1)) + 1 \<le> nat (602 - s_View (c_hs st))" using v hs by simp
    then show ?thesis using p q(2) step_names(3) by (cases q) (simp_all add: leader_rank_def hs)
  next
    case False
    then have "s_View (c_hs st) = s_View (c_hs st1)" "c_step st \<noteq> STEP_LEADER_WAIT" "c_step st = STEP_LEADER_VOTE \<longrightarrow> q" using l q(1) by auto
    then show ?thesis using p q(2) step_names by (auto simp: leader_rank_def hs)
  qed
qed

lemma leader_returns: "isProposer st \<Longrightarrow> handle_state_transition e st \<noteq> None"
  by (rule handle_returns [where I = isProposer and m = leader_rank]) (use leader_step in blast)+

lemma validator_returns:
  assumes "validating st" "\<And>st'. (proceeds e)\<^sup>*\<^sup>* st st' \<Longrightarrow> \<not> rejecting e st'"
  shows "handle_state_transition e st \<noteq> None"
proof (rule handle_returns [where I = "\<lambda>st1. validating st1 \<and> (proceeds e)\<^sup>*\<^sup>* st st1" and m = pending])
  fix st1 st2 assume a: "validating st1 \<and> (proceeds e)\<^sup>*\<^sup>* st st1" "proceeds e st1 st2"
  then show "(validating st2 \<and> (proceeds e)\<^sup>*\<^sup>* st st2) \<and> pending st2 < pending st1"
    using validating_step [OF _ assms(2), of st1 st2] by (auto intro: rtranclp.rtrancl_into_rtrancl)
qed (use assms(1) in simp)

lemma validating_reaches: "(proceeds e)\<^sup>*\<^sup>* st st' \<Longrightarrow> validating st \<Longrightarrow> validating st' \<or> (\<exists>st1. (proceeds e)\<^sup>*\<^sup>* st st1 \<and> validating st1 \<and> rejecting e st1)"
  by (induction rule: rtranclp_induct) (auto dest: validating_step)

section \<open>What a vote stands for\<close>

lemma generated_vote:
  assumes "generate_vote_for_block e b lh err i = Some (Some v)"
  shows "hash_of e (Some b) = Some (v_ForHash v) \<and> GetLastHashOfVote v = lh \<and> v_View v = h_View (Header_of b) \<and> v_ValidatorIndex v = i"
  using assms by (cases err) (auto simp: generate_vote_for_block_def Let_def bind_eq_Some_conv SetLastHashOfVote_def GetLastHashOfVote_def
      SetOK_def SetReject_def NewVote_def)

text \<open>What a block must carry to be accepted, given the blocks of the pool.\<close>

definition certified :: "('pk, 'sg, 'app, 'mp, 's) env \<Rightarrow> ('pk, 'app, 'mp, 's) cons_State \<Rightarrow> Block \<Rightarrow> bool" where
  "certified e st block \<longleftrightarrow> (\<exists>agg ci b1 b2. AggSigVote block = Some agg \<and> CI block = Some ci
     \<and> fetch_block st 1 = Some b1 \<and> hash_of e b1 = Some (a_ForHash agg)
     \<and> fetch_block st 2 = Some b2 \<and> hash_of e b2 = Some (GetLastHashOfAggVote agg)
     \<and> length (IntentionHash ci) = length (c_ShardIDList st) \<and> length (CC block) = length (c_ShardIDList st))"

lemma verify_block_iff:
  "verify_block e st block = Some None \<longleftrightarrow> h_View (Header_of block) < 5 \<or> certified e st block"
  by (auto simp: verify_block_def certified_def bind_eq_Some_conv split: if_splits)

lemma append_block_last: "last (c_block_pool (append_block st b)) = b" "length (c_block_pool st) \<le> 7 \<Longrightarrow> length (c_block_pool (append_block st b)) \<le> 7"
  by (auto simp: append_block_def block_pool_size_def)

section \<open>Blocks of a correct leader\<close>

lemma raw_block_certified:
  assumes "raw_block e st r = Some b" "block_pool_size st \<ge> 4"
    and "map_of (j_1finished (c_block_data st)) (c_chain_id st) = Some csm" "csm_AggVote csm = Some agg"
    and "fetch_block st 1 = Some b1" "hash_of e b1 = Some (a_ForHash agg)"
    and "fetch_block st 2 = Some b2" "hash_of e b2 = Some (GetLastHashOfAggVote agg)"
  shows "certified e st b"
proof -
  have l: "map_or_panic f xs = Some ys \<Longrightarrow> length ys = length xs" for f :: "'x \<Rightarrow> 'y option" and xs ys
    by (induction xs arbitrary: ys) (auto simp: bind_eq_Some_conv)
  obtain msgs ci cc where m: "shard_messages st = Some msgs" "make_intention msgs = Some ci" "make_certificate msgs = Some cc"
    and b: "AggSigVote b = Some agg" "CI b = Some ci" "CC b = cc"
    using assms(1-4) by (auto simp: raw_block_def bind_eq_Some_conv split: if_splits)
  have "length (IntentionHash ci) = length (c_ShardIDList st)" "length cc = length (c_ShardIDList st)"
    using m by (auto simp: shard_messages_def make_intention_def make_certificate_def bind_eq_Some_conv dest!: l)
  then show ?thesis unfolding certified_def using b assms(5-8) by blast
qed

text \<open>Hashing a block and sending it change nothing that \<open>verify_block\<close> reads.\<close>

definition same_claims :: "Block \<Rightarrow> Block \<Rightarrow> bool" where
  "same_claims b b' \<longleftrightarrow> h_View (Header_of b') = h_View (Header_of b) \<and> AggSigVote b' = AggSigVote b
     \<and> map_option IntentionHash (CI b') = map_option IntentionHash (CI b) \<and> CC b' = CC b"

lemma same_claims_trans: "same_claims a b \<Longrightarrow> same_claims b c \<Longrightarrow> same_claims a c"
  by (simp add: same_claims_def)

lemma fill_same_claims:
  "same_claims b (fill_prepare H b)" "same_claims b (fill_cross H b)" "same_claims b (fill_output H b)" "same_claims b (fill_agg c H b)"
  "same_claims b (fill_ci c H b)" "fill_cc H b = Some b' \<Longrightarrow> same_claims b b'" "fill_ctxs H b = Some b' \<Longrightarrow> same_claims b b'"
  by (auto simp: same_claims_def fill_prepare_def fill_cross_def fill_output_def fill_agg_def fill_ci_def fill_cc_def fill_ctxs_def
      upd_header_def CommitIntention_Hash_def LeftHash_def RrightHash_def Let_def split: option.splits prod.splits if_splits)

lemma hashed_claims:
  assumes "Block_Hash c H (Some b) = Some (Some b', h)"
  shows "same_claims b b'"
proof (cases "h_hash (Header_of b) = []")
  case True
  then obtain b1 where f: "fillInHeader c H b = Some b1" and b': "same_claims b1 b'"
    using assms by (auto simp: Block_Hash_def calBlockHashAndProof_def bind_eq_Some_conv same_claims_def upd_header_def)
  from f obtain b2 where b2: "fill_cc H (fill_ci c H (fill_agg c H (fill_output H (fill_cross H (fill_prepare H b))))) = Some b2" "fill_ctxs H b2 = Some b1"
    by (auto simp: fillInHeader_def bind_eq_Some_conv)
  have "same_claims b (fill_agg c H (fill_output H (fill_cross H (fill_prepare H b))))"
    by (rule same_claims_trans [OF same_claims_trans [OF same_claims_trans [OF fill_same_claims(1,2)] fill_same_claims(3)] fill_same_claims(4)])
  then have "same_claims b b1"
    by (rule same_claims_trans [OF same_claims_trans [OF same_claims_trans [OF _ fill_same_claims(5)] fill_same_claims(6) [OF b2(1)]] fill_same_claims(7) [OF b2(2)]])
  with b' show ?thesis by (rule same_claims_trans [rotated])
next
  case False
  then show ?thesis using assms by (simp add: Block_Hash_def same_claims_def)
qed

lemma stripped_claims: "same_claims b (stripped b)"
  by (cases "CI b") (simp_all add: same_claims_def stripped_def)

lemma certified_claims:
  assumes "certified e st b" "same_claims b b'" "c_block_pool st' = c_block_pool st" "c_ShardIDList st' = c_ShardIDList st"
  shows "certified e st' b'"
  using assms by (auto simp: certified_def same_claims_def fetch_block_def block_pool_size_def)

section \<open>A concrete replica\<close>

definition demo_hash :: hash_fn where "demo_hash = (\<lambda>_. replicate 32 0)"

definition demo_vote :: AggregatedVote where
  "demo_vote = \<lparr>a_Code = 1, a_View = 4, a_Round = 0, a_ForHash = [], a_ForNecessaryData = [[1]], a_Sign = [], a_SignerIndexer = Some \<lparr>Bits = 1, Elems = [1]\<rparr>\<rparr>"

definition demo_pb :: pb_Block where
  "demo_pb = \<lparr>pb_Header_of = Some \<lparr>pb_HashPointer = [], pb_ChainID = ''a'', pb_h_View = 5, pb_h_Round = 0, pb_Time = (0, 0), pb_PrepareRoot = [],
       pb_OutputTxsRoot = [], pb_LastAggSigRoot = [], pb_CommitIntentionRoot = [], pb_CommitCertificateRoot = [], pb_CommitTxsRoot = [], pb_StateRoot = []\<rparr>,
     pb_PrepareTxs = None, pb_CrossShardTxs = None, pb_OPT = [], pb_AggSigVote = Some (AggregatedVote_ToProto demo_vote), pb_CI = None,
     pb_CC = Some [], pb_CTXS = [], pb_CTXSProof = []\<rparr>"

definition demo_block :: Block where
  "demo_block = \<lparr>Header_of = \<lparr>HashPointer = [], h_ChainID = ''a'', h_View = 5, h_Round = 0, h_Time = (0, 0), PrepareRoot = [],
       CrossShardRoot = [], OutputTxsRoot = [], LastAggSigRoot = [], CommitIntentionRoot = [], CommitCertificateRoot = [],
       CommitTxsListRoot = [], StateRoot = [], h_hash = [], mkproof = []\<rparr>,
     PTXS = Some [], CrossShardTxs = Some [], OPT = [], AggSigVote = Some demo_vote, CI = None, CC = [], CTXS = [], CTXSProof = []\<rparr>"
lemma demo_decoded: "NewBlockFromProto demo_pb = Some demo_block"
  by code_simp
lemma constant_root: "HashFromByteSlices demo_hash xs = replicate 32 0"
  by (subst HashFromByteSlices.simps) (simp add: demo_hash_def emptyHash_def leafHash_def innerHash_def Let_def)
lemma demo_hashed: "\<exists>b. Block_Hash c demo_hash (Some demo_block) = Some (Some b, replicate 32 0)"
proof -
  obtain b1 where f: "fillInHeader c demo_hash demo_block = Some b1"
    by (simp add: fillInHeader_def fill_cc_def fill_ci_def fill_agg_def fill_output_def fill_cross_def fill_prepare_def fill_ctxs_def demo_block_def
       upd_header_def CommitCertificate_Hash_def)
  obtain pkg where p: "packageHash c demo_hash (Header_of b1) = Some pkg" using packageHash_Some by blast
  show ?thesis using calBlock_hash [OF f p] by (auto simp: Block_Hash_def constant_root demo_block_def)
qed

definition demo_env :: "(unit, unit, unit, unit, unit) env" where
  "demo_env = \<lparr>e_bls = \<lparr>sign_of_hex = (\<lambda>_. Some ()), sign_to_hex = (\<lambda>_. []), zero_sign = (), add_sign = (\<lambda>_ _. ()), zero_key = (), add_key = (\<lambda>_ _. ()),
       verify_byte = (\<lambda>_ _ _. True)\<rparr>,
     e_hash = demo_hash, e_wire = \<lparr>w_codec = \<lparr>enc_agg = (\<lambda>_. []), enc_time = (\<lambda>_. [])\<rparr>, enc_Block = (\<lambda>_. []), dec_Block = (\<lambda>_. Some demo_pb)\<rparr>,
     e_vote = (\<lambda>_. []), e_proposal = (\<lambda>_. []), e_enc_csm = (\<lambda>_. []), e_dec_csm = (\<lambda>_. None), e_exec = (\<lambda>_ _ _ _. Some ((), [])),
     e_reap = (\<lambda>_ _. Some None), e_update = (\<lambda>m _. m),
     e_store = \<lparr>db_Get = (\<lambda>_ _. Inr None), db_Has = (\<lambda>_ _. Inr False), db_Set = (\<lambda>_ _ _. Inr ()), db_Delete = (\<lambda>_ _. Inr ()), db_Write = (\<lambda>_ _. Inr ())\<rparr>,
     e_sign = (\<lambda>_. Some []), e_now = (0, 0)\<rparr>"

text \<open>A validator in view 5 that holds all (zero) parts of the block and an empty pool.\<close>

definition demo_set :: PartSet where
  "demo_set = \<lparr>ps_Header = \<lparr>psh_View = 5, psh_Round = 0, psh_Total = 0, psh_Root = [], psh_ChainID = ''a''\<rparr>, Parts = [], ps_count = 0,
     ps_BlockHeaderHash = replicate 32 0\<rparr>"

definition demo_validator :: "(unit, unit, unit, unit) cons_State" where
  "demo_validator = \<lparr>c_hs = NewState 5 0 1 \<lparr>publicKeys = [None, None]\<rparr> [1, 1], c_mempool = (), c_cross_shard_mempool = (), c_abci = (), c_store = (),
     c_step = STEP_VALIDATOR, c_signerIndex = 1, c_proposerIndex = 0, c_verifier = \<lparr>publicKeys = [None, None]\<rparr>,
     c_block_data = (NewBlockData 5 0 [] [])\<lparr>blocks := [(5, [(0, demo_set)])]\<rparr>, c_ShardIDList = [''a''], c_leaders = [(''a'', 0)], c_chain_id = ''a'',
     c_block_pool = [], c_max_bytes = 0, c_max_cross_shard_bytes = 0, c_EnablePipelineFlag = False, c_outbox = []\<rparr>"

lemma demo_get: "\<exists>b. getBlock (e_wire demo_env) demo_hash (c_block_data demo_validator) 5 0 = Some (None, Some b) \<and> same_claims demo_block b
    \<and> hash_of demo_env (Some b) = Some (replicate 32 0)"
proof -
  obtain b where b: "Block_Hash (w_codec (e_wire demo_env)) demo_hash (Some demo_block) = Some (Some b, replicate 32 0)" using demo_hashed by blast
  have v: "Block_ValidateBasic demo_hash demo_block = Some (Inr ())" by (simp add: Block_ValidateBasic_def demo_block_def Result_def)
  have "GenBlock (e_wire demo_env) demo_hash demo_set = Some (Some b, None)"
    using b by (simp add: GenBlock_def demo_set_def ps_IsComplete_def join_parts_def demo_env_def demo_decoded v) (simp add: demo_block_def)
  moreover have "h_hash (Header_of b) = replicate 32 0" using b by (auto simp: Block_Hash_def demo_block_def)
  ultimately show ?thesis using hashed_claims [OF b]
    by (simp add: getBlock_def demo_validator_def lookup2_def inner_def hash_of_def Block_Hash_def) (simp add: demo_set_def ps_IsComplete_def)
qed

lemma demo_rejects: "rejecting demo_env demo_validator"
proof -
  obtain b where b: "getBlock (e_wire demo_env) demo_hash (c_block_data demo_validator) 5 0 = Some (None, Some b)" "same_claims demo_block b"
    "hash_of demo_env (Some b) = Some (replicate 32 0)" using demo_get by blast
  have f: "h_View (Header_of b) = 5" "AggSigVote b = Some demo_vote" using b(2) by (simp_all add: same_claims_def demo_block_def)
  have p: "fetch_block demo_validator 1 = Some None" "fetch_block demo_validator 2 = Some None" "hash_of demo_env None = Some []"
    by (simp_all add: fetch_block_def block_pool_size_def demo_validator_def hash_of_def Block_Hash_def)
  have "verify_block demo_env demo_validator b = Some (Some ErrHashJ2)"
    using f p by (simp add: verify_block_def GetLastHashOfAggVote_def demo_vote_def)
  moreover have "\<exists>vote. generate_vote_for_block demo_env b [] (Some ErrHashJ2) 1 = Some (Some vote)"
    using b(3) by (simp add: generate_vote_for_block_def Let_def, simp add: demo_env_def)
  moreover have "isComplete (c_block_data demo_validator) 5 0" "s_View (c_hs demo_validator) = 5" "s_Round (c_hs demo_validator) = 0"
    "c_signerIndex demo_validator = 1" "e_hash demo_env = demo_hash"
    by (simp_all add: isComplete_def demo_validator_def demo_set_def lookup2_def inner_def ps_IsComplete_def NewState_def demo_env_def)
  ultimately show ?thesis unfolding rejecting_def using b(1) p(1,3) by auto
qed

text \<open>A leader of view 7 with four hashed blocks and the aggregated vote for the last two.\<close>

definition demo_stored :: "byte \<Rightarrow> Block" where
  "demo_stored i = demo_block\<lparr>Header_of := (Header_of demo_block)\<lparr>h_hash := [i]\<rparr>\<rparr>"

definition demo_csm :: CrossShardMessage where
  "demo_csm = \<lparr>SourceChain = ''a'', csm_AggVote = Some (demo_vote\<lparr>a_ForHash := [2]\<rparr>), csm_IntentionBrief = [[1]],
     csm_ProofOfIntention = Some \<lparr>IntentionHashProof = Some \<lparr>Total = 1, Index = 0, LeafHash = Some [], Aunts = []\<rparr>, RightHash = []\<rparr>,
     OPTXs = Some [], csm_OutputTxsProof = Some \<lparr>BlockProof = Some \<lparr>Total = 1, Index = 0, LeafHash = Some [], Aunts = []\<rparr>,
       OPTProof = Some \<lparr>Total = 1, Index = 0, LeafHash = Some [], Aunts = []\<rparr>\<rparr>\<rparr>"

definition demo_leader :: "(unit, unit, unit, unit) cons_State" where
  "demo_leader = demo_validator\<lparr>c_hs := NewState 7 0 0 \<lparr>publicKeys = [None, None]\<rparr> [1, 1], c_signerIndex := 0, c_step := STEP_LEADER_WAIT,
     c_block_data := (NewBlockData 7 0 [] [])\<lparr>j_1finished := [(''a'', demo_csm)]\<rparr>,
     c_block_pool := [demo_stored 3, demo_stored 3, demo_stored 1, demo_stored 2]\<rparr>"

definition demo_core :: CommitCertificateCore where
  "demo_core = \<lparr>core_Hash = [1], MKProof = the (csm_ProofOfIntention demo_csm), IntentionBrief = [[1]]\<rparr>"

definition demo_intention :: CommitIntention where
  "demo_intention = \<lparr>IntentionHash = [[1]], AggregatedSignatures = [demo_vote\<lparr>a_ForHash := [2]\<rparr>], rightHash = [], leftHash = []\<rparr>"

text \<open>The next block, with its certificate.\<close>

definition demo_next :: Block where
  "demo_next = (demo_stored 4)\<lparr>AggSigVote := csm_AggVote demo_csm, CI := Some demo_intention, CC := [demo_core]\<rparr>"

lemma demo_leader_fields:
  "block_pool_size demo_leader = 4" "map_of (j_1finished (c_block_data demo_leader)) ''a'' = Some demo_csm"
  "\<not> c_EnablePipelineFlag demo_leader" "s_View (c_hs demo_leader) = 7" "c_ShardIDList demo_leader = [''a'']" "c_outbox demo_leader = []"
  "c_chain_id demo_leader = ''a''" "c_proposerIndex demo_leader = 0"
  by (simp_all add: demo_leader_def demo_validator_def block_pool_size_def NewState_def)

lemma demo_certificate: "csm_AggVote demo_csm = Some (demo_vote\<lparr>a_ForHash := [2]\<rparr>)" "GetLastHashOfAggVote (demo_vote\<lparr>a_ForHash := x\<rparr>) = [1]"
  by (simp_all add: demo_csm_def GetLastHashOfAggVote_def demo_vote_def)

lemma demo_pool: "fetch_block demo_leader 1 = Some (Some (demo_stored 2))" "fetch_block demo_leader 2 = Some (Some (demo_stored 1))"
    "hash_of demo_env (Some (demo_stored i)) = Some [i]"
  by (simp_all add: fetch_block_def block_pool_size_def index_def demo_leader_def hash_of_def Block_Hash_def demo_stored_def)

text \<open>Only nil proofs keep a block from being hashed.\<close>

lemma hash_total:
  assumes "CommitCertificate_Hash H (CC b) = Some r" "map_or_panic (OutputTxsProof_Hash H) (CTXSProof b) = Some ps"
  obtains b' h where "Block_Hash c H (Some b) = Some (Some b', h)" "same_body b b'"
proof -
  let ?b1 = "fill_ci c H (fill_agg c H (fill_output H (fill_cross H (fill_prepare H b))))"
  have 1: "same_body b ?b1"
    by (rule same_body_trans [OF same_body_trans [OF same_body_trans [OF same_body_trans [OF fill_same_body(1,2)] fill_same_body(3)] fill_same_body(4)] fill_same_body(5)])
  have "\<exists>y. fill_cc H x = Some y" if "CC x = CC b" for x using assms(1) that by (simp add: fill_cc_def)
  then obtain b2 where b2: "fill_cc H ?b1 = Some b2" using 1 by (auto simp: same_body_def)
  note 2 = same_body_trans [OF 1 fill_same_body(6) [OF b2]]
  have "\<exists>y. fill_ctxs H x = Some y" if "CTXSProof x = CTXSProof b" for x using assms(2) that by (simp add: fill_ctxs_def)
  then obtain b3 where b3: "fill_ctxs H b2 = Some b3" using 2 by (auto simp: same_body_def)
  note 3 = same_body_trans [OF 2 fill_same_body(7) [OF b3]]
  obtain pkg where "packageHash c H (Header_of b3) = Some pkg" using packageHash_Some by blast
  then have "\<exists>f. calBlockHashAndProof c H b = Some (upd_header f b3)"
    using b2 b3 by (auto simp: calBlockHashAndProof_def fillInHeader_def ProofsFromByteSlices_eq)
  then show ?thesis using that same_body_trans [OF 3 same_body_upd(1)] by (cases "h_hash (Header_of b) = []") (auto simp: Block_Hash_def)
qed

lemma demo_make:
  obtains b st' b1 h where "make_block demo_env demo_leader [] = Some (b, st')" "Block_Hash c demo_hash (Some (stripped b)) = Some (Some b1, h)"
proof -
  have m: "shard_messages demo_leader = Some [demo_csm]" by code_simp
  have k: "make_intention [demo_csm] = Some demo_intention"
    "make_certificate [demo_csm] = Some [demo_core]" by code_simp+
  obtain b0 where b0: "raw_block demo_env demo_leader [] = Some b0" "CC b0 = [demo_core]" "CTXSProof b0 = [csm_OutputTxsProof demo_csm]"
    by (simp add: raw_block_def demo_pool demo_leader_fields m k)
  have t: "\<exists>r. CommitCertificate_Hash demo_hash [demo_core] = Some r" "\<exists>ps. map_or_panic (OutputTxsProof_Hash demo_hash) [csm_OutputTxsProof demo_csm] = Some ps"
    by (simp_all add: CommitCertificate_Hash_def ProofOfIntention_Hash_def OutputTxsProof_Hash_def demo_core_def demo_csm_def)
  obtain b h0 where b: "Block_Hash (w_codec (e_wire demo_env)) (e_hash demo_env) (Some b0) = Some (Some b, h0)" "same_body b0 b"
    using hash_total t b0 by (metis (no_types, lifting) demo_env_def env.select_convs(2))
  have "CC (stripped b) = [demo_core]" "CTXSProof (stripped b) = [csm_OutputTxsProof demo_csm]" using b(2) b0 by (simp_all add: same_body_def stripped_def)
  then obtain b1 h where "Block_Hash c demo_hash (Some (stripped b)) = Some (Some b1, h)" using hash_total t by metis
  moreover have "make_block demo_env demo_leader [] = Some (b, demo_leader\<lparr>c_block_data := (c_block_data demo_leader)\<lparr>j_1_cross_shard_txs := []\<rparr>\<rparr>)"
    using b0 b by (simp add: make_block_def)
  ultimately show ?thesis using that by blast
qed

lemma demo_next_hash: "hash_of demo_env (Some demo_next) = Some [4]"
  by (simp add: hash_of_def Block_Hash_def demo_next_def demo_stored_def)

lemma demo_validates:
  obtains st' where "doValidate demo_env demo_leader demo_next = Some (None, st')" "s_View (c_hs st') = 8"
proof -
  have "certified demo_env demo_leader demo_next"
    unfolding certified_def by (simp add: demo_pool demo_leader_fields demo_certificate demo_next_def) (simp add: demo_vote_def demo_intention_def)
  then have v: "verify_block demo_env demo_leader demo_next = Some None" by (simp add: verify_block_iff)
  have x: "e_exec demo_env a b c d = Some ((), [])" "e_sign demo_env bz = Some []" for a b c d bz by (simp_all add: demo_env_def)
  obtain vote where g: "generate_vote_for_block demo_env demo_next [2] None (c_signerIndex demo_leader) = Some (Some vote)"
    by (simp add: generate_vote_for_block_def demo_next_hash x Let_def)
  show ?thesis
    by (rule that [of "send [SendVote ''a'' 0 vote] (append_block (enterNextView (demo_leader\<lparr>c_abci := ()\<rparr>)) demo_next)"])
      (simp_all add: doValidate_def v demo_pool g generated_code [OF g] commit_and_execution_j_2_def x demo_leader_fields enterNextView_def EnterNewView_def Let_def)
qed

section \<open>Properties\<close>

text \<open>
  C12: For a leader the transition loop always returns, with a result, an error or a panic; for a
  validator, whose step is the validator's from the start, it fails
  to return exactly when the loop reaches a state in which the complete block of the current view
  is found wrong and the vote against it can be signed.
\<close>

theorem transition_returns_iff:
  assumes "isProposer st \<or> c_step st = STEP_VALIDATOR"
  shows "handle_state_transition e st = None \<longleftrightarrow> \<not> isProposer st \<and> (\<exists>st'. (proceeds e)\<^sup>*\<^sup>* st st' \<and> rejecting e st')"
proof (cases "isProposer st")
  case True
  then show ?thesis using leader_returns by blast
next
  case False
  then have v: "validating st" using assms by (simp add: validating_def)
  show ?thesis
  proof (intro iffI conjI)
    assume "handle_state_transition e st = None"
    then show "\<exists>st'. (proceeds e)\<^sup>*\<^sup>* st st' \<and> rejecting e st'" using validator_returns [OF v] by blast
  next
    assume "\<not> isProposer st \<and> (\<exists>st'. (proceeds e)\<^sup>*\<^sup>* st st' \<and> rejecting e st')"
    then obtain st' where r: "(proceeds e)\<^sup>*\<^sup>* st st'" "rejecting e st'" by blast
    from validating_reaches [OF r(1) v] obtain st1 where "(proceeds e)\<^sup>*\<^sup>* st st1" "validating st1" "rejecting e st1" using r by blast
    then show "handle_state_transition e st = None" using handle_reaches rejecting_diverges by metis
  qed (rule False)
qed

theorem transition_returns_iff_witness:
  "handle_state_transition demo_env demo_validator = None"
proof -
  have "c_step demo_validator = STEP_VALIDATOR" "\<not> isProposer demo_validator" by (simp_all add: demo_validator_def isProposer_def)
  then show ?thesis using transition_returns_iff [of demo_validator demo_env] demo_rejects by blast
qed

text \<open>
  C11: A validator that processes a complete block sends exactly one vote, to the leader, for the
  block's own view and hash, naming the hash of the last block of its pool. If it approves, then the
  block is from the first five views or carries an aggregated vote whose two hashes are those of
  the last two blocks of the pool and a certificate and an intention for every shard; the replica
  enters the next view and the block becomes the last of the pool. If it rejects, then nothing but
  the outbox changes.
\<close>

theorem validated_block:
  assumes "doValidate e st block = Some (None, st')"
  shows "\<exists>vote b1. c_outbox st' = c_outbox st @ [SendVote (c_chain_id st) (c_proposerIndex st) vote]
     \<and> hash_of e (Some block) = Some (v_ForHash vote) \<and> v_View vote = h_View (Header_of block)
     \<and> fetch_block st 1 = Some b1 \<and> hash_of e b1 = Some (GetLastHashOfVote vote)
     \<and> (if Vote_IsOK vote
        then (h_View (Header_of block) < 5 \<or> certified e st block) \<and> s_View (c_hs st') = s_View (c_hs st) + 1 \<and> last (c_block_pool st') = block
        else st' = st\<lparr>c_outbox := c_outbox st'\<rparr>)"
  using assms
proof (cases rule: doValidate_cases)
  case (accept app lb lh vote)
  have "Vote_IsOK vote" using generated_code [OF accept(5)] by simp
  moreover have "c_outbox st' = c_outbox st @ [SendVote (c_chain_id st) (c_proposerIndex st) vote]" by (simp add: accept(2) send_def enterNextView_def append_block_def)
  ultimately show ?thesis using generated_vote [OF accept(5)] accept(1,3,4)
    by (intro exI [of _ vote] exI [of _ lb]) (simp add: verify_block_iff, simp add: accept(2) append_block_last)
next
  case (reject x lb lh vote)
  have "\<not> Vote_IsOK vote" using generated_code [OF reject(4)] by simp
  then show ?thesis using generated_vote [OF reject(4)] reject(2,3,5)
    by (intro exI [of _ vote] exI [of _ lb]) (simp add: send_def)
qed

theorem validated_block_witness:
  "\<exists>vote st'. doValidate demo_env demo_leader demo_next = Some (None, st') \<and> c_outbox st' = [SendVote ''a'' 0 vote] \<and> Vote_IsOK vote
     \<and> v_ForHash vote = [4] \<and> GetLastHashOfVote vote = [2] \<and> s_View (c_hs st') = 8"
proof -
  obtain st' where d: "doValidate demo_env demo_leader demo_next = Some (None, st')" and v: "s_View (c_hs st') = 8" by (rule demo_validates)
  have "st' \<noteq> demo_leader\<lparr>c_outbox := c_outbox st'\<rparr>"
  proof
    assume "st' = demo_leader\<lparr>c_outbox := c_outbox st'\<rparr>"
    then have "c_hs st' = c_hs demo_leader" by (metis cons_State.ext_inject cons_State.surjective cons_State.update_convs(18))
    then show False using v demo_leader_fields(4) by simp
  qed
  with validated_block [OF d] d v show ?thesis by (auto simp: demo_pool demo_next_hash demo_leader_fields split: if_splits)
qed



end
