(* ===== verification/Pyramid_Block.thy ===== *)
theory Pyramid_Block
  imports Part_Set
begin

text \<open>
  The blocks of the pyramid protocol, \<open>src/source/pyramid/types\<close>: transaction lists and their
  proofs (\<open>tx.go\<close>), headers, bodies and blocks (\<open>block.go\<close>), receipts (\<open>abci-resp.go\<close>) and the
  parts in which a block travels (\<open>block-part.go\<close>). The protobuf and time encoders are arguments.
  The collected part set is a second instance of the contract of \<open>Part_Set\<close>; the lemmas show
  that the receiver rebuilds the sender's block, and which fields a block hash covers.
\<close>

section \<open>Transaction lists\<close>

text \<open>Nil and empty lists are not told apart by any operation.\<close>

definition py_Tx_Hash :: "hash_fn \<Rightarrow> bytes \<Rightarrow> bytes" where
  "py_Tx_Hash H tx = H tx"

definition py_Txs_Hash :: "hash_fn \<Rightarrow> bytes list \<Rightarrow> bytes" where
  "py_Txs_Hash H txs = HashFromByteSlices H (map (py_Tx_Hash H) txs)"

fun find_from :: "('a \<Rightarrow> bool) \<Rightarrow> int \<Rightarrow> 'a list \<Rightarrow> int" where
  "find_from P i [] = -1"
| "find_from P i (x # xs) = (if P x then i else find_from P (i + 1) xs)"

definition py_Txs_Index :: "bytes list \<Rightarrow> bytes \<Rightarrow> int" where
  "py_Txs_Index txs tx = find_from (\<lambda>t. t = tx) 0 txs"

definition py_Txs_IndexByHash :: "hash_fn \<Rightarrow> bytes list \<Rightarrow> bytes \<Rightarrow> int" where
  "py_Txs_IndexByHash H txs hash = find_from (\<lambda>t. py_Tx_Hash H t = hash) 0 txs"

record py_TxProof =
  tp_RootHash :: bytes
  tp_Data :: bytes
  tp_Proof :: Proof

definition py_Txs_Proof :: "hash_fn \<Rightarrow> bytes list \<Rightarrow> int \<Rightarrow> py_TxProof option" where
  "py_Txs_Proof H txs i = do {
     (root, proofs) \<leftarrow> ProofsFromByteSlices H (map (py_Tx_Hash H) txs);
     tx \<leftarrow> index txs i;
     p \<leftarrow> index proofs i;
     Some \<lparr>tp_RootHash = root, tp_Data = tx, tp_Proof = p\<rparr> }"

definition py_Txs_Size :: "bytes list \<Rightarrow> int" where
  "py_Txs_Size txs = int (length txs)"

definition py_Txs_ToProto :: "bytes list \<Rightarrow> bytes list" where
  "py_Txs_ToProto txs = map (\<lambda>v. v) txs"

definition py_NewTxsFromProto :: "bytes list \<Rightarrow> bytes list" where
  "py_NewTxsFromProto p = map (\<lambda>v. v) p"

definition py_TxProof_Leaf :: "hash_fn \<Rightarrow> py_TxProof \<Rightarrow> bytes" where
  "py_TxProof_Leaf H tp = py_Tx_Hash H (tp_Data tp)"

datatype tx_proof_error = OtherDataHash | TxProofIndex | TxProofTotal | TxProofInconsistent

definition py_TxProof_Validate :: "hash_fn \<Rightarrow> py_TxProof \<Rightarrow> bytes \<Rightarrow> tx_proof_error + unit" where
  "py_TxProof_Validate H tp dataHash =
     (if dataHash \<noteq> tp_RootHash tp then Inl OtherDataHash
      else if Index (tp_Proof tp) < 0 then Inl TxProofIndex
      else if Total (tp_Proof tp) \<le> 0 then Inl TxProofTotal
      else (case Proof_Verify H (tp_Proof tp) (tp_RootHash tp) (py_TxProof_Leaf H tp) of
          Inl _ \<Rightarrow> Inl TxProofInconsistent
        | Inr _ \<Rightarrow> Inr ()))"

section \<open>Headers and bodies\<close>

definition BLOCKTYPE_I :: int where "BLOCKTYPE_I = 1"
definition BLOCKTYPE_B :: int where "BLOCKTYPE_B = 2"

lemmas block_types = BLOCKTYPE_I_def BLOCKTYPE_B_def

record py_Header =
  yh_BlockType :: int
  yh_HashPointer :: bytes
  yh_ChainID :: string
  yh_Height :: int
  yh_Time :: timestamp
  yh_BodyRoot :: bytes
  yh_CrossShardBodyRoot :: bytes
  yh_StateRoot :: bytes
  yh_ReceiptRoot :: bytes
  yh_RelationRoot :: bytes

text \<open>The time encoder may fail; the hash of such a header is nil.\<close>

definition py_Header_items :: "py_Header \<Rightarrow> bytes \<Rightarrow> bytes list" where
  "py_Header_items h pbt = [slice_bytes (IntToBytes (Int8 (word_of_int (yh_BlockType h)))), yh_HashPointer h,
     bytes_of_string (yh_ChainID h), slice_bytes (IntToBytes (Int64 (word_of_int (yh_Height h)))), pbt,
     yh_BodyRoot h, yh_CrossShardBodyRoot h, yh_StateRoot h, yh_ReceiptRoot h, yh_RelationRoot h]"

definition py_Header_Hash :: "(timestamp \<Rightarrow> bytes option) \<Rightarrow> hash_fn \<Rightarrow> py_Header \<Rightarrow> bytes" where
  "py_Header_Hash enc H h = (case enc (yh_Time h) of
      None \<Rightarrow> []
    | Some pbt \<Rightarrow> HashFromByteSlices H (py_Header_items h pbt))"

record pb_py_Header =
  pby_BlockType :: "32 word"
  pby_HashPointer :: bytes
  pby_ChainID :: string
  pby_Height :: int
  pby_Time :: timestamp
  pby_BodyRoot :: bytes
  pby_CrossShardBodyRoot :: bytes
  pby_StateRoot :: bytes
  pby_ReceiptRoot :: bytes
  pby_RelationRoot :: bytes

definition py_Header_ToProto :: "py_Header \<Rightarrow> pb_py_Header" where
  "py_Header_ToProto h = \<lparr>pby_BlockType = word_of_int (yh_BlockType h), pby_HashPointer = yh_HashPointer h,
     pby_ChainID = yh_ChainID h, pby_Height = yh_Height h, pby_Time = yh_Time h, pby_BodyRoot = yh_BodyRoot h,
     pby_CrossShardBodyRoot = yh_CrossShardBodyRoot h, pby_StateRoot = yh_StateRoot h,
     pby_ReceiptRoot = yh_ReceiptRoot h, pby_RelationRoot = yh_RelationRoot h\<rparr>"

text \<open>\<open>int8(p.BlockType)\<close> keeps the low byte.\<close>

definition py_NewHeaderFromProto :: "pb_py_Header \<Rightarrow> py_Header" where
  "py_NewHeaderFromProto p = \<lparr>yh_BlockType = sint (ucast (pby_BlockType p) :: 8 word), yh_HashPointer = pby_HashPointer p,
     yh_ChainID = pby_ChainID p, yh_Height = pby_Height p, yh_Time = pby_Time p, yh_BodyRoot = pby_BodyRoot p,
     yh_CrossShardBodyRoot = pby_CrossShardBodyRoot p, yh_StateRoot = pby_StateRoot p,
     yh_ReceiptRoot = pby_ReceiptRoot p, yh_RelationRoot = pby_RelationRoot p\<rparr>"

record py_Relation =
  RelatedCommitStatus :: "bytes list"
  RelatedHash :: "bytes list"
  MyCommitStatus :: bytes

definition py_Relation_Hash :: "hash_fn \<Rightarrow> py_Relation \<Rightarrow> bytes" where
  "py_Relation_Hash H r = HashFromByteSlices H [HashFromByteSlices H (RelatedCommitStatus r),
     HashFromByteSlices H (RelatedHash r), MyCommitStatus r]"

record pb_py_Relation =
  pby_RelatedCommitStatus :: "bytes list"
  pby_RelatedHash :: "bytes list"
  pby_MyCommitStatus :: bytes

definition py_Relation_ToProto :: "py_Relation \<Rightarrow> pb_py_Relation" where
  "py_Relation_ToProto r = \<lparr>pby_RelatedCommitStatus = RelatedCommitStatus r, pby_RelatedHash = RelatedHash r,
     pby_MyCommitStatus = MyCommitStatus r\<rparr>"

definition py_NewRelationFromProto :: "pb_py_Relation \<Rightarrow> py_Relation" where
  "py_NewRelationFromProto p = \<lparr>RelatedCommitStatus = pby_RelatedCommitStatus p, RelatedHash = pby_RelatedHash p,
     MyCommitStatus = pby_MyCommitStatus p\<rparr>"

record py_CrossShardBody =
  y_CrossShardTxs :: "bytes list"
  y_CrossShardDatas :: "bytes list"

definition py_CrossShardBody_Hash :: "hash_fn \<Rightarrow> py_CrossShardBody \<Rightarrow> bytes" where
  "py_CrossShardBody_Hash H b = HashFromByteSlices H [py_Txs_Hash H (y_CrossShardTxs b), HashFromByteSlices H (y_CrossShardDatas b)]"

record pb_py_CrossShardBody =
  pby_cs_Txs :: "bytes list"
  pby_CrossShardDatas :: "bytes list"

definition py_CrossShardBody_ToProto :: "py_CrossShardBody \<Rightarrow> pb_py_CrossShardBody" where
  "py_CrossShardBody_ToProto b = \<lparr>pby_cs_Txs = py_Txs_ToProto (y_CrossShardTxs b), pby_CrossShardDatas = y_CrossShardDatas b\<rparr>"

definition py_NewCrossShardBodyFromProto :: "pb_py_CrossShardBody \<Rightarrow> py_CrossShardBody" where
  "py_NewCrossShardBodyFromProto p = \<lparr>y_CrossShardTxs = py_NewTxsFromProto (pby_cs_Txs p), y_CrossShardDatas = pby_CrossShardDatas p\<rparr>"

record py_Body =
  y_BodyTxs :: "bytes list"

definition py_Body_Hash :: "hash_fn \<Rightarrow> py_Body \<Rightarrow> bytes" where
  "py_Body_Hash H b = py_Txs_Hash H (y_BodyTxs b)"

record pb_py_Body =
  pby_Txs :: "bytes list"

definition py_Body_ToProto :: "py_Body \<Rightarrow> pb_py_Body" where
  "py_Body_ToProto b = \<lparr>pby_Txs = py_Txs_ToProto (y_BodyTxs b)\<rparr>"

definition py_NewBodyFromProto :: "pb_py_Body \<Rightarrow> py_Body" where
  "py_NewBodyFromProto p = \<lparr>y_BodyTxs = py_NewTxsFromProto (pby_Txs p)\<rparr>"

text \<open>The round of a commit is an \<open>int\<close>, for which \<open>IntToBytes\<close> returns nil.\<close>

record py_Commit =
  yc_Height :: int
  yc_Round :: int
  yc_BlockHash :: bytes
  yc_Sigs :: "bytes list"
  yc_hash :: "bytes option"

definition py_Commit_Hash :: "hash_fn \<Rightarrow> py_Commit \<Rightarrow> bytes" where
  "py_Commit_Hash H c = (case yc_hash c of
      Some h \<Rightarrow> h
    | None \<Rightarrow> HashFromByteSlices H [slice_bytes (IntToBytes (Int64 (word_of_int (yc_Height c)))),
        slice_bytes (IntToBytes OtherNum), yc_BlockHash c, HashFromByteSlices H (yc_Sigs c)])"

record pb_py_Commit =
  pby_c_Height :: int
  pby_c_Round :: "32 word"
  pby_c_BlockHash :: bytes
  pby_c_Sigs :: "bytes list"

definition py_Commit_ToProto :: "py_Commit \<Rightarrow> pb_py_Commit" where
  "py_Commit_ToProto c = \<lparr>pby_c_Height = yc_Height c, pby_c_Round = word_of_int (yc_Round c),
     pby_c_BlockHash = yc_BlockHash c, pby_c_Sigs = yc_Sigs c\<rparr>"

definition py_NewCommitFromProto :: "pb_py_Commit \<Rightarrow> py_Commit" where
  "py_NewCommitFromProto p = \<lparr>yc_Height = pby_c_Height p, yc_Round = sint (pby_c_Round p),
     yc_BlockHash = pby_c_BlockHash p, yc_Sigs = pby_c_Sigs p, yc_hash = None\<rparr>"

section \<open>Blocks\<close>

record py_Block =
  y_Header :: py_Header
  y_Body :: py_Body
  y_CrossShardBody :: py_CrossShardBody
  y_Relation :: py_Relation
  y_blockhash :: bytes

text \<open>The second step tests the relation root and writes the receipt root.\<close>

definition py_fillHeader :: "hash_fn \<Rightarrow> py_Block \<Rightarrow> py_Block" where
  "py_fillHeader H b =
     (let h0 = y_Header b;
          h1 = (if length (yh_BodyRoot h0) \<noteq> hash_size then h0\<lparr>yh_BodyRoot := py_Body_Hash H (y_Body b)\<rparr> else h0);
          h2 = (if length (yh_RelationRoot h1) \<noteq> hash_size then h1\<lparr>yh_ReceiptRoot := py_Relation_Hash H (y_Relation b)\<rparr> else h1);
          h3 = (if length (yh_CrossShardBodyRoot h2) \<noteq> hash_size
                then h2\<lparr>yh_CrossShardBodyRoot := py_CrossShardBody_Hash H (y_CrossShardBody b)\<rparr> else h2)
      in b\<lparr>y_Header := h3\<rparr>)"

definition py_Block_Hash :: "(timestamp \<Rightarrow> bytes option) \<Rightarrow> hash_fn \<Rightarrow> py_Block \<Rightarrow> py_Block \<times> bytes" where
  "py_Block_Hash enc H b =
     (let b1 = py_fillHeader H b;
          b2 = (if length (y_blockhash b1) \<noteq> hash_size then b1\<lparr>y_blockhash := py_Header_Hash enc H (y_Header b1)\<rparr> else b1)
      in (b2, y_blockhash b2))"

record pb_py_Block =
  pby_Header :: "pb_py_Header option"
  pby_Body :: "pb_py_Body option"
  pby_CrossShardBody :: "pb_py_CrossShardBody option"
  pby_Relation :: "pb_py_Relation option"

definition py_Block_ToProto :: "py_Block \<Rightarrow> pb_py_Block" where
  "py_Block_ToProto b = \<lparr>pby_Header = Some (py_Header_ToProto (y_Header b)), pby_Body = Some (py_Body_ToProto (y_Body b)),
     pby_CrossShardBody = Some (py_CrossShardBody_ToProto (y_CrossShardBody b)),
     pby_Relation = Some (py_Relation_ToProto (y_Relation b))\<rparr>"

text \<open>A missing message is a nil pointer, whose fields are read: a panic.\<close>

definition py_NewBlockFromProto :: "pb_py_Block \<Rightarrow> py_Block option" where
  "py_NewBlockFromProto p = do {
     h \<leftarrow> pby_Header p;
     b \<leftarrow> pby_Body p;
     c \<leftarrow> pby_CrossShardBody p;
     r \<leftarrow> pby_Relation p;
     Some \<lparr>y_Header = py_NewHeaderFromProto h, y_Body = py_NewBodyFromProto b,
       y_CrossShardBody = py_NewCrossShardBodyFromProto c, y_Relation = py_NewRelationFromProto r, y_blockhash = []\<rparr> }"

record py_wire =
  yw_time :: "timestamp \<Rightarrow> bytes option"
  yw_enc :: "pb_py_Block \<Rightarrow> bytes"
  yw_dec :: "bytes \<Rightarrow> pb_py_Block option"

definition py_Block_ProtoBytes :: "py_wire \<Rightarrow> py_Block \<Rightarrow> bytes" where
  "py_Block_ProtoBytes w b = yw_enc w (py_Block_ToProto b)"

text \<open>The outer option is the panic, the inner one the nil block of undecodable bytes.\<close>

definition py_NewBlockFromBytes :: "py_wire \<Rightarrow> bytes \<Rightarrow> py_Block option option" where
  "py_NewBlockFromBytes w bz = (case yw_dec w bz of
      None \<Rightarrow> Some None
    | Some p \<Rightarrow> map_option Some (py_NewBlockFromProto p))"

definition py_Block_ValidateBasic :: "py_Block \<Rightarrow> string + unit" where
  "py_Block_ValidateBasic b = Inr ()"

section \<open>Receipts\<close>

definition py_CodeTypeOK :: int where "py_CodeTypeOK = 1"
definition py_CodeTypeAbort :: int where "py_CodeTypeAbort = 3"

lemmas code_types = py_CodeTypeOK_def py_CodeTypeAbort_def

record py_Receipt =
  yr_Code :: int
  yr_Log :: string
  yr_Info :: string
  yr_Options :: "(string \<times> string) list"

definition py_Receipt_IsOK :: "py_Receipt \<Rightarrow> bool" where
  "py_Receipt_IsOK r \<longleftrightarrow> yr_Code r = py_CodeTypeOK"

record pb_py_Receipt =
  pby_r_Code :: "32 word"
  pby_r_Log :: string
  pby_r_Info :: string
  pby_r_Options :: "(string \<times> string) list"

definition py_Receipt_ToProto :: "py_Receipt \<Rightarrow> pb_py_Receipt" where
  "py_Receipt_ToProto r = \<lparr>pby_r_Code = word_of_int (yr_Code r), pby_r_Log = yr_Log r, pby_r_Info = yr_Info r,
     pby_r_Options = yr_Options r\<rparr>"

definition py_NewABCIReceiptFromProto :: "pb_py_Receipt \<Rightarrow> py_Receipt" where
  "py_NewABCIReceiptFromProto p = \<lparr>yr_Code = sint (ucast (pby_r_Code p) :: 8 word), yr_Log = pby_r_Log p,
     yr_Info = pby_r_Info p, yr_Options = pby_r_Options p\<rparr>"

section \<open>Parts\<close>

record py_Part =
  yp_ChainID :: string
  yp_Height :: int
  yp_Round :: int
  yp_Bytes :: bytes
  yp_Proof :: "Proof option"

text \<open>A nil proof panics wherever it is used.\<close>

definition py_Part_Index :: "py_Part \<Rightarrow> int option" where
  "py_Part_Index p = map_option Index (yp_Proof p)"

definition py_Part_Verify :: "hash_fn \<Rightarrow> py_Part \<Rightarrow> bytes \<Rightarrow> int \<Rightarrow> string \<Rightarrow> bool option" where
  "py_Part_Verify H p root tot chainID = map_option (\<lambda>sp.
     tot = Total sp \<and> chainID = yp_ChainID p \<and> Proof_Verify H sp root (yp_Bytes p) = Inr ()) (yp_Proof p)"

datatype py_part_error =
    YPartNegativeHeight | YPartNegativeRound | YPartEmptyBytes | YPartEmptyChain | YPartProof proof_error
  | YDuplicatedPart | YPartHeight | YPartRound | YPartMerkle

definition py_Part_ValidateBasic :: "py_Part \<Rightarrow> (py_part_error + unit) option" where
  "py_Part_ValidateBasic p =
     (if yp_Height p < 0 then Some (Inl YPartNegativeHeight)
      else if yp_Round p < 0 then Some (Inl YPartNegativeRound)
      else if length (yp_Bytes p) = 0 then Some (Inl YPartEmptyBytes)
      else if length (yp_ChainID p) = 0 then Some (Inl YPartEmptyChain)
      else map_option (\<lambda>sp. map_sum YPartProof id (Proof_ValidateBasic sp)) (yp_Proof p))"

record pb_py_Part =
  pby_p_Height :: int
  pby_p_Round :: "32 word"
  pby_p_Bytes :: bytes
  pby_p_Proof :: "pb_Proof option"
  pby_p_ChainID :: string

definition py_Part_ToProto :: "py_Part \<Rightarrow> pb_py_Part option" where
  "py_Part_ToProto p = map_option (\<lambda>sp. \<lparr>pby_p_Height = yp_Height p, pby_p_Round = word_of_int (yp_Round p),
     pby_p_Bytes = yp_Bytes p, pby_p_Proof = Some sp, pby_p_ChainID = yp_ChainID p\<rparr>) (Proof_ToProto (yp_Proof p))"

definition py_NewPartFromProto :: "pb_py_Part \<Rightarrow> py_Part option" where
  "py_NewPartFromProto pp = map_option (\<lambda>sp. \<lparr>yp_ChainID = pby_p_ChainID pp, yp_Height = pby_p_Height pp,
     yp_Round = sint (pby_p_Round pp), yp_Bytes = pby_p_Bytes pp, yp_Proof = Some sp\<rparr>) (NewProofFromProto (pby_p_Proof pp))"

record py_PartSetHeader =
  ysh_Height :: int
  ysh_Round :: int
  ysh_Total :: int
  ysh_Root :: bytes
  ysh_ChainID :: string

record pb_py_PartSetHeader =
  pby_sh_Total :: int
  pby_sh_Root :: bytes
  pby_sh_Height :: int
  pby_sh_Round :: "32 word"
  pby_sh_ChainID :: string

definition py_PartSetHeader_ToProto :: "py_PartSetHeader \<Rightarrow> pb_py_PartSetHeader" where
  "py_PartSetHeader_ToProto p = \<lparr>pby_sh_Total = ysh_Total p, pby_sh_Root = ysh_Root p, pby_sh_Height = ysh_Height p,
     pby_sh_Round = word_of_int (ysh_Round p), pby_sh_ChainID = ysh_ChainID p\<rparr>"

text \<open>Reading the fields of a nil header panics.\<close>

definition py_NewPartSetHeaderFromProto :: "pb_py_PartSetHeader option \<Rightarrow> py_PartSetHeader option" where
  "py_NewPartSetHeaderFromProto p = map_option (\<lambda>p. \<lparr>ysh_Height = pby_sh_Height p, ysh_Round = sint (pby_sh_Round p),
     ysh_Total = pby_sh_Total p, ysh_Root = pby_sh_Root p, ysh_ChainID = pby_sh_ChainID p\<rparr>) p"

definition py_PartSetHeader_Equal :: "py_PartSetHeader \<Rightarrow> py_PartSetHeader \<Rightarrow> bool" where
  "py_PartSetHeader_Equal p other \<longleftrightarrow> ysh_ChainID p = ysh_ChainID other \<and> ysh_Height p = ysh_Height other
     \<and> ysh_Round p = ysh_Round other \<and> ysh_Total p = ysh_Total other \<and> ysh_Root p = ysh_Root other"

datatype py_header_error = YHeaderHeight | YHeaderRound | YHeaderTotal | YHeaderChain | YHeaderRoot

definition py_PartSetHeader_ValidateBasic :: "py_PartSetHeader \<Rightarrow> py_header_error + unit" where
  "py_PartSetHeader_ValidateBasic p =
     (if ysh_Height p < 0 then Inl YHeaderHeight
      else if ysh_Round p < 0 then Inl YHeaderRound
      else if ysh_Total p < 0 then Inl YHeaderTotal
      else if length (ysh_ChainID p) = 0 then Inl YHeaderChain
      else if length (ysh_Root p) \<noteq> hash_size then Inl YHeaderRoot
      else Inr ())"

record py_PartSet =
  ys_Header :: py_PartSetHeader
  ys_Parts :: "py_Part option list"
  ys_count :: int
  ys_BlockHeaderHash :: bytes

text \<open>Allocating a slice of negative length panics.\<close>

definition py_NewPartSet :: "py_PartSetHeader \<Rightarrow> bytes \<Rightarrow> py_PartSet option" where
  "py_NewPartSet h headerHash = (if ysh_Total h < 0 then None
     else Some \<lparr>ys_Header = h, ys_Parts = replicate (nat (ysh_Total h)) None, ys_count = 0, ys_BlockHeaderHash = headerHash\<rparr>)"

text \<open>
  The block is encoded before its roots are filled in, then hashed; the block after hashing is
  returned with the set. A part size of zero does not return.
\<close>

definition py_PartSetFromBlock :: "py_wire \<Rightarrow> hash_fn \<Rightarrow> py_Block \<Rightarrow> int \<Rightarrow> int \<Rightarrow> (py_Block \<times> py_PartSet) option" where
  "py_PartSetFromBlock w H b maxPartSize round = do {
     bzList \<leftarrow> SplitByteArray (py_Block_ProtoBytes w b) maxPartSize;
     (hs, proofs) \<leftarrow> ProofsFromByteSlices H bzList;
     let chainid = yh_ChainID (y_Header b);
     let height = yh_Height (y_Header b);
     let parts = map (\<lambda>(bz, sp). \<lparr>yp_ChainID = chainid, yp_Height = height, yp_Round = round, yp_Bytes = bz, yp_Proof = Some sp\<rparr>) (zip bzList proofs);
     let (b1, hash) = py_Block_Hash (yw_time w) H b;
     Some (b1, \<lparr>ys_Header = \<lparr>ysh_Height = height, ysh_Round = round, ysh_Total = int (length parts), ysh_Root = hs, ysh_ChainID = chainid\<rparr>,
        ys_Parts = map Some parts, ys_count = int (length parts), ys_BlockHeaderHash = hash\<rparr>) }"

definition py_PartSet_AddPart :: "hash_fn \<Rightarrow> py_PartSet \<Rightarrow> py_Part \<Rightarrow> (py_part_error + py_PartSet) option" where
  "py_PartSet_AddPart H ps p = do {
     i \<leftarrow> py_Part_Index p;
     dup \<leftarrow> (if i < ysh_Total (ys_Header ps) then map_option (\<lambda>slot. slot \<noteq> None) (index (ys_Parts ps) i) else Some False);
     if dup then Some (Inl YDuplicatedPart)
     else if ysh_Height (ys_Header ps) \<noteq> yp_Height p then Some (Inl YPartHeight)
     else if ysh_Round (ys_Header ps) \<noteq> yp_Round p then Some (Inl YPartRound)
     else do {
       ok \<leftarrow> py_Part_Verify H p (ysh_Root (ys_Header ps)) (ysh_Total (ys_Header ps)) (ysh_ChainID (ys_Header ps));
       if \<not> ok then Some (Inl YPartMerkle)
       else if 0 \<le> i \<and> i < int (length (ys_Parts ps))
       then Some (Inr (ps\<lparr>ys_Parts := (ys_Parts ps)[nat i := Some p], ys_count := ys_count ps + 1\<rparr>)) else None } }"

definition py_IsComplete :: "py_PartSet \<Rightarrow> bool" where
  "py_IsComplete ps \<longleftrightarrow> ysh_Total (ys_Header ps) = ys_count ps"

datatype py_gen_error = YGenDecode | YGenChain | YGenHeight | YGenBlock string | YGenHash

definition py_join_parts :: "py_PartSet \<Rightarrow> bytes option" where
  "py_join_parts ps = (if int (length (ys_Parts ps)) > ys_count ps then None
     else map_option concat (map_or_panic (map_option yp_Bytes) (ys_Parts ps)))"

text \<open>The result is the pair of block and error; an incomplete set gives neither.\<close>

definition py_GenBlock :: "py_wire \<Rightarrow> hash_fn \<Rightarrow> py_PartSet \<Rightarrow> (py_Block option \<times> py_gen_error option) option" where
  "py_GenBlock w H ps =
     (if \<not> py_IsComplete ps then Some (None, None)
      else do {
        bz \<leftarrow> py_join_parts ps;
        decoded \<leftarrow> py_NewBlockFromBytes w bz;
        (case decoded of
           None \<Rightarrow> Some (None, Some YGenDecode)
         | Some block \<Rightarrow>
             if yh_ChainID (y_Header block) \<noteq> ysh_ChainID (ys_Header ps) then Some (None, Some YGenChain)
             else if yh_Height (y_Header block) \<noteq> ysh_Height (ys_Header ps) then Some (None, Some YGenHeight)
             else (case py_Block_ValidateBasic block of
                 Inl e \<Rightarrow> Some (Some block, Some (YGenBlock e))
               | Inr _ \<Rightarrow> (let (block', hash) = py_Block_Hash (yw_time w) H block
                   in Some (Some block', if hash \<noteq> ys_BlockHeaderHash ps then Some YGenHash else None)))) })"

section \<open>Encoding and hashing\<close>

lemma py_header_roundtrip:
  "- 128 \<le> yh_BlockType h \<Longrightarrow> yh_BlockType h < 128 \<Longrightarrow> py_NewHeaderFromProto (py_Header_ToProto h) = h"
  by (simp add: py_NewHeaderFromProto_def py_Header_ToProto_def ucast_word_of_int int_word_sint)

lemma py_block_roundtrip:
  assumes "- 128 \<le> yh_BlockType (y_Header b)" "yh_BlockType (y_Header b) < 128"
  shows "py_NewBlockFromProto (py_Block_ToProto b) = Some (b\<lparr>y_blockhash := []\<rparr>)"
  using py_header_roundtrip [OF assms]
  by (simp add: py_NewBlockFromProto_def py_Block_ToProto_def py_NewBodyFromProto_def py_Body_ToProto_def
      py_NewCrossShardBodyFromProto_def py_CrossShardBody_ToProto_def py_NewRelationFromProto_def py_Relation_ToProto_def
      py_NewTxsFromProto_def py_Txs_ToProto_def)

lemma py_tx_proof_complete:
  assumes "i < length txs"
  shows "\<exists>tp. py_Txs_Proof H txs (int i) = Some tp \<and> tp_Data tp = txs ! i \<and> py_TxProof_Validate H tp (py_Txs_Hash H txs) = Inr ()"
  using assms honest_proof_verifies [of i "map (py_Tx_Hash H) txs" H]
  by (simp add: py_Txs_Proof_def ProofsFromByteSlices_eq index_def py_TxProof_Validate_def py_TxProof_Leaf_def py_Txs_Hash_def)
    (auto simp: honest_proof_def)

text \<open>A proof that validates is about a transaction of the list, up to collisions of the hash.\<close>

lemma py_tx_proof_sound:
  assumes "py_TxProof_Validate H tp (py_Txs_Hash H txs) = Inr ()" "\<And>x. length (H x) = hash_size"
    and "inj_on H (tree_inputs H (map H txs) \<union> proof_inputs H (tp_Proof tp) (H (tp_Data tp)) \<union> set txs \<union> {tp_Data tp})"
  shows "tp_Data tp \<in> set txs"
proof -
  have v: "Proof_Verify H (tp_Proof tp) (HashFromByteSlices H (map H txs)) (H (tp_Data tp)) = Inr ()"
    using assms(1) by (auto simp: py_TxProof_Validate_def py_Txs_Hash_def py_TxProof_Leaf_def py_Tx_Hash_def [abs_def] split: if_splits sum.splits)
  have "inj_on H (tree_inputs H (map H txs) \<union> proof_inputs H (tp_Proof tp) (H (tp_Data tp)))"
    by (rule inj_on_subset [OF assms(3)]) blast
  from Verify_sound [of H, OF assms(2) v this] obtain tx where tx: "tx \<in> set txs" "H (tp_Data tp) = H tx" by auto
  then have "tp_Data tp = tx" using inj_onD [OF assms(3) tx(2)] by blast
  then show ?thesis using tx(1) by simp
qed

section \<open>Collecting the parts of a block\<close>

definition py_fits :: "hash_fn \<Rightarrow> py_PartSet \<Rightarrow> py_Part \<Rightarrow> nat \<Rightarrow> bool" where
  "py_fits H ps p i \<longleftrightarrow> i < length (ys_Parts ps) \<and> ysh_Height (ys_Header ps) = yp_Height p \<and> ysh_Round (ys_Header ps) = yp_Round p
     \<and> py_Part_Index p = Some (int i)
     \<and> py_Part_Verify H p (ysh_Root (ys_Header ps)) (ysh_Total (ys_Header ps)) (ysh_ChainID (ys_Header ps)) = Some True"

definition py_wf_slots :: "py_PartSet \<Rightarrow> bool" where
  "py_wf_slots ps \<longleftrightarrow> ysh_Total (ys_Header ps) = int (length (ys_Parts ps))
     \<and> ys_count ps = int (length (filter taken (ys_Parts ps)))"

definition py_offer :: "hash_fn \<Rightarrow> py_PartSet \<Rightarrow> py_Part \<Rightarrow> py_PartSet" where
  "py_offer H ps p = (case py_PartSet_AddPart H ps p of Some (Inr ps') \<Rightarrow> ps' | _ \<Rightarrow> ps)"

lemma py_AddPart_cases:
  assumes "py_wf_slots ps" "py_PartSet_AddPart H ps p = Some (Inr ps')"
  obtains i where "py_fits H ps p i" "ys_Parts ps ! i = None"
    "ps' = ps\<lparr>ys_Parts := (ys_Parts ps)[i := Some p], ys_count := ys_count ps + 1\<rparr>"
proof -
  obtain i where i: "py_Part_Index p = Some i" using assms(2) by (auto simp: py_PartSet_AddPart_def bind_eq_Some_conv)
  let ?v = "py_Part_Verify H p (ysh_Root (ys_Header ps)) (ysh_Total (ys_Header ps)) (ysh_ChainID (ys_Header ps))"
  have "?v = Some True \<and> 0 \<le> i \<and> i < int (length (ys_Parts ps)) \<and> ysh_Height (ys_Header ps) = yp_Height p
      \<and> ysh_Round (ys_Header ps) = yp_Round p \<and> ps' = ps\<lparr>ys_Parts := (ys_Parts ps)[nat i := Some p], ys_count := ys_count ps + 1\<rparr>
      \<and> ys_Parts ps ! nat i = None"
    using assms unfolding py_PartSet_AddPart_def i py_wf_slots_def
    by (auto simp: bind_eq_Some_conv index_def split: if_splits)
  then have "py_fits H ps p (nat i)" "ys_Parts ps ! nat i = None"
    "ps' = ps\<lparr>ys_Parts := (ys_Parts ps)[nat i := Some p], ys_count := ys_count ps + 1\<rparr>" using i by (auto simp: py_fits_def)
  then show ?thesis by (rule that)
qed

lemma py_AddPart_fits:
  assumes "py_wf_slots ps" "py_fits H ps p i"
  shows "py_PartSet_AddPart H ps p = Some (if ys_Parts ps ! i = None
     then Inr (ps\<lparr>ys_Parts := (ys_Parts ps)[i := Some p], ys_count := ys_count ps + 1\<rparr>) else Inl YDuplicatedPart)"
  using assms by (auto simp: py_PartSet_AddPart_def py_fits_def py_wf_slots_def index_def)

lemma py_offer_wf: "py_wf_slots ps \<Longrightarrow> py_wf_slots (py_offer H ps p) \<and> ys_Header (py_offer H ps p) = ys_Header ps
    \<and> ys_BlockHeaderHash (py_offer H ps p) = ys_BlockHeaderHash ps \<and> length (ys_Parts (py_offer H ps p)) = length (ys_Parts ps)"
proof (cases "\<exists>ps'. py_PartSet_AddPart H ps p = Some (Inr ps')")
  case True
  assume wf: "py_wf_slots ps"
  obtain ps' where ps': "py_PartSet_AddPart H ps p = Some (Inr ps')" using True by blast
  obtain i where i: "py_fits H ps p i" "ys_Parts ps ! i = None"
    "ps' = ps\<lparr>ys_Parts := (ys_Parts ps)[i := Some p], ys_count := ys_count ps + 1\<rparr>" by (rule py_AddPart_cases [OF wf ps'])
  have "i < length (ys_Parts ps)" using i(1) by (simp add: py_fits_def)
  then show ?thesis using wf ps' i(2,3) by (simp add: py_offer_def py_wf_slots_def filter_fill)
qed (auto simp: py_offer_def split: option.split sum.split)

interpretation py_parts: part_collector "py_offer H" ys_Parts "py_fits H" py_wf_slots for H
proof unfold_locales
  fix s p i
  show "py_fits H s p i \<Longrightarrow> i < length (ys_Parts s)" by (simp add: py_fits_def)
next
  fix s p q i assume "py_wf_slots s"
  then show "py_fits H (py_offer H s p) q i = py_fits H s q i" using py_offer_wf [of s H p] by (simp add: py_fits_def)
next
  fix s p i assume "py_wf_slots s" "py_fits H s p i"
  then show "ys_Parts (py_offer H s p) = (if ys_Parts s ! i = None then (ys_Parts s)[i := Some p] else ys_Parts s)"
    by (simp add: py_offer_def py_AddPart_fits)
next
  fix s p assume wf: "py_wf_slots s" and un: "\<And>i. \<not> py_fits H s p i"
  have "\<not> (\<exists>s'. py_PartSet_AddPart H s p = Some (Inr s'))" using py_AddPart_cases [OF wf] un by blast
  then show "ys_Parts (py_offer H s p) = ys_Parts s" by (auto simp: py_offer_def split: option.split sum.split)
next
  fix s p assume "py_wf_slots s"
  then show "py_wf_slots (py_offer H s p)" by (simp add: py_offer_wf)
qed

text \<open>Validated parts never make \<open>AddPart\<close> panic.\<close>

lemma py_AddPart_total:
  assumes "py_wf_slots ps" "ysh_Root (ys_Header ps) \<noteq> []" "py_Part_ValidateBasic p = Some (Inr ())"
  shows "py_PartSet_AddPart H ps p \<noteq> None"
proof -
  obtain sp where sp: "yp_Proof p = Some sp" "0 \<le> Index sp"
    using assms(3) by (auto simp: py_Part_ValidateBasic_def Proof_ValidateBasic_def split: if_splits)
  let ?v = "py_Part_Verify H p (ysh_Root (ys_Header ps)) (ysh_Total (ys_Header ps)) (ysh_ChainID (ys_Header ps))"
  obtain r where r: "?v = Some r" using sp(1) by (simp add: py_Part_Verify_def)
  have "\<not> r" if f: "\<not> Index sp < ysh_Total (ys_Header ps)"
  proof
    assume r
    then have t: "Total sp = ysh_Total (ys_Header ps)" and v: "Proof_Verify H sp (ysh_Root (ys_Header ps)) (yp_Bytes p) = Inr ()"
      using r sp(1) by (simp_all add: py_Part_Verify_def)
    have "ComputeRootHash H sp = None" using f t by (simp add: ComputeRootHash_def computeHashFromAunts.simps [of H "Index sp"])
    then show False using v assms(2) by (auto simp: Proof_Verify_def slice_bytes_def split: if_splits)
  qed
  then show ?thesis using sp assms(1) r by (auto simp: py_PartSet_AddPart_def py_Part_Index_def py_wf_slots_def index_def)
qed

lemma py_offers_keep:
  "py_wf_slots ps \<Longrightarrow> ys_Header (foldl (py_offer H) ps parts) = ys_Header ps
     \<and> ys_BlockHeaderHash (foldl (py_offer H) ps parts) = ys_BlockHeaderHash ps"
  by (induction parts arbitrary: ps) (simp_all add: py_offer_wf)

lemma py_complete_iff: "py_wf_slots ps \<Longrightarrow> py_IsComplete ps \<longleftrightarrow> None \<notin> set (ys_Parts ps)"
  unfolding filter_taken [symmetric] py_wf_slots_def py_IsComplete_def by (elim conjE) (simp only: of_nat_eq_iff, rule eq_commute)

lemma py_wf_NewPartSet: "py_NewPartSet h hash = Some ps \<Longrightarrow> py_wf_slots ps \<and> ys_Header ps = h \<and> ys_BlockHeaderHash ps = hash
    \<and> ys_Parts ps = replicate (nat (ysh_Total h)) None"
  by (auto simp: py_NewPartSet_def py_wf_slots_def split: if_splits)

definition py_honest_part :: "hash_fn \<Rightarrow> py_PartSetHeader \<Rightarrow> bytes list \<Rightarrow> nat \<Rightarrow> py_Part" where
  "py_honest_part H h bzs i = \<lparr>yp_ChainID = ysh_ChainID h, yp_Height = ysh_Height h, yp_Round = ysh_Round h, yp_Bytes = bzs ! i,
     yp_Proof = Some (honest_proof H bzs i)\<rparr>"

lemma py_PartSetFromBlock_eq:
  assumes "py_PartSetFromBlock w H b sz round = Some (b', sent)" "0 < sz"
  defines "bzs \<equiv> chunks (nat sz) (py_Block_ProtoBytes w b)"
  shows "ys_Header sent = \<lparr>ysh_Height = yh_Height (y_Header b), ysh_Round = round, ysh_Total = int (length bzs),
       ysh_Root = HashFromByteSlices H bzs, ysh_ChainID = yh_ChainID (y_Header b)\<rparr>"
    and "ys_Parts sent = map (\<lambda>i. Some (py_honest_part H (ys_Header sent) bzs i)) [0..<length bzs]"
    and "py_Block_Hash (yw_time w) H b = (b', ys_BlockHeaderHash sent)"
proof -
  have zip: "zip bzs (map (honest_proof H bzs) [0..<length bzs]) = map (\<lambda>i. (bzs ! i, honest_proof H bzs i)) [0..<length bzs]"
    by (rule nth_equalityI) simp_all
  obtain b1 hash where h: "py_Block_Hash (yw_time w) H b = (b1, hash)" by (metis surj_pair)
  have e: "b' = b1" "sent = \<lparr>ys_Header = \<lparr>ysh_Height = yh_Height (y_Header b), ysh_Round = round, ysh_Total = int (length bzs),
       ysh_Root = HashFromByteSlices H bzs, ysh_ChainID = yh_ChainID (y_Header b)\<rparr>,
     ys_Parts = map (\<lambda>i. Some \<lparr>yp_ChainID = yh_ChainID (y_Header b), yp_Height = yh_Height (y_Header b), yp_Round = round,
       yp_Bytes = bzs ! i, yp_Proof = Some (honest_proof H bzs i)\<rparr>) [0..<length bzs],
     ys_count = int (length bzs), ys_BlockHeaderHash = hash\<rparr>"
    using assms(1) by (simp_all add: py_PartSetFromBlock_def SplitByteArray_chunks [OF assms(2)] bzs_def [symmetric]
        ProofsFromByteSlices_eq zip o_def Let_def h)
  show "ys_Header sent = \<lparr>ysh_Height = yh_Height (y_Header b), ysh_Round = round, ysh_Total = int (length bzs),
       ysh_Root = HashFromByteSlices H bzs, ysh_ChainID = yh_ChainID (y_Header b)\<rparr>"
    "ys_Parts sent = map (\<lambda>i. Some (py_honest_part H (ys_Header sent) bzs i)) [0..<length bzs]"
    "py_Block_Hash (yw_time w) H b = (b', ys_BlockHeaderHash sent)"
    by (simp_all add: e h py_honest_part_def)
qed

lemma py_honest_part_fits:
  assumes "ys_Header ps = h" "ysh_Total h = int (length bzs)" "ysh_Root h = HashFromByteSlices H bzs" "length (ys_Parts ps) = length bzs"
    "i < length bzs"
  shows "py_fits H ps (py_honest_part H h bzs i) i"
  using assms honest_proof_verifies [OF assms(5), of H]
  by (simp add: py_fits_def py_honest_part_def py_Part_Index_def py_Part_Verify_def) (simp add: honest_proof_def)

definition py_part_binding :: "hash_fn \<Rightarrow> bytes list \<Rightarrow> py_Part \<Rightarrow> bool" where
  "py_part_binding H bzs p \<longleftrightarrow> (case yp_Proof p of None \<Rightarrow> True | Some sp \<Rightarrow> no_collision H bzs sp (yp_Bytes p))"

lemma py_fits_bytes:
  assumes "py_fits H ps p i" "py_part_binding H bzs p" "ysh_Root (ys_Header ps) = HashFromByteSlices H bzs"
    "ysh_Total (ys_Header ps) = int (length bzs)"
  shows "yp_Bytes p = bzs ! i"
proof -
  obtain sp where sp: "yp_Proof p = Some sp" "Index sp = int i" using assms(1) by (auto simp: py_fits_def py_Part_Index_def)
  have "Proof_Verify H sp (HashFromByteSlices H bzs) (yp_Bytes p) = Inr ()" "Total sp = int (length bzs)"
    using assms(1,3,4) sp(1) by (auto simp: py_fits_def py_Part_Verify_def)
  then have "bzs ! nat (Index sp) = yp_Bytes p"
    using merkle.sound [of H bzs sp "yp_Bytes p"] assms(2) sp(1) by (simp add: py_part_binding_def)
  then show ?thesis using sp(2) by simp
qed

lemma py_all_parts:
  assumes new: "py_NewPartSet (ys_Header sent) (ys_BlockHeaderHash sent) = Some ps0"
    and sent: "ysh_Total (ys_Header sent) = int (length bzs)" "ysh_Root (ys_Header sent) = HashFromByteSlices H bzs"
      "ys_Parts sent = map (\<lambda>i. Some (py_honest_part H (ys_Header sent) bzs i)) [0..<length bzs]"
    and all: "set (ys_Parts sent) \<subseteq> Some ` set parts"
  shows "py_IsComplete (foldl (py_offer H) ps0 parts)"
proof -
  have e: "py_wf_slots ps0" "ys_Header ps0 = ys_Header sent" "ys_Parts ps0 = replicate (length bzs) None"
    using py_wf_NewPartSet [OF new] sent(1) by simp_all
  have "None \<notin> set (ys_Parts (foldl (py_offer H) ps0 parts))"
  proof (rule py_parts.deliver_all [OF e(1)])
    fix i assume "i < length (ys_Parts ps0)"
    then have i: "i < length bzs" by (simp add: e(3))
    then have "Some (py_honest_part H (ys_Header sent) bzs i) \<in> set (ys_Parts sent)" by (simp add: sent(3))
    then have "py_honest_part H (ys_Header sent) bzs i \<in> set parts" using all by auto
    moreover have "py_fits H ps0 (py_honest_part H (ys_Header sent) bzs i) i"
      by (rule py_honest_part_fits) (simp_all add: e i sent)
    ultimately show "\<exists>p \<in> set parts. py_fits H ps0 p i" by blast
  qed
  then show ?thesis using py_complete_iff py_parts.deliver_ok [OF e(1), of H parts] by blast
qed

lemma py_collected:
  assumes new: "py_NewPartSet (ys_Header sent) (ys_BlockHeaderHash sent) = Some ps0"
    and sent: "ysh_Total (ys_Header sent) = int (length bzs)" "ysh_Root (ys_Header sent) = HashFromByteSlices H bzs"
    and c: "py_IsComplete (foldl (py_offer H) ps0 parts)" and bind: "list_all (py_part_binding H bzs) parts"
  shows "py_join_parts (foldl (py_offer H) ps0 parts) = Some (concat bzs)"
proof -
  let ?ps = "foldl (py_offer H) ps0 parts"
  have e: "py_wf_slots ps0" "ys_Header ps0 = ys_Header sent" "ys_Parts ps0 = replicate (length bzs) None"
    using py_wf_NewPartSet [OF new] sent(1) by simp_all
  have ok: "py_wf_slots ?ps" "length (ys_Parts ?ps) = length bzs" using py_parts.deliver_ok [OF e(1), of H parts] e(3) by simp_all
  have full: "None \<notin> set (ys_Parts ?ps)" using py_complete_iff [OF ok(1)] c by blast
  have "map_or_panic (map_option yp_Bytes) (ys_Parts ?ps) = Some bzs"
  proof (rule py_parts.deliver_contents [OF e(1,3) full])
    fix p i assume "p \<in> set parts" "py_fits H ps0 p i"
    then show "yp_Bytes p = bzs ! i" using py_fits_bytes [of H ps0 p i bzs] bind sent(1,2) e(2) by (auto simp: list_all_iff)
  qed
  moreover have "ys_count ?ps = int (length bzs)"
    using c ok by (simp add: py_IsComplete_def py_wf_slots_def)
  ultimately show ?thesis using ok(2) by (simp add: py_join_parts_def)
qed

text \<open>
  From a set that is complete, whatever order the parts came in and whoever sent them, the
  receiver gets exactly the block that the sender hashed; the sender's own parts complete it.
\<close>

definition py_sent :: "py_wire \<Rightarrow> hash_fn \<Rightarrow> py_Block \<Rightarrow> int \<Rightarrow> int \<Rightarrow> py_Block \<Rightarrow> py_PartSet \<Rightarrow> bool" where
  "py_sent w H b sz round b' sent \<longleftrightarrow> py_PartSetFromBlock w H b sz round = Some (b', sent) \<and> 0 < sz \<and> y_blockhash b = []
     \<and> - 128 \<le> yh_BlockType (y_Header b) \<and> yh_BlockType (y_Header b) < 128
     \<and> yw_dec w (py_Block_ProtoBytes w b) = Some (py_Block_ToProto b)"

lemma py_sent_completes:
  assumes "py_sent w H b sz round b' sent" "py_NewPartSet (ys_Header sent) (ys_BlockHeaderHash sent) = Some ps0"
    and "set (ys_Parts sent) \<subseteq> Some ` set parts"
  shows "py_IsComplete (foldl (py_offer H) ps0 parts)"
proof -
  have a: "py_PartSetFromBlock w H b sz round = Some (b', sent)" "0 < sz" using assms(1) by (simp_all add: py_sent_def)
  show ?thesis by (rule py_all_parts [OF assms(2) _ _ py_PartSetFromBlock_eq(2) [OF a] assms(3)]) (simp_all add: py_PartSetFromBlock_eq(1) [OF a])
qed

lemma py_rebuilt:
  assumes "py_sent w H b sz round b' sent" "py_NewPartSet (ys_Header sent) (ys_BlockHeaderHash sent) = Some ps0"
    and "list_all (py_part_binding H (chunks (nat sz) (py_Block_ProtoBytes w b))) parts" "py_IsComplete (foldl (py_offer H) ps0 parts)"
  shows "py_GenBlock w H (foldl (py_offer H) ps0 parts) = Some (Some b', None)"
proof -
  let ?bzs = "chunks (nat sz) (py_Block_ProtoBytes w b)" let ?ps = "foldl (py_offer H) ps0 parts"
  have a: "py_PartSetFromBlock w H b sz round = Some (b', sent)" "0 < sz" "y_blockhash b = []" "- 128 \<le> yh_BlockType (y_Header b)"
    "yh_BlockType (y_Header b) < 128" "yw_dec w (py_Block_ProtoBytes w b) = Some (py_Block_ToProto b)"
    using assms(1) by (simp_all add: py_sent_def)
  note s = py_PartSetFromBlock_eq [OF a(1,2)]
  have t: "ysh_Total (ys_Header sent) = int (length ?bzs)" "ysh_Root (ys_Header sent) = HashFromByteSlices H ?bzs" by (simp_all add: s(1))
  have j: "py_join_parts ?ps = Some (py_Block_ProtoBytes w b)"
    using py_collected [OF assms(2) t assms(4,3)] a(2) by (simp add: concat_chunks)
  have h: "ys_Header ?ps = ys_Header sent" "ys_BlockHeaderHash ?ps = ys_BlockHeaderHash sent"
    using py_offers_keep [of ps0 H parts] py_wf_NewPartSet [OF assms(2)] by simp_all
  have "b\<lparr>y_blockhash := []\<rparr> = b" using a(3) by (cases b) simp
  then have "py_NewBlockFromBytes w (py_Block_ProtoBytes w b) = Some (Some b)"
    using py_block_roundtrip [OF a(4,5)] by (simp add: py_NewBlockFromBytes_def a(6))
  then show ?thesis using j assms(4) by (simp add: py_GenBlock_def h s(1,3) py_Block_ValidateBasic_def)
qed

section \<open>What a block hash covers\<close>

definition py_unfilled :: "py_Block \<Rightarrow> bool" where
  "py_unfilled b \<longleftrightarrow> length (yh_BodyRoot (y_Header b)) \<noteq> hash_size \<and> length (yh_RelationRoot (y_Header b)) \<noteq> hash_size
     \<and> length (yh_CrossShardBodyRoot (y_Header b)) \<noteq> hash_size \<and> length (y_blockhash b) \<noteq> hash_size"

text \<open>The lists whose roots make up the hash of a block with no roots filled in.\<close>

definition py_hashed_lists :: "(timestamp \<Rightarrow> bytes option) \<Rightarrow> hash_fn \<Rightarrow> py_Block \<Rightarrow> bytes list list" where
  "py_hashed_lists enc H b =
     [py_Header_items (y_Header (py_fillHeader H b)) (slice_bytes (enc (yh_Time (y_Header b)))),
      map (py_Tx_Hash H) (y_BodyTxs (y_Body b)),
      [py_Txs_Hash H (y_CrossShardTxs (y_CrossShardBody b)), HashFromByteSlices H (y_CrossShardDatas (y_CrossShardBody b))],
      map (py_Tx_Hash H) (y_CrossShardTxs (y_CrossShardBody b)), y_CrossShardDatas (y_CrossShardBody b),
      [HashFromByteSlices H (RelatedCommitStatus (y_Relation b)), HashFromByteSlices H (RelatedHash (y_Relation b)), MyCommitStatus (y_Relation b)],
      RelatedCommitStatus (y_Relation b), RelatedHash (y_Relation b)]"

definition py_hash_inputs :: "(timestamp \<Rightarrow> bytes option) \<Rightarrow> hash_fn \<Rightarrow> py_Block \<Rightarrow> bytes set" where
  "py_hash_inputs enc H b = \<Union> (tree_inputs H ` set (py_hashed_lists enc H b))
     \<union> set (y_BodyTxs (y_Body b)) \<union> set (y_CrossShardTxs (y_CrossShardBody b))"

lemma py_unfilled_hash:
  assumes "py_unfilled b" "enc (yh_Time (y_Header b)) = Some pbt"
  shows "snd (py_Block_Hash enc H b) = HashFromByteSlices H (hd (py_hashed_lists enc H b))"
  using assms by (simp add: py_Block_Hash_def Let_def py_fillHeader_def py_unfilled_def py_Header_Hash_def py_hashed_lists_def)

lemma py_hash_binds_lists:
  assumes len: "\<And>x. length (H x) = hash_size" and inj: "inj_on H (py_hash_inputs enc H a \<union> py_hash_inputs enc H b)"
    and "xs \<in> set (py_hashed_lists enc H a)" "ys \<in> set (py_hashed_lists enc H b)" "HashFromByteSlices H xs = HashFromByteSlices H ys"
  shows "xs = ys"
proof (rule root_inj [of H, OF len assms(5)])
  show "inj_on H (tree_inputs H xs \<union> tree_inputs H ys)"
    by (rule inj_on_subset [OF inj]) (use assms(3,4) in \<open>auto simp: py_hash_inputs_def\<close>)
qed

lemma map_inj_eq: "map f xs = map f ys \<Longrightarrow> inj_on f (set xs \<union> set ys) \<Longrightarrow> xs = ys"
  by (metis inj_on_map_eq_map)

lemma word_of_int_inj:
  fixes x y :: int
  assumes "(word_of_int x :: 'a::len word) = word_of_int y" "- (2 ^ (LENGTH('a) - 1)) \<le> x" "x < 2 ^ (LENGTH('a) - 1)"
    "- (2 ^ (LENGTH('a) - 1)) \<le> y" "y < 2 ^ (LENGTH('a) - 1)"
  shows "x = y"
proof -
  have "sint (word_of_int z :: 'a word) = z" if "- (2 ^ (LENGTH('a) - 1)) \<le> z" "z < 2 ^ (LENGTH('a) - 1)" for z
  proof -
    have "(2::int) ^ LENGTH('a) = 2 * 2 ^ (LENGTH('a) - 1)" by (metis len_gt_0 power_eq_if less_not_refl2)
    then have "(z + 2 ^ (LENGTH('a) - 1)) mod 2 ^ LENGTH('a) = z + 2 ^ (LENGTH('a) - 1)" using that by (intro mod_pos_pos_trivial) linarith+
    then show ?thesis by (simp only: int_word_sint)
  qed
  then show ?thesis using assms by metis
qed

lemma put_le_inj: "put_le 8 v = put_le 8 w \<Longrightarrow> v = w" for v w :: "64 word"
proof -
  assume eq: "put_le 8 v = put_le 8 w"
  have "get_le 8 (put_le 8 v) = Some v" "get_le 8 (put_le 8 w) = Some w" by (rule get_put_le_exact, simp)+
  then show "v = w" unfolding eq by simp
qed

definition py_ranges :: "py_Block \<Rightarrow> bool" where
  "py_ranges b \<longleftrightarrow> - 128 \<le> yh_BlockType (y_Header b) \<and> yh_BlockType (y_Header b) < 128
     \<and> - (2 ^ 63) \<le> yh_Height (y_Header b) \<and> yh_Height (y_Header b) < 2 ^ 63"

section \<open>A concrete block\<close>

definition py_sample_table :: "bytes list" where
  "py_sample_table =
  [[7],
   [0] @ digest 0,
   [],
   [0] @ digest 2,
   [1] @ digest 3 @ digest 3,
   [0],
   [1] @ digest 4 @ digest 5,
   [0, 3],
   [1] @ digest 7 @ digest 5,
   [0, 97],
   [0, 1, 0, 0, 0, 0, 0, 0, 0],
   [1] @ digest 9 @ digest 10,
   [1] @ digest 8 @ digest 11,
   [0, 9],
   [0] @ digest 1,
   [1] @ digest 13 @ digest 14,
   [0] @ digest 4,
   [1] @ digest 16 @ digest 5,
   [1] @ digest 15 @ digest 17,
   [1] @ digest 12 @ digest 18,
   [0] @ digest 6,
   [1] @ digest 20 @ digest 5,
   [1] @ digest 19 @ digest 21,
   [0, 1, 2],
   [1] @ digest 23 @ digest 7]"

definition py_sample_hash :: hash_fn where
  "py_sample_hash = table_hash py_sample_table"

definition py_sample_time :: "timestamp \<Rightarrow> bytes option" where
  "py_sample_time t = Some [9]"

definition py_sample :: py_Block where
  "py_sample = \<lparr>y_Header = \<lparr>yh_BlockType = 3, yh_HashPointer = [], yh_ChainID = ''a'', yh_Height = 1, yh_Time = (0, 0),
       yh_BodyRoot = [], yh_CrossShardBodyRoot = [], yh_StateRoot = [], yh_ReceiptRoot = [], yh_RelationRoot = []\<rparr>,
     y_Body = \<lparr>y_BodyTxs = [[7]]\<rparr>, y_CrossShardBody = \<lparr>y_CrossShardTxs = [], y_CrossShardDatas = []\<rparr>,
     y_Relation = \<lparr>RelatedCommitStatus = [], RelatedHash = [], MyCommitStatus = []\<rparr>, y_blockhash = []\<rparr>"

lemma py_sample_hash_length: "length (py_sample_hash x) = hash_size"
  by (simp add: py_sample_hash_def table_hash_length)

lemma py_sample_inj: "A \<subseteq> set py_sample_table \<Longrightarrow> inj_on py_sample_hash A"
  unfolding py_sample_hash_def by (rule inj_on_subset [OF table_hash_inj]) (simp_all add: py_sample_table_def)

lemma py_sample_inputs: "py_hash_inputs py_sample_time py_sample_hash py_sample \<subseteq> set py_sample_table"
  by code_simp

lemma py_sample_digest: "snd (py_Block_Hash py_sample_time py_sample_hash py_sample) = digest 22"
  by code_simp

text \<open>The same block with another receipt root.\<close>

definition py_sample_receipt :: py_Block where
  "py_sample_receipt = py_sample\<lparr>y_Header := (y_Header py_sample)\<lparr>yh_ReceiptRoot := [5]\<rparr>\<rparr>"

section \<open>Properties\<close>

text \<open>
  C26: for blocks whose roots are not filled in yet, a collision-free hash binds the bodies, the
  cross-shard data, the relation and every header field but the receipt root: two such blocks
  with the same hash agree on them.
\<close>

theorem block_hash_binds:
  assumes len: "\<And>x. length (H x) = hash_size" and inj: "inj_on H (py_hash_inputs enc H a \<union> py_hash_inputs enc H b)"
    and un: "py_unfilled a" "py_unfilled b" and rng: "py_ranges a" "py_ranges b"
    and t: "enc (yh_Time (y_Header a)) = Some ta" "enc (yh_Time (y_Header b)) = Some tb"
    and eq: "snd (py_Block_Hash enc H a) = snd (py_Block_Hash enc H b)"
  shows "y_Body a = y_Body b \<and> y_CrossShardBody a = y_CrossShardBody b \<and> y_Relation a = y_Relation b \<and> ta = tb
     \<and> yh_BlockType (y_Header a) = yh_BlockType (y_Header b) \<and> yh_HashPointer (y_Header a) = yh_HashPointer (y_Header b)
     \<and> yh_ChainID (y_Header a) = yh_ChainID (y_Header b) \<and> yh_Height (y_Header a) = yh_Height (y_Header b)
     \<and> yh_StateRoot (y_Header a) = yh_StateRoot (y_Header b)"
proof -
  note bind = py_hash_binds_lists [of H, OF len inj]
  note fill = py_fillHeader_def py_unfilled_def Let_def
  have items: "hd (py_hashed_lists enc H a) = hd (py_hashed_lists enc H b)"
    by (rule bind) (use eq un t in \<open>simp_all add: py_unfilled_hash, simp_all add: py_hashed_lists_def\<close>)
  have hdr: "py_Body_Hash H (y_Body a) = py_Body_Hash H (y_Body b)" "py_Relation_Hash H (y_Relation a) = py_Relation_Hash H (y_Relation b)"
    "py_CrossShardBody_Hash H (y_CrossShardBody a) = py_CrossShardBody_Hash H (y_CrossShardBody b)" "ta = tb"
    "(word_of_int (yh_BlockType (y_Header a)) :: 8 word) = word_of_int (yh_BlockType (y_Header b))"
    "put_le 8 (word_of_int (yh_Height (y_Header a)) :: 64 word) = put_le 8 (word_of_int (yh_Height (y_Header b)) :: 64 word)"
    "yh_HashPointer (y_Header a) = yh_HashPointer (y_Header b)" "yh_ChainID (y_Header a) = yh_ChainID (y_Header b)"
    "yh_StateRoot (y_Header a) = yh_StateRoot (y_Header b)"
    using items un t by (simp_all add: py_hashed_lists_def py_Header_items_def fill)
  have txs: "xs = ys" if "map (py_Tx_Hash H) xs = map (py_Tx_Hash H) ys" "set xs \<subseteq> py_hash_inputs enc H a" "set ys \<subseteq> py_hash_inputs enc H b" for xs ys
    by (rule map_inj_eq [OF that(1)], rule inj_on_subset) (use inj that(2,3) in \<open>auto simp: py_Tx_Hash_def [abs_def]\<close>)
  have body: "map (py_Tx_Hash H) (y_BodyTxs (y_Body a)) = map (py_Tx_Hash H) (y_BodyTxs (y_Body b))"
    by (rule bind) (use hdr(1) in \<open>simp_all add: py_hashed_lists_def py_Body_Hash_def py_Txs_Hash_def\<close>)
  have cs: "[py_Txs_Hash H (y_CrossShardTxs (y_CrossShardBody a)), HashFromByteSlices H (y_CrossShardDatas (y_CrossShardBody a))]
      = [py_Txs_Hash H (y_CrossShardTxs (y_CrossShardBody b)), HashFromByteSlices H (y_CrossShardDatas (y_CrossShardBody b))]"
    by (rule bind) (use hdr(3) in \<open>simp_all add: py_hashed_lists_def py_CrossShardBody_Hash_def\<close>)
  have cst: "map (py_Tx_Hash H) (y_CrossShardTxs (y_CrossShardBody a)) = map (py_Tx_Hash H) (y_CrossShardTxs (y_CrossShardBody b))"
    by (rule bind) (use cs in \<open>simp_all add: py_hashed_lists_def py_Txs_Hash_def\<close>)
  have csd: "y_CrossShardDatas (y_CrossShardBody a) = y_CrossShardDatas (y_CrossShardBody b)"
    by (rule bind) (use cs in \<open>simp_all add: py_hashed_lists_def\<close>)
  have rel: "[HashFromByteSlices H (RelatedCommitStatus (y_Relation a)), HashFromByteSlices H (RelatedHash (y_Relation a)), MyCommitStatus (y_Relation a)]
      = [HashFromByteSlices H (RelatedCommitStatus (y_Relation b)), HashFromByteSlices H (RelatedHash (y_Relation b)), MyCommitStatus (y_Relation b)]"
    by (rule bind) (use hdr(2) in \<open>simp_all add: py_hashed_lists_def py_Relation_Hash_def\<close>)
  have rs: "RelatedCommitStatus (y_Relation a) = RelatedCommitStatus (y_Relation b)"
    by (rule bind) (use rel in \<open>simp_all add: py_hashed_lists_def\<close>)
  have rh: "RelatedHash (y_Relation a) = RelatedHash (y_Relation b)"
    by (rule bind) (use rel in \<open>simp_all add: py_hashed_lists_def\<close>)
  have "y_BodyTxs (y_Body a) = y_BodyTxs (y_Body b)" "y_CrossShardTxs (y_CrossShardBody a) = y_CrossShardTxs (y_CrossShardBody b)"
    by (rule txs [OF body] txs [OF cst]; auto simp: py_hash_inputs_def)+
  moreover have "yh_BlockType (y_Header a) = yh_BlockType (y_Header b)" "yh_Height (y_Header a) = yh_Height (y_Header b)"
    using word_of_int_inj [OF hdr(5)] word_of_int_inj [OF put_le_inj [OF hdr(6)]] rng by (simp_all add: py_ranges_def)
  ultimately show ?thesis using hdr csd rs rh rel by simp
qed

theorem block_hash_binds_witness:
  "snd (py_Block_Hash py_sample_time py_sample_hash py_sample) = snd (py_Block_Hash py_sample_time py_sample_hash py_sample_receipt)
   \<and> y_Body py_sample = y_Body py_sample_receipt"
proof -
  have e: "snd (py_Block_Hash py_sample_time py_sample_hash py_sample) = snd (py_Block_Hash py_sample_time py_sample_hash py_sample_receipt)"
    by code_simp
  have "py_hash_inputs py_sample_time py_sample_hash py_sample_receipt \<subseteq> set py_sample_table" by code_simp
  then have i: "inj_on py_sample_hash (py_hash_inputs py_sample_time py_sample_hash py_sample \<union> py_hash_inputs py_sample_time py_sample_hash py_sample_receipt)"
    using py_sample_inputs by (intro py_sample_inj) blast
  have u: "py_unfilled py_sample" "py_unfilled py_sample_receipt" "py_ranges py_sample" "py_ranges py_sample_receipt"
    by (simp_all add: py_unfilled_def py_ranges_def py_sample_def py_sample_receipt_def hash_size_def)
  from block_hash_binds [OF py_sample_hash_length i u _ _ e, of "[9]" "[9]"] e show ?thesis by (simp add: py_sample_time_def)
qed

text \<open>
  C40: filling in the header of a block without a relation root overwrites the receipt root: the
  hash of the block does not depend on the receipts its proposer announced.
\<close>

theorem receipt_root_lost:
  assumes "length (yh_RelationRoot (y_Header b)) \<noteq> hash_size"
  shows "py_Block_Hash enc H (b\<lparr>y_Header := (y_Header b)\<lparr>yh_ReceiptRoot := r\<rparr>\<rparr>) = py_Block_Hash enc H b
     \<and> yh_ReceiptRoot (y_Header (fst (py_Block_Hash enc H b))) = py_Relation_Hash H (y_Relation b)
     \<and> yh_RelationRoot (y_Header (fst (py_Block_Hash enc H b))) = yh_RelationRoot (y_Header b)"
  using assms by (simp add: py_Block_Hash_def py_fillHeader_def Let_def)

theorem receipt_root_lost_witness:
  "py_Block_Hash py_sample_time py_sample_hash py_sample_receipt = py_Block_Hash py_sample_time py_sample_hash py_sample"
  using receipt_root_lost [of py_sample py_sample_time py_sample_hash "[5]"]
  by (simp add: py_sample_receipt_def) (simp add: py_sample_def hash_size_def)

end
