(* ===== verification/Pyramid_Votes.thy ===== *)
theory Pyramid_Votes
  imports Pyramid_Block
begin

text \<open>
  Voting in the pyramid protocol, \<open>src/source/pyramid/consensus/constypes\<close>: proposals, prevotes,
  precommits and aggregated precommits (\<open>vote.go\<close>) and the set that counts the votes of a round
  (\<open>vote_set.go\<close>). The methods of the Go
  interface \<open>Vote\<close> are a record of functions. The lemmas show that a vote set counts the first
  vote of every validator at its weight, that two sets with different majorities expose more than
  a third of the weight as double voters, and that the certificate of a majority verifies.
\<close>

section \<open>Votes\<close>

definition VoteTypeProposal :: uint32 where "VoteTypeProposal = 1"
definition VoteTypePrevote :: uint32 where "VoteTypePrevote = 2"
definition VoteTypePrecommit :: uint32 where "VoteTypePrecommit = 3"
definition VoteTypePrecommitAggregated :: uint32 where "VoteTypePrecommitAggregated = 4"

lemmas vote_types = VoteTypeProposal_def VoteTypePrevote_def VoteTypePrecommit_def VoteTypePrecommitAggregated_def

datatype py_vote_error =
    WrongVoteType | NegativeProposer | NotAHash | NilBitVector | VoteHeader py_header_error | AmbiguousVotes

subsection \<open>Proposals\<close>

record py_Proposal =
  yo_VoteType :: uint32
  yo_Header :: py_PartSetHeader
  yo_ProposerIndex :: int
  yo_BlockHeaderHash :: bytes
  yo_Signature :: string

definition py_NewProposal :: "py_PartSetHeader \<Rightarrow> int \<Rightarrow> bytes \<Rightarrow> py_Proposal" where
  "py_NewProposal header proposer_index blockHeaderHash = \<lparr>yo_VoteType = VoteTypeProposal, yo_Header = header,
     yo_ProposerIndex = proposer_index, yo_BlockHeaderHash = blockHeaderHash, yo_Signature = []\<rparr>"

record pb_py_Proposal =
  pbo_VoteType :: uint32
  pbo_Header :: "pb_py_PartSetHeader option"
  pbo_ProposerIndex :: "32 word"
  pbo_BlockHeaderHash :: bytes
  pbo_Signature :: string

definition py_Proposal_ToProto :: "py_Proposal \<Rightarrow> pb_py_Proposal" where
  "py_Proposal_ToProto p = \<lparr>pbo_VoteType = yo_VoteType p, pbo_Header = Some (py_PartSetHeader_ToProto (yo_Header p)),
     pbo_ProposerIndex = word_of_int (yo_ProposerIndex p), pbo_BlockHeaderHash = yo_BlockHeaderHash p, pbo_Signature = yo_Signature p\<rparr>"

definition py_Proposal_SignBytes :: "(pb_py_Proposal \<Rightarrow> bytes) \<Rightarrow> py_Proposal \<Rightarrow> bytes" where
  "py_Proposal_SignBytes marshal p = marshal \<lparr>pbo_VoteType = yo_VoteType p, pbo_Header = Some (py_PartSetHeader_ToProto (yo_Header p)),
     pbo_ProposerIndex = word_of_int (yo_ProposerIndex p), pbo_BlockHeaderHash = yo_BlockHeaderHash p, pbo_Signature = []\<rparr>"

text \<open>A message without header panics.\<close>

definition py_NewProposalFromProto :: "pb_py_Proposal \<Rightarrow> py_Proposal option" where
  "py_NewProposalFromProto p = map_option (\<lambda>h. \<lparr>yo_VoteType = pbo_VoteType p, yo_Header = h,
     yo_ProposerIndex = sint (pbo_ProposerIndex p), yo_BlockHeaderHash = pbo_BlockHeaderHash p,
     yo_Signature = pbo_Signature p\<rparr>) (py_NewPartSetHeaderFromProto (pbo_Header p))"

definition py_Proposal_ValidateBasic :: "py_Proposal \<Rightarrow> py_vote_error + unit" where
  "py_Proposal_ValidateBasic p =
     (if yo_VoteType p \<noteq> VoteTypeProposal then Inl WrongVoteType
      else if yo_ProposerIndex p < 0 then Inl NegativeProposer
      else if length (yo_BlockHeaderHash p) \<noteq> hash_size then Inl NotAHash
      else map_sum VoteHeader id (py_PartSetHeader_ValidateBasic (yo_Header p)))"

subsection \<open>Prevotes and precommits\<close>

record py_Prevote =
  yv_VoteType :: uint32
  yv_Code :: int
  yv_Height :: int
  yv_Round :: int
  yv_BlockHeaderHash :: bytes
  yv_Signature :: string
  yv_ValidatorIndex :: int

definition py_Prevote_IsOK :: "py_Prevote \<Rightarrow> bool" where
  "py_Prevote_IsOK p \<longleftrightarrow> yv_Code p = py_CodeTypeOK"

definition py_Prevote_SetOK :: "py_Prevote \<Rightarrow> bool \<Rightarrow> py_Prevote" where
  "py_Prevote_SetOK p ok = p\<lparr>yv_Code := (if ok then py_CodeTypeOK else py_CodeTypeAbort)\<rparr>"

definition py_Prevote_ValidateBasic :: "py_Prevote \<Rightarrow> py_vote_error + unit" where
  "py_Prevote_ValidateBasic p =
     (if yv_VoteType p \<noteq> VoteTypePrevote then Inl WrongVoteType
      else if length (yv_BlockHeaderHash p) \<noteq> hash_size then Inl NotAHash
      else Inr ())"

definition py_NewPrevote :: "int \<Rightarrow> int \<Rightarrow> bytes \<Rightarrow> int \<Rightarrow> py_Prevote" where
  "py_NewPrevote height round blockHeaderHash validatorIndex = \<lparr>yv_VoteType = VoteTypePrevote, yv_Code = py_CodeTypeOK,
     yv_Height = height, yv_Round = round, yv_BlockHeaderHash = blockHeaderHash, yv_Signature = [], yv_ValidatorIndex = validatorIndex\<rparr>"

record pb_py_Prevote =
  pbv_Code :: "32 word"
  pbv_VoteType :: uint32
  pbv_Height :: int
  pbv_Round :: "32 word"
  pbv_BlockHeaderHash :: bytes
  pbv_Signature :: string
  pbv_ValidatorIndex :: "32 word"

definition py_Prevote_ToProto :: "py_Prevote \<Rightarrow> pb_py_Prevote" where
  "py_Prevote_ToProto p = \<lparr>pbv_Code = word_of_int (yv_Code p), pbv_VoteType = yv_VoteType p, pbv_Height = yv_Height p,
     pbv_Round = word_of_int (yv_Round p), pbv_BlockHeaderHash = yv_BlockHeaderHash p, pbv_Signature = yv_Signature p,
     pbv_ValidatorIndex = word_of_int (yv_ValidatorIndex p)\<rparr>"

definition py_Prevote_SignBytes :: "(pb_py_Prevote \<Rightarrow> bytes) \<Rightarrow> py_Prevote \<Rightarrow> bytes" where
  "py_Prevote_SignBytes marshal p = marshal \<lparr>pbv_Code = word_of_int (yv_Code p), pbv_VoteType = yv_VoteType p, pbv_Height = yv_Height p,
     pbv_Round = word_of_int (yv_Round p), pbv_BlockHeaderHash = yv_BlockHeaderHash p, pbv_Signature = [],
     pbv_ValidatorIndex = word_of_int (-1)\<rparr>"

text \<open>\<open>int8(p.Code)\<close> keeps the low byte.\<close>

definition py_NewPrevoteFromProto :: "pb_py_Prevote \<Rightarrow> py_Prevote" where
  "py_NewPrevoteFromProto p = \<lparr>yv_VoteType = pbv_VoteType p, yv_Code = sint (ucast (pbv_Code p) :: 8 word), yv_Height = pbv_Height p,
     yv_Round = sint (pbv_Round p), yv_BlockHeaderHash = pbv_BlockHeaderHash p, yv_Signature = pbv_Signature p,
     yv_ValidatorIndex = sint (pbv_ValidatorIndex p)\<rparr>"

record py_Precommit =
  yk_VoteType :: uint32
  yk_Code :: int
  yk_Height :: int
  yk_Round :: int
  yk_BlockHeaderHash :: bytes
  yk_Signature :: string
  yk_ValidatorIndex :: int

definition py_Precommit_IsOK :: "py_Precommit \<Rightarrow> bool" where
  "py_Precommit_IsOK p \<longleftrightarrow> yk_Code p = py_CodeTypeOK"

definition py_Precommit_SetOK :: "py_Precommit \<Rightarrow> bool \<Rightarrow> py_Precommit" where
  "py_Precommit_SetOK p ok = p\<lparr>yk_Code := (if ok then py_CodeTypeOK else py_CodeTypeAbort)\<rparr>"

definition py_Precommit_ValidateBasic :: "py_Precommit \<Rightarrow> py_vote_error + unit" where
  "py_Precommit_ValidateBasic p =
     (if yk_VoteType p \<noteq> VoteTypePrecommit then Inl WrongVoteType
      else if length (yk_BlockHeaderHash p) \<noteq> hash_size then Inl NotAHash
      else Inr ())"

definition py_NewPrecommit :: "int \<Rightarrow> int \<Rightarrow> bytes \<Rightarrow> int \<Rightarrow> py_Precommit" where
  "py_NewPrecommit height round blockHeaderHash validatorIndex = \<lparr>yk_VoteType = VoteTypePrecommit, yk_Code = py_CodeTypeOK,
     yk_Height = height, yk_Round = round, yk_BlockHeaderHash = blockHeaderHash, yk_Signature = [], yk_ValidatorIndex = validatorIndex\<rparr>"

record pb_py_Precommit =
  pbk_Code :: "32 word"
  pbk_VoteType :: uint32
  pbk_Height :: int
  pbk_Round :: "32 word"
  pbk_BlockHeaderHash :: bytes
  pbk_Signature :: string
  pbk_ValidatorIndex :: "32 word"

definition py_Precommit_ToProto :: "py_Precommit \<Rightarrow> pb_py_Precommit" where
  "py_Precommit_ToProto p = \<lparr>pbk_Code = word_of_int (yk_Code p), pbk_VoteType = yk_VoteType p, pbk_Height = yk_Height p,
     pbk_Round = word_of_int (yk_Round p), pbk_BlockHeaderHash = yk_BlockHeaderHash p, pbk_Signature = yk_Signature p,
     pbk_ValidatorIndex = word_of_int (yk_ValidatorIndex p)\<rparr>"

definition py_Precommit_SignBytes :: "(pb_py_Precommit \<Rightarrow> bytes) \<Rightarrow> py_Precommit \<Rightarrow> bytes" where
  "py_Precommit_SignBytes marshal p = marshal \<lparr>pbk_Code = word_of_int (yk_Code p), pbk_VoteType = yk_VoteType p, pbk_Height = yk_Height p,
     pbk_Round = word_of_int (yk_Round p), pbk_BlockHeaderHash = yk_BlockHeaderHash p, pbk_Signature = [],
     pbk_ValidatorIndex = word_of_int (-1)\<rparr>"

definition py_NewPrecommitFromProto :: "pb_py_Precommit \<Rightarrow> py_Precommit" where
  "py_NewPrecommitFromProto p = \<lparr>yk_VoteType = pbk_VoteType p, yk_Code = sint (ucast (pbk_Code p) :: 8 word), yk_Height = pbk_Height p,
     yk_Round = sint (pbk_Round p), yk_BlockHeaderHash = pbk_BlockHeaderHash p, yk_Signature = pbk_Signature p,
     yk_ValidatorIndex = sint (pbk_ValidatorIndex p)\<rparr>"

subsection \<open>Aggregated precommits\<close>

record py_PrecommitAggregated =
  ya_VoteType :: uint32
  ya_Code :: int
  ya_ValidatorBitVector :: "BitVector option"
  ya_Header :: py_PartSetHeader
  ya_BlockHeaderHash :: bytes
  ya_AggregatedSignatures :: string

definition py_PrecommitAggregated_ValidateBasic :: "py_PrecommitAggregated \<Rightarrow> py_vote_error + unit" where
  "py_PrecommitAggregated_ValidateBasic p =
     (if ya_VoteType p \<noteq> VoteTypePrecommitAggregated then Inl WrongVoteType
      else if ya_ValidatorBitVector p = None then Inl NilBitVector
      else (case py_PartSetHeader_ValidateBasic (ya_Header p) of
          Inl e \<Rightarrow> Inl (VoteHeader e)
        | Inr _ \<Rightarrow> if length (ya_BlockHeaderHash p) \<noteq> hash_size then Inl NotAHash else Inr ()))"

text \<open>Decoding the signer map may panic.\<close>

definition py_NewPrecommitAggregated :: "bytes \<Rightarrow> py_PartSetHeader \<Rightarrow> bytes \<Rightarrow> string \<Rightarrow> py_PrecommitAggregated option" where
  "py_NewPrecommitAggregated validatorBitVector header blockHeaderHash aggregatedSignatures = map_option (\<lambda>bv.
     \<lparr>ya_VoteType = VoteTypePrecommitAggregated, ya_Code = py_CodeTypeOK, ya_ValidatorBitVector = bv, ya_Header = header,
      ya_BlockHeaderHash = blockHeaderHash, ya_AggregatedSignatures = aggregatedSignatures\<rparr>) (NewBitArrayFromByte validatorBitVector)"

definition py_PrecommitAggregated_IsOK :: "py_PrecommitAggregated \<Rightarrow> bool" where
  "py_PrecommitAggregated_IsOK p \<longleftrightarrow> ya_Code p = py_CodeTypeOK"

record pb_py_PrecommitAggregated =
  pba_VoteType :: uint32
  pba_Code :: "32 word"
  pba_ValidatorBitVector :: bytes
  pba_Header :: "pb_py_PartSetHeader option"
  pba_BlockHeaderHash :: bytes
  pba_AggregatedSignatures :: string

definition py_PrecommitAggregated_ToProto :: "py_PrecommitAggregated \<Rightarrow> pb_py_PrecommitAggregated" where
  "py_PrecommitAggregated_ToProto p = \<lparr>pba_VoteType = ya_VoteType p, pba_Code = word_of_int (ya_Code p),
     pba_ValidatorBitVector = Byte (ya_ValidatorBitVector p), pba_Header = Some (py_PartSetHeader_ToProto (ya_Header p)),
     pba_BlockHeaderHash = ya_BlockHeaderHash p, pba_AggregatedSignatures = ya_AggregatedSignatures p\<rparr>"

definition py_NewPrecommitAggregatedFromProto :: "pb_py_PrecommitAggregated option \<Rightarrow> py_PrecommitAggregated option" where
  "py_NewPrecommitAggregatedFromProto m = do {
     p \<leftarrow> m;
     bv \<leftarrow> NewBitArrayFromByte (pba_ValidatorBitVector p);
     h \<leftarrow> py_NewPartSetHeaderFromProto (pba_Header p);
     Some \<lparr>ya_VoteType = pba_VoteType p, ya_Code = sint (ucast (pba_Code p) :: 8 word), ya_ValidatorBitVector = bv, ya_Header = h,
       ya_BlockHeaderHash = pba_BlockHeaderHash p, ya_AggregatedSignatures = pba_AggregatedSignatures p\<rparr> }"

definition py_PrecommitAggregated_Precommit :: "py_PrecommitAggregated \<Rightarrow> py_Precommit" where
  "py_PrecommitAggregated_Precommit p = (py_NewPrecommit (ysh_Height (ya_Header p)) (ysh_Round (ya_Header p)) (ya_BlockHeaderHash p) (-1))
     \<lparr>yk_Code := ya_Code p\<rparr>"

text \<open>A nil verifier gives false.\<close>

definition py_VerifySignatures :: "('pk, 'sg) bls_lib \<Rightarrow> (pb_py_Precommit \<Rightarrow> bytes) \<Rightarrow> py_PrecommitAggregated \<Rightarrow> 'pk Verifier option \<Rightarrow>
    bytes \<Rightarrow> bool option" where
  "py_VerifySignatures b marshal p verifier bitVectorBytes = (case verifier of
      None \<Rightarrow> Some False
    | Some v \<Rightarrow> VerifyAggregateSignature b v (ya_AggregatedSignatures p)
        (py_Precommit_SignBytes marshal (py_PrecommitAggregated_Precommit p)) bitVectorBytes)"

definition py_PrecommitAggregated_SetCode :: "py_PrecommitAggregated \<Rightarrow> bool \<Rightarrow> py_PrecommitAggregated" where
  "py_PrecommitAggregated_SetCode p ok = p\<lparr>ya_Code := (if ok then py_CodeTypeOK else py_CodeTypeAbort)\<rparr>"

section \<open>Vote sets\<close>

text \<open>The interface \<open>Vote\<close>: its method table.\<close>

record 'v vote_ops =
  GetBlockHeaderHash :: "'v \<Rightarrow> bytes"
  GetVoteIndex :: "'v \<Rightarrow> int"
  IsOK :: "'v \<Rightarrow> bool"
  GetSignature :: "'v \<Rightarrow> string"

definition prevote_ops :: "py_Prevote vote_ops" where
  "prevote_ops = \<lparr>GetBlockHeaderHash = yv_BlockHeaderHash, GetVoteIndex = yv_ValidatorIndex, IsOK = py_Prevote_IsOK, GetSignature = yv_Signature\<rparr>"

definition precommit_ops :: "py_Precommit vote_ops" where
  "precommit_ops = \<lparr>GetBlockHeaderHash = yk_BlockHeaderHash, GetVoteIndex = yk_ValidatorIndex, IsOK = py_Precommit_IsOK, GetSignature = yk_Signature\<rparr>"

record 'v VoteSet =
  validatorNum :: int
  totalVotes :: int
  votes :: "'v option list"
  blockHeaderHashCnt :: "(string \<times> int list) list"
  vs_bitVector :: "BitVector option"
  has_mj23 :: bool
  mj23_key :: string
  mj23_code :: bool

text \<open>The sums are of type \<open>int32\<close>.\<close>

definition wrap32 :: "int \<Rightarrow> int" where
  "wrap32 x = sint (word_of_int x :: 32 word)"

text \<open>Allocating a slice of negative length panics.\<close>

definition NewVoteSet :: "int \<Rightarrow> int \<Rightarrow> 'v VoteSet option" where
  "NewVoteSet n tot = (if n < 0 then None
     else Some \<lparr>validatorNum = n, totalVotes = tot, votes = replicate (nat n) None, blockHeaderHashCnt = [],
       vs_bitVector = NewBitVector n, has_mj23 = False, mj23_key = [], mj23_code = False\<rparr>)"

definition voteIndex :: "'v vote_ops \<Rightarrow> 'v \<Rightarrow> nat" where
  "voteIndex ops vote = (if IsOK ops vote then 0 else 1)"

text \<open>The counts of a hash, and the map after a vote was counted. A count has two entries.\<close>

definition count_vote :: "'v vote_ops \<Rightarrow> (string \<times> int list) list \<Rightarrow> 'v \<Rightarrow> int \<Rightarrow> (string \<times> int list) list" where
  "count_vote ops cnt vote valVote =
     (let key = string_of_bytes (GetBlockHeaderHash ops vote); k = voteIndex ops vote
      in case map_of cnt key of
          None \<Rightarrow> AList.update key ([0, 0][k := wrap32 (0 + valVote)]) cnt
        | Some u \<Rightarrow> AList.update key (u[k := wrap32 (u ! k + valVote)]) cnt)"

definition py_AddVote :: "'v vote_ops \<Rightarrow> 'v VoteSet \<Rightarrow> 'v \<Rightarrow> int \<Rightarrow> (py_vote_error + 'v VoteSet) option" where
  "py_AddVote ops vs vote valVote = do {
     let key = string_of_bytes (GetBlockHeaderHash ops vote);
     seen \<leftarrow> GetIndex (vs_bitVector vs) (GetVoteIndex ops vote);
     if seen then do {
       slot \<leftarrow> index (votes vs) (GetVoteIndex ops vote);
       rawVote \<leftarrow> slot;
       if GetBlockHeaderHash ops vote = GetBlockHeaderHash ops rawVote \<or> IsOK ops vote \<noteq> IsOK ops rawVote
       then Some (Inl AmbiguousVotes) else Some (Inr vs) }
     else do {
       (bv, _) \<leftarrow> SetIndex (vs_bitVector vs) (GetVoteIndex ops vote) True;
       slot \<leftarrow> index (votes vs) (GetVoteIndex ops vote);
       let cnt = count_vote ops (blockHeaderHashCnt vs) vote valVote;
       let vs1 = vs\<lparr>vs_bitVector := bv, votes := (votes vs)[nat (GetVoteIndex ops vote) := Some vote], blockHeaderHashCnt := cnt\<rparr>;
       if has_mj23 vs1 then Some (Inr vs1)
       else do {
         u \<leftarrow> map_of cnt key;
         if u ! voteIndex ops vote > wrap32 (2 * totalVotes vs1) sdiv 3
         then Some (Inr (vs1\<lparr>has_mj23 := True, mj23_key := key, mj23_code := IsOK ops vote\<rparr>))
         else Some (Inr vs1) } } }"

definition HasMaj23 :: "'v VoteSet \<Rightarrow> bool" where
  "HasMaj23 vs = has_mj23 vs"

definition py_GetMaj23 :: "'v VoteSet \<Rightarrow> bytes \<times> bool" where
  "py_GetMaj23 vs = (bytes_of_string (mj23_key vs), mj23_code vs)"

text \<open>The loop over the validators: the signatures of the majority and their signer map.\<close>

fun agg_loop :: "'v vote_ops \<Rightarrow> 'v VoteSet \<Rightarrow> bytes \<Rightarrow> bool \<Rightarrow> nat \<Rightarrow> nat \<Rightarrow> string list \<Rightarrow> BitVector option \<Rightarrow>
    (string list \<times> BitVector option) option" where
  "agg_loop ops vs bz ok i 0 aggSigs bv = Some (aggSigs, bv)"
| "agg_loop ops vs bz ok i (Suc m) aggSigs bv = do {
     seen \<leftarrow> GetIndex (vs_bitVector vs) (int i);
     if seen then do {
       slot \<leftarrow> index (votes vs) (int i);
       vote \<leftarrow> slot;
       if IsOK ops vote = ok \<and> bz = GetBlockHeaderHash ops vote then do {
         (bv', _) \<leftarrow> SetIndex bv (int i) True;
         agg_loop ops vs bz ok (Suc i) m (aggSigs @ [GetSignature ops vote]) bv' }
       else agg_loop ops vs bz ok (Suc i) m aggSigs bv }
     else agg_loop ops vs bz ok (Suc i) m aggSigs bv }"

text \<open>A signature that does not parse panics.\<close>

definition GetMaj23AggreSig :: "('pk, 'sg) bls_lib \<Rightarrow> 'v vote_ops \<Rightarrow> 'v VoteSet \<Rightarrow> (string \<times> bytes) option" where
  "GetMaj23AggreSig b ops vs = do {
     let (bz, ok) = py_GetMaj23 vs;
     (aggSigs, bv) \<leftarrow> agg_loop ops vs bz ok 0 (nat (validatorNum vs)) [] (NewBitVector (validatorNum vs));
     aggSig \<leftarrow> AggregateSignatures b aggSigs;
     Some (aggSig, Byte bv) }"

section \<open>Weights\<close>

text \<open>The weight of the validators with a property.\<close>

definition weight :: "(nat \<Rightarrow> bool) \<Rightarrow> int list \<Rightarrow> int" where
  "weight P ws = (\<Sum>i<length ws. if P i then ws ! i else 0)"

definition good_weights :: "int list \<Rightarrow> bool" where
  "good_weights ws \<longleftrightarrow> list_all (\<lambda>w. 0 \<le> w) ws \<and> 2 * sum_list ws < 2 ^ 31"

lemma good_weights_nth: "good_weights ws \<Longrightarrow> i < length ws \<Longrightarrow> 0 \<le> ws ! i"
  by (simp add: good_weights_def list_all_length)

lemma weight_all: "weight (\<lambda>_. True) ws = sum_list ws"
  by (simp add: weight_def sum_list_sum_nth atLeast0LessThan)

lemma weight_none: "weight (\<lambda>_. False) ws = 0"
  by (simp add: weight_def)

lemma weight_mono: "good_weights ws \<Longrightarrow> (\<And>i. i < length ws \<Longrightarrow> P i \<Longrightarrow> Q i) \<Longrightarrow> weight P ws \<le> weight Q ws"
  unfolding weight_def by (rule sum_mono) (auto simp: good_weights_nth)

lemma weight_cong: "(\<And>i. i < length ws \<Longrightarrow> P i = Q i) \<Longrightarrow> weight P ws = weight Q ws"
  unfolding weight_def by (rule sum.cong) auto

lemma weight_nonneg: "good_weights ws \<Longrightarrow> 0 \<le> weight P ws"
  using weight_mono [of ws "\<lambda>_. False" P] by (simp add: weight_none)

lemma weight_bound: "good_weights ws \<Longrightarrow> weight P ws \<le> sum_list ws"
  using weight_mono [of ws P "\<lambda>_. True"] by (simp add: weight_all)

text \<open>Inclusion and exclusion: two groups that together outweigh everybody overlap.\<close>

lemma weight_overlap: "good_weights ws \<Longrightarrow> weight P ws + weight Q ws \<le> sum_list ws + weight (\<lambda>i. P i \<and> Q i) ws"
  unfolding weight_all [symmetric] unfolding weight_def sum.distrib [symmetric]
  by (rule sum_mono) (auto simp: good_weights_nth)

lemma weight_insert:
  assumes "i < length ws" "\<not> P i"
  shows "weight (\<lambda>j. if j = i then b else P j) ws = weight P ws + (if b then ws ! i else 0)"
proof -
  have "(\<Sum>j\<in>{..<length ws} - {i}. if (if j = i then b else P j) then ws ! j else 0)
      = (\<Sum>j\<in>{..<length ws} - {i}. if P j then ws ! j else 0)" by (rule sum.cong) auto
  then show ?thesis using assms by (simp add: weight_def sum.remove [of "{..<length ws}" i])
qed

lemma wrap32_small: "- (2 ^ 31) \<le> x \<Longrightarrow> x < 2 ^ 31 \<Longrightarrow> wrap32 x = x"
  by (simp add: wrap32_def int_word_sint)

section \<open>The votes that count\<close>

definition first_vote :: "'v vote_ops \<Rightarrow> 'v list \<Rightarrow> nat \<Rightarrow> 'v option" where
  "first_vote ops vts i = find (\<lambda>v. GetVoteIndex ops v = int i) vts"

definition voted :: "'v vote_ops \<Rightarrow> 'v list \<Rightarrow> bytes \<Rightarrow> bool \<Rightarrow> nat \<Rightarrow> bool" where
  "voted ops vts h c i = (case first_vote ops vts i of None \<Rightarrow> False | Some v \<Rightarrow> GetBlockHeaderHash ops v = h \<and> IsOK ops v = c)"

text \<open>A sequence of votes, each added with the weight of its validator; errors are reported and dropped.\<close>

fun add_all_votes :: "'v vote_ops \<Rightarrow> int list \<Rightarrow> 'v VoteSet \<Rightarrow> 'v list \<Rightarrow> 'v VoteSet option" where
  "add_all_votes ops ws vs [] = Some vs"
| "add_all_votes ops ws vs (v # vts) = (case py_AddVote ops vs v (ws ! nat (GetVoteIndex ops v)) of
      None \<Rightarrow> None
    | Some (Inl e) \<Rightarrow> add_all_votes ops ws vs vts
    | Some (Inr vs') \<Rightarrow> add_all_votes ops ws vs' vts)"

definition index_ok :: "'v vote_ops \<Rightarrow> int list \<Rightarrow> 'v \<Rightarrow> bool" where
  "index_ok ops ws v \<longleftrightarrow> 0 \<le> GetVoteIndex ops v \<and> GetVoteIndex ops v < int (length ws)"

definition counts_of :: "(string \<times> int list) list \<Rightarrow> string \<Rightarrow> int list" where
  "counts_of cnt key = (case map_of cnt key of None \<Rightarrow> [0, 0] | Some u \<Rightarrow> u)"

definition majority :: "'v vote_ops \<Rightarrow> int list \<Rightarrow> 'v list \<Rightarrow> bytes \<Rightarrow> bool \<Rightarrow> bool" where
  "majority ops ws vts h c \<longleftrightarrow> weight (voted ops vts h c) ws > (2 * sum_list ws) div 3"

definition vs_inv :: "'v vote_ops \<Rightarrow> int list \<Rightarrow> 'v list \<Rightarrow> 'v VoteSet \<Rightarrow> bool" where
  "vs_inv ops ws vts vs \<longleftrightarrow> validatorNum vs = int (length ws) \<and> totalVotes vs = sum_list ws
     \<and> votes vs = map (first_vote ops vts) [0..<length ws]
     \<and> (\<exists>bv. vs_bitVector vs = Some bv \<and> wf_bv bv \<and> Bits bv = int (length ws)
          \<and> (\<forall>i < length ws. bv_bit bv i \<longleftrightarrow> first_vote ops vts i \<noteq> None))
     \<and> (\<forall>h. counts_of (blockHeaderHashCnt vs) (string_of_bytes h) = [weight (voted ops vts h True) ws, weight (voted ops vts h False) ws])
     \<and> (has_mj23 vs \<longleftrightarrow> (\<exists>h c. majority ops ws vts h c))
     \<and> (has_mj23 vs \<longrightarrow> majority ops ws vts (bytes_of_string (mj23_key vs)) (mj23_code vs))"

lemma first_vote_snoc: "first_vote ops (vts @ [v]) i
    = (case first_vote ops vts i of None \<Rightarrow> if GetVoteIndex ops v = int i then Some v else None | Some w \<Rightarrow> Some w)"
  by (induction vts) (simp_all add: first_vote_def)

lemma first_vote_index: "first_vote ops vts i = Some v \<Longrightarrow> v \<in> set vts \<and> GetVoteIndex ops v = int i"
  by (auto simp: first_vote_def find_Some_iff)

lemma majority_unique:
  assumes "good_weights ws" "majority ops ws vts h c" "majority ops ws vts h' c'"
  shows "h = h' \<and> c = c'"
proof (rule ccontr)
  assume ne: "\<not> (h = h' \<and> c = c')"
  have "weight (\<lambda>i. voted ops vts h c i \<and> voted ops vts h' c' i) ws = weight (\<lambda>_. False) ws"
    by (rule weight_cong) (use ne in \<open>auto simp: voted_def split: option.splits\<close>)
  then have "weight (voted ops vts h c) ws + weight (voted ops vts h' c') ws \<le> sum_list ws"
    using weight_overlap [OF assms(1), of "voted ops vts h c" "voted ops vts h' c'"] by (simp add: weight_none)
  moreover have "0 \<le> sum_list ws" using weight_nonneg [OF assms(1), of "\<lambda>_. True"] by (simp add: weight_all)
  ultimately show False using assms(2,3) unfolding majority_def by linarith
qed

lemma vs_inv_new:
  assumes "NewVoteSet (int (length ws)) (sum_list ws) = Some vs" "good_weights ws"
  shows "vs_inv ops ws [] vs"
proof -
  have n: "NewBitVector (int (length ws)) = Some (bv_new (length ws))" by (simp add: bv_new_def NewBitVector_def)
  have z: "weight (voted ops [] h c) ws = 0" for h c
    using weight_cong [of ws "voted ops [] h c" "\<lambda>_. False"] by (simp add: voted_def first_vote_def weight_none)
  have "0 \<le> sum_list ws" using weight_nonneg [OF assms(2), of "\<lambda>_. True"] by (simp add: weight_all)
  then have "\<not> majority ops ws [] h c" for h c by (simp add: majority_def z)
  moreover have "Bits (bv_new (length ws)) = int (length ws)" by (simp add: bv_new_def NewBitVector_def)
  moreover have "map (first_vote ops []) [0..<length ws] = replicate (length ws) None"
    by (rule nth_equalityI) (simp_all add: first_vote_def)
  ultimately show ?thesis
    using assms(1) signers.inv_new [of "length ws"] signers.has_new [of "length ws"]
    by (auto simp: NewVoteSet_def vs_inv_def n z counts_of_def first_vote_def split: if_splits)
qed

lemma voted_snoc_new:
  assumes "first_vote ops vts i = None" "GetVoteIndex ops v = int i" "i < length ws"
  shows "weight (voted ops (vts @ [v]) h c) ws
     = weight (voted ops vts h c) ws + (if GetBlockHeaderHash ops v = h \<and> IsOK ops v = c then ws ! i else 0)"
proof -
  have "weight (voted ops (vts @ [v]) h c) ws
      = weight (\<lambda>j. if j = i then GetBlockHeaderHash ops v = h \<and> IsOK ops v = c else voted ops vts h c j) ws"
    by (rule weight_cong) (use assms in \<open>auto simp: voted_def first_vote_snoc split: option.split\<close>)
  also have "\<dots> = weight (voted ops vts h c) ws + (if GetBlockHeaderHash ops v = h \<and> IsOK ops v = c then ws ! i else 0)"
    by (rule weight_insert) (use assms in \<open>auto simp: voted_def\<close>)
  finally show ?thesis .
qed

lemma counts_count_vote:
  "counts_of (count_vote ops cnt v w) key = (if key = string_of_bytes (GetBlockHeaderHash ops v)
     then (counts_of cnt key)[voteIndex ops v := wrap32 (counts_of cnt key ! voteIndex ops v + w)] else counts_of cnt key)"
  by (auto simp: counts_of_def count_vote_def Let_def update_conv voteIndex_def split: option.split)

lemma count_vote_key: "map_of (count_vote ops cnt v w) (string_of_bytes (GetBlockHeaderHash ops v))
    = Some (counts_of (count_vote ops cnt v w) (string_of_bytes (GetBlockHeaderHash ops v)))"
  by (auto simp: counts_of_def count_vote_def Let_def update_conv split: option.split)

lemma string_of_bytes_eq [simp]: "string_of_bytes x = string_of_bytes y \<longleftrightarrow> x = y"
  by (metis bytes_of_string_of_bytes)

text \<open>A vote of a validator that has voted changes nothing.\<close>

lemma AddVote_again:
  assumes inv: "vs_inv ops ws vts vs" and i: "i < length ws" "GetVoteIndex ops v = int i" and w: "first_vote ops vts i = Some w"
  shows "\<exists>r. py_AddVote ops vs v x = Some r \<and> (\<exists>e. r = Inl e \<or> r = Inr vs) \<and> vs_inv ops ws (vts @ [v]) vs"
proof -
  obtain bv where bv: "vs_bitVector vs = Some bv" "wf_bv bv" "\<forall>i < length ws. bv_bit bv i \<longleftrightarrow> first_vote ops vts i \<noteq> None"
    using inv by (auto simp: vs_inv_def)
  have "GetIndex (vs_bitVector vs) (int i) = Some True" using bv i(1) w by (simp add: GetIndex_bit)
  moreover have "index (votes vs) (int i) = Some (Some w)" using inv i(1) w by (simp add: vs_inv_def index_def)
  moreover have "first_vote ops (vts @ [v]) j = first_vote ops vts j" for j
    using i(2) w by (auto simp: first_vote_snoc split: option.split)
  then have "first_vote ops (vts @ [v]) = first_vote ops vts" by (rule ext)
  then have "vs_inv ops ws (vts @ [v]) vs" using inv by (simp add: vs_inv_def voted_def [abs_def] majority_def)
  ultimately show ?thesis using i(2) by (auto simp: py_AddVote_def Let_def)
qed

lemma majority_threshold: "good_weights ws \<Longrightarrow> wrap32 (2 * sum_list ws) sdiv 3 = (2 * sum_list ws) div 3"
proof -
  assume good: "good_weights ws"
  have "0 \<le> sum_list ws" using weight_nonneg [OF good, of "\<lambda>_. True"] by (simp add: weight_all)
  then show ?thesis using good wrap32_small [of "2 * sum_list ws"] by (simp add: good_weights_def signed_divide_int_def sgn_if)
qed

lemma majority_snoc:
  assumes new: "first_vote ops vts i = None" "GetVoteIndex ops v = int i" "i < length ws" and good: "good_weights ws"
  shows "majority ops ws vts h c \<Longrightarrow> majority ops ws (vts @ [v]) h c"
    and "h \<noteq> GetBlockHeaderHash ops v \<or> c \<noteq> IsOK ops v \<Longrightarrow> majority ops ws (vts @ [v]) h c = majority ops ws vts h c"
proof -
  note w = voted_snoc_new [OF new, of h c]
  have "weight (voted ops vts h c) ws \<le> weight (voted ops (vts @ [v]) h c) ws" using w good_weights_nth [OF good new(3)] by simp
  then show "majority ops ws vts h c \<Longrightarrow> majority ops ws (vts @ [v]) h c" unfolding majority_def by linarith
  assume "h \<noteq> GetBlockHeaderHash ops v \<or> c \<noteq> IsOK ops v"
  then have "weight (voted ops (vts @ [v]) h c) ws = weight (voted ops vts h c) ws" using w by auto
  then show "majority ops ws (vts @ [v]) h c = majority ops ws vts h c" by (simp only: majority_def)
qed

lemma counts_snoc:
  assumes new: "first_vote ops vts i = None" "GetVoteIndex ops v = int i" "i < length ws" and good: "good_weights ws"
    and old: "\<And>h. counts_of cnt (string_of_bytes h) = [weight (voted ops vts h True) ws, weight (voted ops vts h False) ws]"
  shows "counts_of (count_vote ops cnt v (ws ! i)) (string_of_bytes h)
     = [weight (voted ops (vts @ [v]) h True) ws, weight (voted ops (vts @ [v]) h False) ws]"
proof -
  let ?W' = "\<lambda>c. weight (voted ops (vts @ [v]) h c) ws"
  have "- (2 ^ 31) \<le> ?W' c" "?W' c < 2 ^ 31" for c
    using weight_nonneg [OF good, of "voted ops (vts @ [v]) h c"] weight_bound [OF good, of "voted ops (vts @ [v]) h c"] good
    by (simp_all add: good_weights_def)
  from wrap32_small [OF this, of "IsOK ops v"] show ?thesis
    using voted_snoc_new [OF new, of h True] voted_snoc_new [OF new, of h False]
    by (cases "IsOK ops v") (auto simp: counts_count_vote old voteIndex_def)
qed

text \<open>The first vote of a validator is stored and counted, and may decide the majority.\<close>

lemma AddVote_new:
  assumes inv: "vs_inv ops ws vts vs" and good: "good_weights ws" and i: "i < length ws" "GetVoteIndex ops v = int i"
    and none: "first_vote ops vts i = None"
  shows "\<exists>vs'. py_AddVote ops vs v (ws ! i) = Some (Inr vs') \<and> vs_inv ops ws (vts @ [v]) vs'"
proof -
  note fresh = none i(2,1)
  let ?h = "GetBlockHeaderHash ops v" and ?c = "IsOK ops v"
  let ?cnt = "count_vote ops (blockHeaderHashCnt vs) v (ws ! i)"
  obtain bv where bv: "vs_bitVector vs = Some bv" "wf_bv bv" "Bits bv = int (length ws)"
    "\<forall>i < length ws. bv_bit bv i \<longleftrightarrow> first_vote ops vts i \<noteq> None"
    using inv by (auto simp: vs_inv_def)
  have set: "SetIndex (vs_bitVector vs) (int i) True = Some (Some (bv_put bv i), True)" using bv_put_eq [OF bv(2)] bv i(1) by simp
  have cnt: "counts_of ?cnt (string_of_bytes h) = [weight (voted ops (vts @ [v]) h True) ws, weight (voted ops (vts @ [v]) h False) ws]" for h
    by (rule counts_snoc [OF fresh good]) (use inv in \<open>simp add: vs_inv_def\<close>)
  let ?u = "[weight (voted ops (vts @ [v]) ?h True) ws, weight (voted ops (vts @ [v]) ?h False) ws]"
  have u: "map_of ?cnt (string_of_bytes ?h) = Some ?u" by (simp only: count_vote_key cnt)
  have decides: "?u ! voteIndex ops v > wrap32 (2 * totalVotes vs) sdiv 3 \<longleftrightarrow> majority ops ws (vts @ [v]) ?h ?c"
    using inv by (simp add: majority_threshold [OF good] majority_def voteIndex_def vs_inv_def)
  have get: "GetIndex (vs_bitVector vs) (int i) = Some False" "index (votes vs) (int i) = Some None"
    using inv bv i(1) none by (simp_all add: GetIndex_bit vs_inv_def index_def)
  have bits: "wf_bv (bv_put bv i)" "Bits (bv_put bv i) = int (length ws)"
    "\<forall>j < length ws. bv_bit (bv_put bv i) j \<longleftrightarrow> first_vote ops (vts @ [v]) j \<noteq> None"
    using signers.inv_put [OF bv(2), of i] signers.has_put [OF bv(2), of i] bv i none SetIndex_wf [OF bv(2), of i True] set
    by (auto simp: first_vote_snoc split: option.split)
  have vts: "(votes vs)[i := Some v] = map (first_vote ops (vts @ [v])) [0..<length ws]"
    using inv i none by (auto simp: vs_inv_def first_vote_snoc nth_list_update intro!: nth_equalityI split: option.split)
  let ?vs1 = "vs\<lparr>vs_bitVector := Some (bv_put bv i), votes := (votes vs)[i := Some v], blockHeaderHashCnt := ?cnt\<rparr>"
  let ?vs2 = "?vs1\<lparr>has_mj23 := True, mj23_key := string_of_bytes ?h, mj23_code := ?c\<rparr>"
  have base: "vs_inv ops ws (vts @ [v]) x" if "validatorNum x = validatorNum vs" "totalVotes x = totalVotes vs" "votes x = votes ?vs1"
      "vs_bitVector x = vs_bitVector ?vs1" "blockHeaderHashCnt x = ?cnt" "has_mj23 x \<longleftrightarrow> (\<exists>h c. majority ops ws (vts @ [v]) h c)"
      "has_mj23 x \<Longrightarrow> majority ops ws (vts @ [v]) (bytes_of_string (mj23_key x)) (mj23_code x)" for x
    using that inv bits vts cnt by (simp add: vs_inv_def)
  have add: "py_AddVote ops vs v (ws ! i) = Some (Inr (if \<not> has_mj23 vs \<and> majority ops ws (vts @ [v]) ?h ?c then ?vs2 else ?vs1))"
    using decides by (simp add: py_AddVote_def Let_def i(2) get set u del: nth_Cons_0)
  have "vs_inv ops ws (vts @ [v]) (if \<not> has_mj23 vs \<and> majority ops ws (vts @ [v]) ?h ?c then ?vs2 else ?vs1)"
  proof (cases "has_mj23 vs")
    case True
    then have "majority ops ws (vts @ [v]) (bytes_of_string (mj23_key vs)) (mj23_code vs)"
      using inv by (intro majority_snoc(1) [OF fresh good]) (simp add: vs_inv_def)
    then have "vs_inv ops ws (vts @ [v]) ?vs1" using True by (intro base) auto
    then show ?thesis using True by simp
  next
    case False
    then have only: "majority ops ws (vts @ [v]) h c \<Longrightarrow> h = ?h \<and> c = ?c" for h c
      using inv majority_snoc(2) [OF fresh good, of h c] by (auto simp: vs_inv_def)
    show ?thesis
    proof (cases "majority ops ws (vts @ [v]) ?h ?c")
      case maj: True
      then have "vs_inv ops ws (vts @ [v]) ?vs2" by (intro base) auto
      then show ?thesis using maj False by simp
    next
      case no: False
      then have "vs_inv ops ws (vts @ [v]) ?vs1" using False only by (intro base) auto
      then show ?thesis using no by simp
    qed
  qed
  then show ?thesis using add by blast
qed

lemma add_all_votes_inv:
  assumes "good_weights ws" "vs_inv ops ws vts0 vs" "list_all (index_ok ops ws) vts"
  shows "\<exists>vs'. add_all_votes ops ws vs vts = Some vs' \<and> vs_inv ops ws (vts0 @ vts) vs'"
  using assms(2,3)
proof (induction vts arbitrary: vts0 vs)
  case (Cons v vts)
  obtain i where i: "i < length ws" "GetVoteIndex ops v = int i"
    using Cons.prems(2) by (auto simp: index_ok_def) (metis nat_0_le nat_less_iff)
  obtain vs' where vs': "add_all_votes ops ws vs (v # vts) = add_all_votes ops ws vs' vts" "vs_inv ops ws (vts0 @ [v]) vs'"
  proof (cases "first_vote ops vts0 i")
    case None
    from AddVote_new [OF Cons.prems(1) assms(1) i None] obtain vs' where
      "py_AddVote ops vs v (ws ! i) = Some (Inr vs')" "vs_inv ops ws (vts0 @ [v]) vs'" by blast
    then show ?thesis using that i(2) by simp
  next
    case (Some w)
    from AddVote_again [OF Cons.prems(1) i Some, of "ws ! i"] show ?thesis using that i(2) by auto
  qed
  then show ?case using Cons.IH [OF vs'(2)] Cons.prems(2) by simp
qed simp

text \<open>The reported majority is the only one.\<close>

lemma inv_reports:
  assumes "vs_inv ops ws vts vs" "good_weights ws" "majority ops ws vts h c"
  shows "has_mj23 vs \<and> py_GetMaj23 vs = (h, c)"
proof -
  have "has_mj23 vs \<longleftrightarrow> (\<exists>h c. majority ops ws vts h c)" using assms(1) by (simp add: vs_inv_def)
  then have m: "has_mj23 vs" using assms(3) by blast
  then have "majority ops ws vts (bytes_of_string (mj23_key vs)) (mj23_code vs)" using assms(1) by (simp add: vs_inv_def)
  from majority_unique [OF assms(2,3) this] m show ?thesis by (simp add: py_GetMaj23_def)
qed

lemma decided_set:
  assumes "good_weights ws" "list_all (index_ok ops ws) vts" "majority ops ws vts h c" "NewVoteSet (int (length ws)) (sum_list ws) = Some vs0"
  shows "\<exists>vs. add_all_votes ops ws vs0 vts = Some vs \<and> HasMaj23 vs \<and> py_GetMaj23 vs = (h, c)"
  using add_all_votes_inv [OF assms(1) vs_inv_new [OF assms(4,1)] assms(2)] inv_reports [OF _ assms(1,3)] by (auto simp: HasMaj23_def)

section \<open>Agreement\<close>

lemma quorums_overlap:
  assumes good: "good_weights ws" and maj: "majority ops ws vts h c" "majority ops ws vts' h' c'" and ne: "(h, c) \<noteq> (h', c')"
  shows "3 * weight (\<lambda>i. \<exists>v w. first_vote ops vts i = Some v \<and> first_vote ops vts' i = Some w
       \<and> (GetBlockHeaderHash ops v, IsOK ops v) \<noteq> (GetBlockHeaderHash ops w, IsOK ops w)) ws > sum_list ws"
    (is "3 * weight ?D ws > _")
proof -
  have "weight (\<lambda>i. voted ops vts h c i \<and> voted ops vts' h' c' i) ws \<le> weight ?D ws"
    by (rule weight_mono [OF good]) (use ne in \<open>auto simp: voted_def split: option.splits\<close>)
  then have "weight (voted ops vts h c) ws + weight (voted ops vts' h' c') ws \<le> sum_list ws + weight ?D ws"
    using weight_overlap [OF good, of "voted ops vts h c" "voted ops vts' h' c'"] by linarith
  moreover have "2 * sum_list ws < 3 * weight (voted ops vts h c) ws" "2 * sum_list ws < 3 * weight (voted ops vts' h' c') ws"
    using maj unfolding majority_def by linarith+
  ultimately show ?thesis by linarith
qed

section \<open>Certificates\<close>

lemma agg_loop_eq:
  assumes inv: "vs_inv ops ws vts vs" and "i + m \<le> length ws" "wf_bv acc"
  shows "agg_loop ops vs h c i m sigs (Some acc) = Some (sigs @ map (\<lambda>j. GetSignature ops (the (first_vote ops vts j)))
     (filter (voted ops vts h c) [i..<i + m]), Some (fold (\<lambda>j b. bv_put b j) (filter (voted ops vts h c) [i..<i + m]) acc))"
  using assms(2,3)
proof (induction m arbitrary: i sigs acc)
  case (Suc m)
  have i: "i < length ws" using Suc.prems(1) by simp
  obtain bv where bv: "vs_bitVector vs = Some bv" "wf_bv bv" "bv_bit bv i \<longleftrightarrow> first_vote ops vts i \<noteq> None"
    using inv i by (auto simp: vs_inv_def)
  have g: "GetIndex (vs_bitVector vs) (int i) = Some (first_vote ops vts i \<noteq> None)" by (simp add: bv(1) GetIndex_bit [OF bv(2)] bv(3))
  have x: "index (votes vs) (int i) = Some (first_vote ops vts i)" using inv i by (simp add: vs_inv_def index_def)
  have u: "[i..<i + Suc m] = i # [Suc i..<Suc i + m]" by (simp add: upt_conv_Cons)
  have s: "Suc i + m \<le> length ws" using Suc.prems(1) by simp
  note IH = Suc.IH [OF s]
  show ?case unfolding u
    using IH [OF Suc.prems(2)] IH [OF signers.inv_put [OF Suc.prems(2)], of _ i] bv_put_eq [OF Suc.prems(2), of i]
    by (cases "first_vote ops vts i") (auto simp: g x voted_def simp del: upt_Suc)
qed simp

text \<open>Votes for the majority whose signatures verify one by one aggregate to a signature that verifies.\<close>

lemma maj23_certificate:
  assumes inv: "vs_inv ops ws vts vs" and good: "good_weights ws" and maj: "has_mj23 vs" and hom: "bls_homomorphic b"
    and size: "length (publicKeys ver) = length ws" and gm: "py_GetMaj23 vs = (h, c)"
    and ver: "\<And>i v. i < length ws \<Longrightarrow> first_vote ops vts i = Some v \<Longrightarrow> GetBlockHeaderHash ops v = h \<Longrightarrow> IsOK ops v = c \<Longrightarrow>
        Verify b ver (GetSignature ops v) msg (int i) = Some True"
  shows "\<exists>sig bv. GetMaj23AggreSig b ops vs = Some (sig, Byte (Some bv)) \<and> wf_bv bv
     \<and> VerifyAggregateSignature b ver sig msg (Byte (Some bv)) = Some True
     \<and> (\<forall>i < length ws. bv_bit bv i \<longleftrightarrow> voted ops vts h c i)"
proof -
  let ?n = "length ws" let ?js = "filter (voted ops vts h c) [0..<?n]" let ?bv = "fold (\<lambda>j b. bv_put b j) ?js (bv_new ?n)"
  have nb: "NewBitVector (int ?n) = Some (bv_new ?n)" by (simp add: bv_new_def NewBitVector_def)
  have loop: "agg_loop ops vs h c 0 ?n [] (Some (bv_new ?n)) = Some (map (\<lambda>j. GetSignature ops (the (first_vote ops vts j))) ?js, Some ?bv)"
    using agg_loop_eq [OF inv, of 0 ?n "bv_new ?n" h c "[]"] signers.inv_new by simp
  have wf: "wf_bv ?bv" by (rule signers.inv_fold_put [OF signers.inv_new])
  have bits: "bv_bit ?bv j \<longleftrightarrow> voted ops vts h c j \<and> j < ?n" for j by (auto simp: signers.has_collect)
  have cap: "Bits ?bv = Verifier_Size ver"
  proof -
    have "nat (Bits ?bv) = ?n" using signers.cap_fold_put [OF signers.inv_new, of ?js ?n] signers.cap_new [of ?n] by simp
    moreover have "0 \<le> Bits ?bv" using wf by (simp add: wf_bv_def)
    ultimately show ?thesis unfolding Verifier_Size_def size by linarith
  qed
  have "majority ops ws vts h c" using inv maj gm by (auto simp: vs_inv_def py_GetMaj23_def)
  then have "0 < weight (voted ops vts h c) ws"
    using weight_nonneg [OF good, of "\<lambda>_. True"] unfolding majority_def weight_all by linarith
  then have "\<exists>i < ?n. voted ops vts h c i" using weight_cong [of ws "voted ops vts h c" "\<lambda>_. False"] by (auto simp: weight_none)
  then have ne: "?js \<noteq> []" by (auto simp: filter_empty_conv)
  have js: "?js = filter (bv_bit ?bv) [0..<length (publicKeys ver)]" unfolding size bits by (rule filter_cong) simp_all
  have v: "Verify b ver (GetSignature ops (the (first_vote ops vts j))) msg (int j) = Some True" if "j \<in> set ?js" for j
    using that ver [of j] by (auto simp: voted_def split: option.splits)
  obtain sig where sig: "AggregateSignatures b (map (\<lambda>j. GetSignature ops (the (first_vote ops vts j))) ?js) = Some sig"
    "VerifyAggregateSignature b ver sig msg (Byte (Some ?bv)) = Some True"
    by (rule aggregate_verifies [OF hom wf cap ne js v])
  have "GetMaj23AggreSig b ops vs = Some (sig, Byte (Some ?bv))"
    using inv by (simp add: GetMaj23AggreSig_def gm loop sig(1) vs_inv_def nb)
  then show ?thesis using wf sig(2) bits by blast
qed

section \<open>Concrete votes\<close>

definition sample_prevote :: "int \<Rightarrow> bytes \<Rightarrow> bool \<Rightarrow> py_Prevote" where
  "sample_prevote i h ok = py_Prevote_SetOK (py_NewPrevote 1 0 h i) ok"

lemma sample_good: "good_weights [3, 2, 2]"
  by (simp add: good_weights_def)

lemma sample_indices: "0 \<le> i \<Longrightarrow> i < 3 \<Longrightarrow> index_ok prevote_ops [3, 2, 2] (sample_prevote i h ok)"
  by (simp add: index_ok_def prevote_ops_def sample_prevote_def py_Prevote_SetOK_def py_NewPrevote_def)

lemma sample_majority:
  "majority prevote_ops [3, 2, 2] [sample_prevote 0 [7] True, sample_prevote 1 [8] True, sample_prevote 0 [8] True, sample_prevote 2 [7] True] [7] True"
  by (simp add: majority_def weight_def voted_def first_vote_def prevote_ops_def sample_prevote_def py_Prevote_SetOK_def py_NewPrevote_def
      py_Prevote_IsOK_def lessThan_Suc numeral_3_eq_3)

section \<open>Properties\<close>

text \<open>
  C5: whatever votes of validators arrive, in any order and repeated, a vote set never panics, keeps
  the first vote of every validator, and reports a majority exactly when the weight of the first
  votes for one hash and one verdict exceeds two thirds of the total; then it reports that one.
\<close>

theorem vote_set_refines:
  assumes "good_weights ws" "list_all (index_ok ops ws) vts"
  shows "\<exists>vs0 vs. NewVoteSet (int (length ws)) (sum_list ws) = Some vs0 \<and> add_all_votes ops ws vs0 vts = Some vs
     \<and> votes vs = map (first_vote ops vts) [0..<length ws]
     \<and> (HasMaj23 vs \<longleftrightarrow> (\<exists>h c. majority ops ws vts h c))
     \<and> (\<forall>h c. majority ops ws vts h c \<longrightarrow> py_GetMaj23 vs = (h, c))"
proof -
  obtain vs0 where vs0: "NewVoteSet (int (length ws)) (sum_list ws) = Some (vs0 :: 'a VoteSet)" by (simp add: NewVoteSet_def)
  obtain vs where vs: "add_all_votes ops ws vs0 vts = Some vs" "vs_inv ops ws vts vs"
    using add_all_votes_inv [OF assms(1) vs_inv_new [OF vs0 assms(1)] assms(2)] by auto
  have "has_mj23 vs \<longleftrightarrow> (\<exists>h c. majority ops ws vts h c)" "votes vs = map (first_vote ops vts) [0..<length ws]"
    using vs(2) by (simp_all add: vs_inv_def)
  then show ?thesis using vs0 vs(1) inv_reports [OF vs(2) assms(1)] unfolding HasMaj23_def by blast
qed

theorem vote_set_refines_witness:
  "\<exists>vs0 vs. NewVoteSet 3 7 = Some vs0 \<and> add_all_votes prevote_ops [3, 2, 2] vs0
       [sample_prevote 0 [7] True, sample_prevote 1 [8] True, sample_prevote 0 [8] True, sample_prevote 2 [7] True] = Some vs
     \<and> HasMaj23 vs \<and> py_GetMaj23 vs = ([7], True)"
  using vote_set_refines [OF sample_good, of prevote_ops
      "[sample_prevote 0 [7] True, sample_prevote 1 [8] True, sample_prevote 0 [8] True, sample_prevote 2 [7] True]"] sample_majority
  by (auto simp: sample_indices)

text \<open>
  C4: two replicas that reach different majorities have stored different votes of the same
  validators, and these validators have more than a third of the weight: with at most a third of
  the weight voting twice, replicas agree.
\<close>

theorem majorities_agree:
  assumes "good_weights ws" "list_all (index_ok ops ws) vts" "list_all (index_ok ops ws) vts'"
    and "NewVoteSet (int (length ws)) (sum_list ws) = Some vs0"
    and "add_all_votes ops ws vs0 vts = Some a" "add_all_votes ops ws vs0 vts' = Some b"
    and "HasMaj23 a" "HasMaj23 b" "py_GetMaj23 a \<noteq> py_GetMaj23 b"
  shows "3 * weight (\<lambda>i. \<exists>v w. votes a ! i = Some v \<and> votes b ! i = Some w
       \<and> (GetBlockHeaderHash ops v, IsOK ops v) \<noteq> (GetBlockHeaderHash ops w, IsOK ops w)) ws > sum_list ws"
proof -
  have inv: "vs_inv ops ws vts a" "vs_inv ops ws vts' b"
    using add_all_votes_inv [OF assms(1) vs_inv_new [OF assms(4,1)] assms(2)] add_all_votes_inv [OF assms(1) vs_inv_new [OF assms(4,1)] assms(3)]
      assms(5,6) by auto
  have "majority ops ws vts (fst (py_GetMaj23 a)) (snd (py_GetMaj23 a))" "majority ops ws vts' (fst (py_GetMaj23 b)) (snd (py_GetMaj23 b))"
    using inv assms(7,8) by (simp_all add: vs_inv_def HasMaj23_def py_GetMaj23_def)
  from quorums_overlap [OF assms(1) this] assms(9) have
    "3 * weight (\<lambda>i. \<exists>v w. first_vote ops vts i = Some v \<and> first_vote ops vts' i = Some w
       \<and> (GetBlockHeaderHash ops v, IsOK ops v) \<noteq> (GetBlockHeaderHash ops w, IsOK ops w)) ws > sum_list ws" by simp
  also have "weight (\<lambda>i. \<exists>v w. first_vote ops vts i = Some v \<and> first_vote ops vts' i = Some w
       \<and> (GetBlockHeaderHash ops v, IsOK ops v) \<noteq> (GetBlockHeaderHash ops w, IsOK ops w)) ws
     = weight (\<lambda>i. \<exists>v w. votes a ! i = Some v \<and> votes b ! i = Some w
       \<and> (GetBlockHeaderHash ops v, IsOK ops v) \<noteq> (GetBlockHeaderHash ops w, IsOK ops w)) ws"
    by (rule weight_cong) (use inv in \<open>simp add: vs_inv_def\<close>)
  finally show ?thesis .
qed

theorem majorities_agree_witness:
  "\<exists>vs0 a b. NewVoteSet 3 3 = Some vs0
     \<and> add_all_votes prevote_ops [1, 1, 1] vs0 (map (\<lambda>i. sample_prevote i [7] True) [0, 1, 2]) = Some a
     \<and> add_all_votes prevote_ops [1, 1, 1] vs0 (map (\<lambda>i. sample_prevote i [8] True) [0, 1, 2]) = Some b
     \<and> 3 * weight (\<lambda>i. \<exists>v w. votes a ! i = Some v \<and> votes b ! i = Some w \<and> (GetBlockHeaderHash prevote_ops v, IsOK prevote_ops v)
         \<noteq> (GetBlockHeaderHash prevote_ops w, IsOK prevote_ops w)) [1, 1, 1] > 3"
proof -
  let ?ws = "[1, 1, 1] :: int list" and ?v = "\<lambda>h. map (\<lambda>i. sample_prevote i h True) [0, 1, 2]"
  have good: "good_weights ?ws" by (simp add: good_weights_def)
  have ix: "list_all (index_ok prevote_ops ?ws) (?v h)" for h
    by (simp add: index_ok_def prevote_ops_def sample_prevote_def py_Prevote_SetOK_def py_NewPrevote_def)
  have maj: "majority prevote_ops ?ws (?v h) h True" for h
    by (simp add: majority_def weight_def voted_def first_vote_def prevote_ops_def sample_prevote_def py_Prevote_SetOK_def py_NewPrevote_def
        py_Prevote_IsOK_def lessThan_Suc numeral_3_eq_3)
  obtain vs0 where vs0: "NewVoteSet (int (length ?ws)) (sum_list ?ws) = Some (vs0 :: py_Prevote VoteSet)" by (simp add: NewVoteSet_def)
  obtain a where a: "add_all_votes prevote_ops ?ws vs0 (?v [7]) = Some a" "HasMaj23 a" "py_GetMaj23 a = ([7], True)"
    using decided_set [OF good ix maj vs0] by blast
  obtain b where b: "add_all_votes prevote_ops ?ws vs0 (?v [8]) = Some b" "HasMaj23 b" "py_GetMaj23 b = ([8], True)"
    using decided_set [OF good ix maj vs0] by blast
  have ne: "py_GetMaj23 a \<noteq> py_GetMaj23 b" using a(3) b(3) by simp
  note d = majorities_agree [OF good ix ix vs0 a(1) b(1) a(2) b(2) ne]
  have "NewVoteSet 3 3 = Some vs0" "sum_list ?ws = 3" using vs0 by simp_all
  with d a(1) b(1) show ?thesis by (intro exI [of _ vs0] exI [of _ a] exI [of _ b] conjI) simp_all
qed

end
