(* ===== verification/Shard_Info.thy ===== *)
theory Shard_Info
  imports Pyramid_Block "HOL-Library.Multiset"
begin

text \<open>
  Who takes part: peers and message envelopes (\<open>src/source/utils/p2p/peer.go\<close>, \<open>message.go\<close>), the
  verifier of their keys (\<open>utils/signer/bls.go\<close>), the shards of the urd protocol
  (\<open>urd/shardinfo\<close>) and those of the pyramid protocol (\<open>pyramid/shardinfo\<close>). Go maps are
  association lists, and a loop over a map goes through the list in its order, which stands for
  any order the run time may choose; the lemmas show that the hash of a shard table does not depend
  on it, and what a table keeps when it is sent.
\<close>

section \<open>Peers and envelopes\<close>

record Peer =
  IP :: string
  Chain :: "(string \<times> bool) list"
  Pubkey :: string
  peer_Vote :: int

definition NewPeer :: "string \<Rightarrow> (string \<times> bool) list \<Rightarrow> string \<Rightarrow> int \<Rightarrow> Peer" where
  "NewPeer ip chain publicKey vote = \<lparr>IP = ip, Chain = chain, Pubkey = publicKey, peer_Vote = vote\<rparr>"

definition Peer_Equal :: "Peer \<Rightarrow> Peer \<Rightarrow> bool" where
  "Peer_Equal peer other \<longleftrightarrow> IP peer = IP other"

definition BelongTo :: "Peer \<Rightarrow> string \<Rightarrow> bool" where
  "BelongTo peer s \<longleftrightarrow> map_of (Chain peer) s = Some True"

record pb_Peer =
  pb_IP :: string
  pb_Chain :: "(string \<times> bool) list"
  pb_Pubkey :: string
  pb_peer_Vote :: int

definition Peer_ToProto :: "Peer \<Rightarrow> pb_Peer" where
  "Peer_ToProto peer = \<lparr>pb_IP = IP peer, pb_Chain = Chain peer, pb_Pubkey = Pubkey peer, pb_peer_Vote = peer_Vote peer\<rparr>"

definition NewPeerFromProto :: "pb_Peer \<Rightarrow> Peer" where
  "NewPeerFromProto p = NewPeer (pb_IP p) (pb_Chain p) (pb_Pubkey p) (pb_peer_Vote p)"

record Envelop =
  Channel_id :: byte
  Message :: bytes
  MessageType :: uint32

definition NewEnvelop :: "byte \<Rightarrow> bytes \<Rightarrow> uint32 \<Rightarrow> Envelop" where
  "NewEnvelop channel_id message messageType = \<lparr>Channel_id = channel_id, Message = message, MessageType = messageType\<rparr>"

record pb_Envelop =
  pb_ChannelId :: "32 word"
  pb_Message :: bytes
  pb_MessageType :: uint32

definition Envelop_ToProto :: "Envelop \<Rightarrow> pb_Envelop" where
  "Envelop_ToProto e = \<lparr>pb_ChannelId = ucast (Channel_id e), pb_Message = Message e, pb_MessageType = MessageType e\<rparr>"

definition NewEnvelopFromProto :: "pb_Envelop \<Rightarrow> Envelop" where
  "NewEnvelopFromProto envelop = \<lparr>Channel_id = ucast (pb_ChannelId envelop), Message = pb_Message envelop, MessageType = pb_MessageType envelop\<rparr>"

lemma byte_extended: "ucast (ucast x :: 32 word) = x" for x :: byte
  by (rule bit_word_eqI) (simp add: bit_simps)

lemma envelop_roundtrip: "NewEnvelopFromProto (Envelop_ToProto e) = e"
  by (simp add: NewEnvelopFromProto_def Envelop_ToProto_def byte_extended)

lemma peer_roundtrip: "NewPeerFromProto (Peer_ToProto p) = p"
  by (simp add: NewPeerFromProto_def Peer_ToProto_def NewPeer_def)

section \<open>Verifiers\<close>

text \<open>The parser of keys is an argument; the error of the first key that does not parse is returned.\<close>

definition NewVerifier :: "(string \<Rightarrow> 'pk option) \<Rightarrow> string list \<Rightarrow> 'pk Verifier option" where
  "NewVerifier key_of_hex publicKeysStr = map_option (\<lambda>keys. \<lparr>publicKeys = map Some keys\<rparr>) (map_or_panic key_of_hex publicKeysStr)"

lemma map_or_panic_length: "map_or_panic f xs = Some ys \<Longrightarrow> length ys = length xs"
  by (induction xs arbitrary: ys) (auto simp: bind_eq_Some_conv)

lemma NewVerifier_size: "NewVerifier k keys = Some v \<Longrightarrow> Verifier_Size v = int (length keys)"
  by (auto simp: NewVerifier_def Verifier_Size_def map_or_panic_length)

section \<open>Shards of the urd protocol\<close>

definition add32 :: "int \<Rightarrow> int \<Rightarrow> int" where
  "add32 a b = sint (word_of_int (a + b) :: 32 word)"

record 'pk Shard =
  PeerList :: "Peer list"
  TotalVotes :: int
  LeaderIndex :: int
  KeyRange :: string
  shard_verifier :: "'pk Verifier option"

record pb_Shard =
  pb_PeerList :: "pb_Peer list"
  pb_TotalVotes :: int

definition Shard_ToProto :: "'pk Shard \<Rightarrow> pb_Shard" where
  "Shard_ToProto shard = \<lparr>pb_PeerList = map Peer_ToProto (PeerList shard), pb_TotalVotes = TotalVotes shard\<rparr>"

definition NewShardeFromProto :: "pb_Shard \<Rightarrow> 'pk Shard" where
  "NewShardeFromProto p = \<lparr>PeerList = map NewPeerFromProto (pb_PeerList p), TotalVotes = pb_TotalVotes p, LeaderIndex = 0,
     KeyRange = [], shard_verifier = None\<rparr>"

definition Shard_Hash :: "hash_fn \<Rightarrow> 'pk Shard \<Rightarrow> bytes" where
  "Shard_Hash H shard = HashFromByteSlices H (slice_bytes (IntToBytes (Int32 (word_of_int (TotalVotes shard))))
     # map (\<lambda>peer. HashFromByteSlices H [bytes_of_string (IP peer), bytes_of_string (Pubkey peer),
         slice_bytes (IntToBytes (Int32 (word_of_int (peer_Vote peer))))]) (PeerList shard))"

text \<open>\<open>None\<close> is the error of a key that does not parse.\<close>

definition generateVerifier :: "(string \<Rightarrow> 'pk option) \<Rightarrow> 'pk Shard \<Rightarrow> 'pk Shard option" where
  "generateVerifier key_of_hex shard = map_option (\<lambda>v. shard\<lparr>shard_verifier := Some v\<rparr>) (NewVerifier key_of_hex (map Pubkey (PeerList shard)))"

text \<open>The methods of the verifier; a shard without one panics.\<close>

definition Shard_Size :: "'pk Shard \<Rightarrow> int option" where
  "Shard_Size shard = map_option Verifier_Size (shard_verifier shard)"

definition Shard_Verify :: "('pk, 'sg) bls_lib \<Rightarrow> 'pk Shard \<Rightarrow> string \<Rightarrow> bytes \<Rightarrow> int \<Rightarrow> bool option" where
  "Shard_Verify b shard sig msg i = do { v \<leftarrow> shard_verifier shard; Verify b v sig msg i }"

definition Shard_VerifyAggregateSignature :: "('pk, 'sg) bls_lib \<Rightarrow> 'pk Shard \<Rightarrow> string \<Rightarrow> bytes \<Rightarrow> bytes \<Rightarrow> bool option" where
  "Shard_VerifyAggregateSignature b shard aggSig msg bitMapBytes = do { v \<leftarrow> shard_verifier shard; VerifyAggregateSignature b v aggSig msg bitMapBytes }"

record 'pk urd_ShardInfo =
  Shards :: "(string \<times> 'pk Shard) list"
  ShardIDList :: "string list"

text \<open>The loop of \<open>init\<close>: an error leaves the shards after it without a verifier and is reported.\<close>

fun init_loop :: "(string \<Rightarrow> 'pk option) \<Rightarrow> (string \<times> 'pk Shard) list \<Rightarrow> (string \<times> 'pk Shard) list option" where
  "init_loop k [] = Some []"
| "init_loop k ((name, shard) # rest) = do {
     shard' \<leftarrow> generateVerifier k shard;
     rest' \<leftarrow> init_loop k rest;
     Some ((name, shard') # rest') }"

definition si_init :: "(string \<Rightarrow> 'pk option) \<Rightarrow> 'pk urd_ShardInfo \<Rightarrow> 'pk urd_ShardInfo option" where
  "si_init k si = map_option (\<lambda>shards. \<lparr>Shards = shards, ShardIDList = sort (map fst shards)\<rparr>) (init_loop k (Shards si))"

text \<open>A key that does not parse panics.\<close>

definition NewShardInfo :: "(string \<Rightarrow> 'pk option) \<Rightarrow> (string \<times> Peer list) list \<Rightarrow> int \<Rightarrow> (string \<times> string) list \<Rightarrow> 'pk urd_ShardInfo option" where
  "NewShardInfo k peers leader_index keyRanges = si_init k \<lparr>Shards = map (\<lambda>(shard, ps). (shard,
       \<lparr>PeerList = ps, TotalVotes = foldl (\<lambda>t p. add32 t (peer_Vote p)) 0 ps, LeaderIndex = leader_index,
        KeyRange = (case map_of keyRanges shard of None \<Rightarrow> [] | Some r \<Rightarrow> r), shard_verifier = None\<rparr>)) peers,
     ShardIDList = []\<rparr>"

record pb_urd_ShardInfo =
  pb_ShardList :: "(string \<times> pb_Shard) list"

definition ShardInfo_ToProto :: "'pk urd_ShardInfo \<Rightarrow> pb_urd_ShardInfo" where
  "ShardInfo_ToProto si = \<lparr>pb_ShardList = map (\<lambda>(key, shard). (key, Shard_ToProto shard)) (Shards si)\<rparr>"

text \<open>\<open>None\<close> is the nil result of a failed initialisation.\<close>

definition NewShardInfoFromProto :: "(string \<Rightarrow> 'pk option) \<Rightarrow> pb_urd_ShardInfo \<Rightarrow> 'pk urd_ShardInfo option" where
  "NewShardInfoFromProto k p = si_init k \<lparr>Shards = map (\<lambda>(key, shard). (key, NewShardeFromProto shard)) (pb_ShardList p), ShardIDList = []\<rparr>"

definition ShardInfo_Hash :: "hash_fn \<Rightarrow> 'pk urd_ShardInfo \<Rightarrow> bytes" where
  "ShardInfo_Hash H si = HashFromByteSlices H (map (\<lambda>key. case map_of (Shards si) key of None \<Rightarrow> [] | Some shard \<Rightarrow> Shard_Hash H shard)
     (sort (map fst (Shards si))))"

section \<open>Shards of the pyramid protocol\<close>

record py_ShardInfo =
  py_PeerList :: "(string \<times> Peer list) list"
  RelatedShards :: "(string \<times> bool) list"
  PeerRelatedMap :: "(string \<times> string list) list"
  ShardIdentity :: int
  KeyRangeMap :: "(string \<times> string) list"

definition SetIShard :: "py_ShardInfo \<Rightarrow> py_ShardInfo" where
  "SetIShard s = s\<lparr>ShardIdentity := BLOCKTYPE_I\<rparr>"

definition SetBShard :: "py_ShardInfo \<Rightarrow> py_ShardInfo" where
  "SetBShard s = s\<lparr>ShardIdentity := BLOCKTYPE_B\<rparr>"

definition IsIShard :: "py_ShardInfo \<Rightarrow> bool" where
  "IsIShard s \<longleftrightarrow> ShardIdentity s = BLOCKTYPE_I"

definition IsBShard :: "py_ShardInfo \<Rightarrow> bool" where
  "IsBShard s \<longleftrightarrow> ShardIdentity s = BLOCKTYPE_B"

record pb_py_ShardInfo =
  pby_PeerList :: "(string \<times> pb_Peer list) list"
  pby_RelatedShards :: "(string \<times> bool) list"
  pby_PeerRelatedMap :: "(string \<times> string list) list"
  pby_ShardIdentity :: "32 word"

definition py_ShardInfo_ToProto :: "py_ShardInfo \<Rightarrow> pb_py_ShardInfo" where
  "py_ShardInfo_ToProto s = \<lparr>pby_PeerList = map (\<lambda>(key, value). (key, map Peer_ToProto value)) (py_PeerList s),
     pby_RelatedShards = RelatedShards s, pby_PeerRelatedMap = PeerRelatedMap s, pby_ShardIdentity = word_of_int (ShardIdentity s)\<rparr>"

definition py_NewShardInfoFromProto :: "pb_py_ShardInfo \<Rightarrow> py_ShardInfo" where
  "py_NewShardInfoFromProto p = \<lparr>py_PeerList = map (\<lambda>(key, value). (key, map NewPeerFromProto value)) (pby_PeerList p),
     RelatedShards = pby_RelatedShards p, PeerRelatedMap = pby_PeerRelatedMap p, ShardIdentity = sint (ucast (pby_ShardIdentity p) :: 8 word),
     KeyRangeMap = []\<rparr>"

section \<open>Lemmas\<close>

lemma init_loop_keys: "init_loop k xs = Some ys \<Longrightarrow> map fst ys = map fst xs"
  by (induction k xs arbitrary: ys rule: init_loop.induct) (auto simp: bind_eq_Some_conv)

lemma generateVerifier_fields: "generateVerifier k s = Some s' \<Longrightarrow> PeerList s' = PeerList s \<and> TotalVotes s' = TotalVotes s
    \<and> LeaderIndex s' = LeaderIndex s \<and> KeyRange s' = KeyRange s \<and> Shard_Size s' = Some (int (length (PeerList s)))"
  by (auto simp: generateVerifier_def Shard_Size_def dest: NewVerifier_size)

text \<open>The hash sees the content of the map only, not the order of its entries.\<close>

lemma ShardInfo_Hash_order:
  assumes "distinct (map fst (Shards a))" "mset (Shards a) = mset (Shards b)"
  shows "ShardInfo_Hash H a = ShardInfo_Hash H b"
proof -
  have m: "mset (map fst (Shards a)) = mset (map fst (Shards b))" using assms(2) by (metis mset_map)
  then have s: "sort (map fst (Shards a)) = sort (map fst (Shards b))" by (metis sorted_sort properties_for_sort mset_sort)
  have "distinct (map fst (Shards b))" using assms(1) m by (metis mset_eq_imp_distinct_iff)
  then have "map_of (Shards a) = map_of (Shards b)"
    using assms map_of_inject_set by (metis mset_eq_setD)
  then show ?thesis using s by (simp add: ShardInfo_Hash_def)
qed

text \<open>Distributing shard information keeps what the hash covers and drops leaders and key ranges.\<close>

lemma Shard_roundtrip_hash: "Shard_Hash H (NewShardeFromProto (Shard_ToProto s)) = Shard_Hash H s"
  by (simp add: Shard_Hash_def NewShardeFromProto_def Shard_ToProto_def peer_roundtrip o_def)

lemma py_ShardInfo_roundtrip:
  assumes "- 128 \<le> ShardIdentity s" "ShardIdentity s < 128"
  shows "py_NewShardInfoFromProto (py_ShardInfo_ToProto s) = s\<lparr>KeyRangeMap := []\<rparr>"
  using assms by (simp add: py_NewShardInfoFromProto_def py_ShardInfo_ToProto_def peer_roundtrip o_def case_prod_unfold ucast_word_of_int int_word_sint)

end
