(* ===== verification/Pyramid_Height.thy ===== *)
theory Pyramid_Height
  imports Pyramid_Votes Shard_Info
begin

text \<open>
  What a replica of the pyramid protocol knows about one height,
  \<open>src/source/pyramid/consensus/height_datas.go\<close>: the proposal, the parts of its block, the two vote
  sets and the last step that was passed. The lemmas show that the steps are passed only with
  their evidence, that the block of the proposal is rebuilt from its parts in whatever order
  messages arrive, and that a precommit majority gives a certificate that other shards accept.
\<close>

section \<open>Steps\<close>

definition RoundStepNewHeight :: int where "RoundStepNewHeight = 1"
definition RoundStepNewRound :: int where "RoundStepNewRound = 2"
definition RoundStepPropose :: int where "RoundStepPropose = 3"
definition RoundStepPrevote :: int where "RoundStepPrevote = 4"
definition RoundStepPrecommit :: int where "RoundStepPrecommit = 5"
definition RoundStepCommit :: int where "RoundStepCommit = 6"

lemmas round_steps = RoundStepNewHeight_def RoundStepNewRound_def RoundStepPropose_def RoundStepPrevote_def
  RoundStepPrecommit_def RoundStepCommit_def

definition RoundStepString :: "int \<Rightarrow> string" where
  "RoundStepString s =
     (if s = RoundStepNewHeight then ''New-Height'' else if s = RoundStepNewRound then ''NewRound''
      else if s = RoundStepPropose then ''Propose'' else if s = RoundStepPrevote then ''Prevote''
      else if s = RoundStepPrecommit then ''Precommit'' else if s = RoundStepCommit then ''Commit'' else ''Unknown'')"

section \<open>The data of a height\<close>

record 'pk py_HeightData =
  hd_Height :: int
  hd_Round :: int
  MyChainID :: string
  PassStep :: int
  hd_ShardInfo :: py_ShardInfo
  ShardVotes :: "(string \<times> int) list"
  AllValidatorSet :: "(string \<times> 'pk Verifier) list"
  hd_Proposal :: "py_Proposal option"
  Prevotes :: "py_Prevote VoteSet"
  Precommits :: "py_Precommit VoteSet"
  hd_PartSet :: "py_PartSet option"
  hd_Block :: "py_Block option"
  randomHeaderBuffer :: "py_Part list"

text \<open>The encoders, the curve library and the hash function.\<close>

record ('pk, 'sg) py_lib =
  yl_bls :: "('pk, 'sg) bls_lib"
  yl_key :: "string \<Rightarrow> 'pk option"
  yl_hash :: hash_fn
  yl_wire :: py_wire
  yl_proposal :: "pb_py_Proposal \<Rightarrow> bytes"
  yl_prevote :: "pb_py_Prevote \<Rightarrow> bytes"
  yl_precommit :: "pb_py_Precommit \<Rightarrow> bytes"

datatype hd_error =
    DoNothing | ErrProposer | ErrOtherShard | ErrProposalSign | ErrAddPart py_part_error | ErrGenBlock py_gen_error
  | ErrValidatorIndex | ErrVoteSign | ErrAddVote py_vote_error | ErrKeys

text \<open>A step gives the error it returns, if any, and the data after it; \<open>None\<close> is a panic.\<close>

type_synonym 'pk hd_result = "(hd_error option \<times> 'pk py_HeightData) option"

text \<open>The verifier of a chain; a missing one is nil.\<close>

definition my_verifier :: "'pk py_HeightData \<Rightarrow> 'pk Verifier option" where
  "my_verifier h = map_of (AllValidatorSet h) (MyChainID h)"

definition setKeys :: "('pk, 'sg) py_lib \<Rightarrow> 'pk py_HeightData \<Rightarrow> string list \<Rightarrow> string \<Rightarrow> hd_error option \<times> 'pk py_HeightData" where
  "setKeys l h pubkeys chain_id = (case NewVerifier (yl_key l) pubkeys of
      None \<Rightarrow> (Some ErrKeys, h)
    | Some verifier \<Rightarrow> (None, h\<lparr>AllValidatorSet := AList.update chain_id verifier (AllValidatorSet h)\<rparr>))"

fun shard_loop :: "('pk, 'sg) py_lib \<Rightarrow> (string \<times> Peer list) list \<Rightarrow> 'pk py_HeightData \<Rightarrow> hd_error option \<times> 'pk py_HeightData" where
  "shard_loop l [] h = (None, h)"
| "shard_loop l ((chain_id, peers) # rest) h = (case setKeys l h (map Pubkey peers) chain_id of
      (Some e, h') \<Rightarrow> (Some e, h')
    | (None, h') \<Rightarrow> shard_loop l rest (h'\<lparr>ShardVotes := AList.update chain_id (sum_list (map peer_Vote peers)) (ShardVotes h')\<rparr>))"

definition SetShardInfo :: "('pk, 'sg) py_lib \<Rightarrow> 'pk py_HeightData \<Rightarrow> py_ShardInfo \<Rightarrow> hd_error option \<times> 'pk py_HeightData" where
  "SetShardInfo l h s = shard_loop l (py_PeerList s) (h\<lparr>hd_ShardInfo := s, AllValidatorSet := [], ShardVotes := []\<rparr>)"

definition clearProposal :: "'pk py_HeightData \<Rightarrow> 'pk py_HeightData" where
  "clearProposal h = h\<lparr>hd_Proposal := None, hd_Block := None, hd_PartSet := None\<rparr>"

text \<open>The vote set of a fresh round; without a verifier for the chain of the replica this panics.\<close>

definition my_votes :: "'pk py_HeightData \<Rightarrow> int" where
  "my_votes h = (case map_of (ShardVotes h) (MyChainID h) of None \<Rightarrow> 0 | Some t \<Rightarrow> t)"

definition clearPrevote :: "'pk py_HeightData \<Rightarrow> 'pk py_HeightData option" where
  "clearPrevote h = do {
     v \<leftarrow> my_verifier h;
     vs \<leftarrow> NewVoteSet (Verifier_Size v) (wrap32 (my_votes h));
     Some (h\<lparr>Prevotes := vs\<rparr>) }"

definition clearPrecommit :: "'pk py_HeightData \<Rightarrow> 'pk py_HeightData option" where
  "clearPrecommit h = do {
     v \<leftarrow> my_verifier h;
     vs \<leftarrow> NewVoteSet (Verifier_Size v) (wrap32 (my_votes h));
     Some (h\<lparr>Precommits := vs\<rparr>) }"

definition clearAll :: "'pk py_HeightData \<Rightarrow> 'pk py_HeightData option" where
  "clearAll h = Option.bind (clearPrevote (clearProposal h)) clearPrecommit"

definition nil_votes :: "'v VoteSet" where
  "nil_votes = \<lparr>validatorNum = 0, totalVotes = 0, votes = [], blockHeaderHashCnt = [], vs_bitVector = None,
     has_mj23 = False, mj23_key = [], mj23_code = False\<rparr>"

text \<open>The error of \<open>SetShardInfo\<close> is dropped.\<close>

definition NewHeightData :: "('pk, 'sg) py_lib \<Rightarrow> string \<Rightarrow> int \<Rightarrow> py_ShardInfo \<Rightarrow> 'pk py_HeightData option" where
  "NewHeightData l mychainid height si =
     (let h = \<lparr>hd_Height = height, hd_Round = 0, MyChainID = mychainid, PassStep = RoundStepNewHeight, hd_ShardInfo = si, ShardVotes = [],
        AllValidatorSet = [], hd_Proposal = None, Prevotes = nil_votes, Precommits = nil_votes, hd_PartSet = None, hd_Block = None,
        randomHeaderBuffer = []\<rparr>
      in map_option (\<lambda>h. h\<lparr>randomHeaderBuffer := []\<rparr>) (clearAll (snd (SetShardInfo l h si))))"

definition NextHeight :: "'pk py_HeightData \<Rightarrow> 'pk py_HeightData option" where
  "NextHeight h = clearAll (h\<lparr>hd_Height := hd_Height h + 1, hd_Round := 0, PassStep := RoundStepNewHeight\<rparr>)"

section \<open>Passing the steps\<close>

definition FinishProposal :: "'pk py_HeightData \<Rightarrow> (bool \<times> 'pk py_HeightData) option" where
  "FinishProposal h =
     (if PassStep h \<ge> RoundStepPropose then Some (True, h)
      else if hd_Proposal h = None then Some (False, h)
      else if hd_Block h = None then Some (False, h)
      else do {
        ps \<leftarrow> hd_PartSet h;
        if \<not> py_IsComplete ps then Some (False, h) else Some (True, h\<lparr>PassStep := RoundStepPropose\<rparr>) })"

definition FinishPrevote :: "'pk py_HeightData \<Rightarrow> (bool \<times> 'pk py_HeightData) option" where
  "FinishPrevote h =
     (if PassStep h \<ge> RoundStepPrevote then Some (True, h)
      else do {
        (ok, h') \<leftarrow> FinishProposal h;
        if \<not> ok then Some (False, h')
        else if \<not> HasMaj23 (Prevotes h') then Some (False, h')
        else Some (True, h'\<lparr>PassStep := RoundStepPrevote\<rparr>) })"

definition FinishPrecommit :: "'pk py_HeightData \<Rightarrow> (bool \<times> 'pk py_HeightData) option" where
  "FinishPrecommit h =
     (if PassStep h \<ge> RoundStepPrecommit then Some (True, h)
      else do {
        (ok, h') \<leftarrow> FinishPrevote h;
        if \<not> ok then Some (False, h')
        else if \<not> HasMaj23 (Precommits h') then Some (False, h')
        else Some (True, h'\<lparr>PassStep := RoundStepPrecommit\<rparr>) })"

section \<open>Receiving\<close>

definition hd_AddPart :: "('pk, 'sg) py_lib \<Rightarrow> 'pk py_HeightData \<Rightarrow> py_Part \<Rightarrow> 'pk hd_result" where
  "hd_AddPart l h p =
     (if hd_Height h \<noteq> yp_Height p \<or> hd_Round h \<noteq> yp_Round p then Some (Some DoNothing, h)
      else if yp_ChainID p \<noteq> MyChainID h then Some (Some ErrOtherShard, h)
      else (case hd_PartSet h of
          None \<Rightarrow> Some (Some DoNothing, h\<lparr>randomHeaderBuffer := randomHeaderBuffer h @ [p]\<rparr>)
        | Some ps \<Rightarrow> do {
            r \<leftarrow> py_PartSet_AddPart (yl_hash l) ps p;
            (case r of
               Inl e \<Rightarrow> Some (Some (if e = YDuplicatedPart then DoNothing else ErrAddPart e), h)
             | Inr ps' \<Rightarrow>
                 (let h1 = h\<lparr>hd_PartSet := Some ps'\<rparr>
                  in if py_IsComplete ps' then do {
                       (block, err) \<leftarrow> py_GenBlock (yl_wire l) (yl_hash l) ps';
                       (case err of
                          Some e \<Rightarrow> Some (Some (ErrGenBlock e), h1)
                        | None \<Rightarrow> Some (None, h1\<lparr>hd_Block := block\<rparr>)) }
                     else Some (None, h1))) }))"

text \<open>The loop over the buffered parts drops what \<open>AddPart\<close> returns.\<close>

fun replay_buffer :: "('pk, 'sg) py_lib \<Rightarrow> 'pk py_HeightData \<Rightarrow> py_Part list \<Rightarrow> 'pk py_HeightData option" where
  "replay_buffer l h [] = Some h"
| "replay_buffer l h (part # parts) = do { (_, h') \<leftarrow> hd_AddPart l h part; replay_buffer l h' parts }"

definition AddProposal :: "('pk, 'sg) py_lib \<Rightarrow> 'pk py_HeightData \<Rightarrow> py_Proposal \<Rightarrow> int \<Rightarrow> 'pk hd_result" where
  "AddProposal l h p i =
     (if hd_Proposal h \<noteq> None then Some (Some DoNothing, h)
      else if hd_Height h \<noteq> ysh_Height (yo_Header p) \<or> hd_Round h \<noteq> ysh_Round (yo_Header p) then Some (Some DoNothing, h)
      else if yo_ProposerIndex p \<noteq> i then Some (Some ErrProposer, h)
      else if ysh_ChainID (yo_Header p) \<noteq> MyChainID h then Some (Some ErrOtherShard, h)
      else do {
        v \<leftarrow> my_verifier h;
        ok \<leftarrow> Verify (yl_bls l) v (yo_Signature p) (py_Proposal_SignBytes (yl_proposal l) p) i;
        if \<not> ok then Some (Some ErrProposalSign, h)
        else do {
          ps \<leftarrow> py_NewPartSet (yo_Header p) (yo_BlockHeaderHash p);
          h' \<leftarrow> replay_buffer l (h\<lparr>hd_Proposal := Some p, hd_PartSet := Some ps\<rparr>) (randomHeaderBuffer h);
          Some (None, h') } })"

text \<open>The weight of a validator: an entry of the peer list of the chain.\<close>

definition val_vote :: "'pk py_HeightData \<Rightarrow> int \<Rightarrow> int option" where
  "val_vote h i = map_option peer_Vote (index (case map_of (py_PeerList (hd_ShardInfo h)) (MyChainID h) of None \<Rightarrow> [] | Some ps \<Rightarrow> ps) i)"

definition AddPrevote :: "('pk, 'sg) py_lib \<Rightarrow> 'pk py_HeightData \<Rightarrow> py_Prevote \<Rightarrow> 'pk hd_result" where
  "AddPrevote l h p =
     (if hd_Height h \<noteq> yv_Height p \<or> hd_Round h \<noteq> yv_Round p then Some (Some DoNothing, h)
      else do {
        v \<leftarrow> my_verifier h;
        if yv_ValidatorIndex p < 0 \<or> yv_ValidatorIndex p \<ge> Verifier_Size v then Some (Some ErrValidatorIndex, h)
        else do {
          ok \<leftarrow> Verify (yl_bls l) v (yv_Signature p) (py_Prevote_SignBytes (yl_prevote l) p) (yv_ValidatorIndex p);
          if \<not> ok then Some (Some ErrVoteSign, h)
          else do {
            valVote \<leftarrow> val_vote h (yv_ValidatorIndex p);
            r \<leftarrow> py_AddVote prevote_ops (Prevotes h) p valVote;
            Some (case r of Inl e \<Rightarrow> (Some (ErrAddVote e), h) | Inr vs \<Rightarrow> (None, h\<lparr>Prevotes := vs\<rparr>)) } } })"

definition AddPrecommit :: "('pk, 'sg) py_lib \<Rightarrow> 'pk py_HeightData \<Rightarrow> py_Precommit \<Rightarrow> 'pk hd_result" where
  "AddPrecommit l h p =
     (if hd_Height h \<noteq> yk_Height p \<or> hd_Round h \<noteq> yk_Round p then Some (Some DoNothing, h)
      else do {
        v \<leftarrow> my_verifier h;
        if yk_ValidatorIndex p < 0 \<or> yk_ValidatorIndex p \<ge> Verifier_Size v then Some (Some ErrValidatorIndex, h)
        else do {
          ok \<leftarrow> Verify (yl_bls l) v (yk_Signature p) (py_Precommit_SignBytes (yl_precommit l) p) (yk_ValidatorIndex p);
          if \<not> ok then Some (Some ErrVoteSign, h)
          else do {
            valVote \<leftarrow> val_vote h (yk_ValidatorIndex p);
            r \<leftarrow> py_AddVote precommit_ops (Precommits h) p valVote;
            Some (case r of Inl e \<Rightarrow> (Some (ErrAddVote e), h) | Inr vs \<Rightarrow> (None, h\<lparr>Precommits := vs\<rparr>)) } } })"

text \<open>Without a proposal this panics.\<close>

definition GenerateAggregatePrecommitSignature :: "('pk, 'sg) py_lib \<Rightarrow> 'pk py_HeightData \<Rightarrow> py_PrecommitAggregated option" where
  "GenerateAggregatePrecommitSignature l h = do {
     let (hash, ok) = py_GetMaj23 (Precommits h);
     (sig, bv) \<leftarrow> GetMaj23AggreSig (yl_bls l) precommit_ops (Precommits h);
     proposal \<leftarrow> hd_Proposal h;
     pa \<leftarrow> py_NewPrecommitAggregated bv (yo_Header proposal) hash sig;
     Some (py_PrecommitAggregated_SetCode pa ok) }"

section \<open>Reachable data\<close>

text \<open>The peers of the replica's own chain and their weights.\<close>

definition my_peers :: "string \<Rightarrow> py_ShardInfo \<Rightarrow> Peer list" where
  "my_peers chain si = (case map_of (py_PeerList si) chain of None \<Rightarrow> [] | Some ps \<Rightarrow> ps)"

abbreviation my_weights :: "string \<Rightarrow> py_ShardInfo \<Rightarrow> int list" where
  "my_weights chain si \<equiv> map peer_Vote (my_peers chain si)"

text \<open>The proposer stores its own block.\<close>

definition own_proposal :: "'pk py_HeightData \<Rightarrow> py_Block \<Rightarrow> py_PartSet \<Rightarrow> py_Proposal \<Rightarrow> 'pk py_HeightData" where
  "own_proposal h block part_set proposal = h\<lparr>hd_Block := Some block, hd_PartSet := Some part_set, hd_Proposal := Some proposal\<rparr>"

inductive hd_reach :: "('pk, 'sg) py_lib \<Rightarrow> string \<Rightarrow> py_ShardInfo \<Rightarrow> 'pk py_HeightData \<Rightarrow> bool" for l chain si where
  new: "NewHeightData l chain height si = Some h \<Longrightarrow> hd_reach l chain si h"
| next_height: "hd_reach l chain si h \<Longrightarrow> NextHeight h = Some h' \<Longrightarrow> hd_reach l chain si h'"
| part: "hd_reach l chain si h \<Longrightarrow> hd_AddPart l h p = Some (e, h') \<Longrightarrow> hd_reach l chain si h'"
| proposal: "hd_reach l chain si h \<Longrightarrow> AddProposal l h pr i = Some (e, h') \<Longrightarrow> hd_reach l chain si h'"
| own: "hd_reach l chain si h \<Longrightarrow> py_PartSetFromBlock (yl_wire l) (yl_hash l) b sz (hd_Round h) = Some (b', ps) \<Longrightarrow> 0 < sz \<Longrightarrow>
    yh_Height (y_Header b) = hd_Height h \<Longrightarrow> yh_ChainID (y_Header b) = chain \<Longrightarrow> yo_Header pr = ys_Header ps \<Longrightarrow>
    hd_reach l chain si (own_proposal h b' ps pr)"
| prevote: "hd_reach l chain si h \<Longrightarrow> AddPrevote l h pv = Some (e, h') \<Longrightarrow> hd_reach l chain si h'"
| precommit: "hd_reach l chain si h \<Longrightarrow> py_Precommit_ValidateBasic pc = Inr () \<Longrightarrow> AddPrecommit l h pc = Some (e, h') \<Longrightarrow>
    hd_reach l chain si h'"
| finish_proposal: "hd_reach l chain si h \<Longrightarrow> FinishProposal h = Some (ok, h') \<Longrightarrow> hd_reach l chain si h'"
| finish_prevote: "hd_reach l chain si h \<Longrightarrow> FinishPrevote h = Some (ok, h') \<Longrightarrow> hd_reach l chain si h'"
| finish_precommit: "hd_reach l chain si h \<Longrightarrow> FinishPrecommit h = Some (ok, h') \<Longrightarrow> hd_reach l chain si h'"

text \<open>The fixed part: whom the replica votes with.\<close>

definition hd_static :: "('pk, 'sg) py_lib \<Rightarrow> string \<Rightarrow> py_ShardInfo \<Rightarrow> 'pk py_HeightData \<Rightarrow> bool" where
  "hd_static l chain si h \<longleftrightarrow> MyChainID h = chain \<and> hd_ShardInfo h = si
     \<and> my_verifier h = NewVerifier (yl_key l) (map Pubkey (my_peers chain si)) \<and> my_verifier h \<noteq> None
     \<and> my_votes h = sum_list (my_weights chain si)"

text \<open>The votes behind the two vote sets: each was checked when it came in.\<close>

definition prevotes_inv :: "('pk, 'sg) py_lib \<Rightarrow> int list \<Rightarrow> 'pk py_HeightData \<Rightarrow> py_Prevote list \<Rightarrow> bool" where
  "prevotes_inv l ws h vts \<longleftrightarrow> vs_inv prevote_ops ws vts (Prevotes h)
     \<and> (\<forall>v \<in> set vts. yv_Height v = hd_Height h \<and> yv_Round v = hd_Round h
          \<and> (\<exists>ver. my_verifier h = Some ver \<and>
               Verify (yl_bls l) ver (yv_Signature v) (py_Prevote_SignBytes (yl_prevote l) v) (yv_ValidatorIndex v) = Some True))"

definition precommits_inv :: "('pk, 'sg) py_lib \<Rightarrow> int list \<Rightarrow> 'pk py_HeightData \<Rightarrow> py_Precommit list \<Rightarrow> bool" where
  "precommits_inv l ws h vts \<longleftrightarrow> vs_inv precommit_ops ws vts (Precommits h)
     \<and> (\<forall>v \<in> set vts. yk_VoteType v = VoteTypePrecommit \<and> yk_Height v = hd_Height h \<and> yk_Round v = hd_Round h
          \<and> (\<exists>ver. my_verifier h = Some ver \<and>
               Verify (yl_bls l) ver (yk_Signature v) (py_Precommit_SignBytes (yl_precommit l) v) (yk_ValidatorIndex v) = Some True))"

text \<open>The proposal is of this height and chain, and its part set is well formed.\<close>

definition proposal_inv :: "'pk py_HeightData \<Rightarrow> bool" where
  "proposal_inv h \<longleftrightarrow> (\<forall>p. hd_Proposal h = Some p \<longrightarrow> ysh_Height (yo_Header p) = hd_Height h \<and> ysh_Round (yo_Header p) = hd_Round h
       \<and> ysh_ChainID (yo_Header p) = MyChainID h)
     \<and> (\<forall>ps. hd_PartSet h = Some ps \<longrightarrow> py_wf_slots ps)
     \<and> (hd_Block h \<noteq> None \<longrightarrow> (\<exists>ps. hd_PartSet h = Some ps \<and> py_IsComplete ps) \<and> hd_Proposal h \<noteq> None)
     \<and> (hd_PartSet h \<noteq> None \<longrightarrow> hd_Proposal h \<noteq> None)"

text \<open>A step is passed only with its evidence.\<close>

definition passed_inv :: "'pk py_HeightData \<Rightarrow> bool" where
  "passed_inv h \<longleftrightarrow> (PassStep h \<ge> RoundStepPropose \<longrightarrow> hd_Block h \<noteq> None)
     \<and> (PassStep h \<ge> RoundStepPrevote \<longrightarrow> HasMaj23 (Prevotes h))
     \<and> (PassStep h \<ge> RoundStepPrecommit \<longrightarrow> HasMaj23 (Precommits h))"

definition hd_inv :: "('pk, 'sg) py_lib \<Rightarrow> string \<Rightarrow> py_ShardInfo \<Rightarrow> 'pk py_HeightData \<Rightarrow> bool" where
  "hd_inv l chain si h \<longleftrightarrow> hd_static l chain si h
     \<and> (\<exists>vts. prevotes_inv l (my_weights chain si) h vts) \<and> (\<exists>vts. precommits_inv l (my_weights chain si) h vts)
     \<and> proposal_inv h \<and> passed_inv h"

lemma add_votes_keep_maj23: "py_AddVote ops vs v w = Some (Inr vs') \<Longrightarrow> has_mj23 vs \<Longrightarrow> has_mj23 vs'"
  by (auto simp: py_AddVote_def Let_def bind_eq_Some_conv split: if_splits)

lemma AddVote_inv:
  assumes "vs_inv ops ws vts vs" "good_weights ws" "index_ok ops ws v"
  shows "\<exists>r. py_AddVote ops vs v (ws ! nat (GetVoteIndex ops v)) = Some r
     \<and> vs_inv ops ws (vts @ [v]) (case r of Inl e \<Rightarrow> vs | Inr vs' \<Rightarrow> vs')"
proof -
  obtain i where i: "i < length ws" "GetVoteIndex ops v = int i"
    using assms(3) by (auto simp: index_ok_def) (metis nat_0_le nat_less_iff)
  show ?thesis
  proof (cases "first_vote ops vts i")
    case None
    from AddVote_new [OF assms(1,2) i None] show ?thesis by (auto simp: i(2))
  next
    case (Some w)
    from AddVote_again [OF assms(1) i Some, of "ws ! i"] show ?thesis by (auto simp: i(2))
  qed
qed

lemma AddPrecommit_cases:
  assumes "AddPrecommit l h p = Some (e, h')" "h' \<noteq> h"
  shows "\<exists>ver w vs. yk_Height p = hd_Height h \<and> yk_Round p = hd_Round h \<and> my_verifier h = Some ver
      \<and> 0 \<le> yk_ValidatorIndex p \<and> yk_ValidatorIndex p < Verifier_Size ver
      \<and> Verify (yl_bls l) ver (yk_Signature p) (py_Precommit_SignBytes (yl_precommit l) p) (yk_ValidatorIndex p) = Some True
      \<and> val_vote h (yk_ValidatorIndex p) = Some w \<and> py_AddVote precommit_ops (Precommits h) p w = Some (Inr vs) \<and> h' = h\<lparr>Precommits := vs\<rparr>"
proof -
  obtain ver w r where "yk_Height p = hd_Height h" "yk_Round p = hd_Round h" "my_verifier h = Some ver"
    "0 \<le> yk_ValidatorIndex p" "yk_ValidatorIndex p < Verifier_Size ver"
    "Verify (yl_bls l) ver (yk_Signature p) (py_Precommit_SignBytes (yl_precommit l) p) (yk_ValidatorIndex p) = Some True"
    "val_vote h (yk_ValidatorIndex p) = Some w" "py_AddVote precommit_ops (Precommits h) p w = Some r"
    "(case r of Inl e \<Rightarrow> (Some (ErrAddVote e), h) | Inr vs \<Rightarrow> (None, h\<lparr>Precommits := vs\<rparr>)) = (e, h')"
    using assms by (auto simp: AddPrecommit_def bind_eq_Some_conv split: if_splits)
  then show ?thesis using assms(2) by (cases r) auto
qed

lemma AddPrevote_cases:
  assumes "AddPrevote l h p = Some (e, h')" "h' \<noteq> h"
  shows "\<exists>ver w vs. yv_Height p = hd_Height h \<and> yv_Round p = hd_Round h \<and> my_verifier h = Some ver
      \<and> 0 \<le> yv_ValidatorIndex p \<and> yv_ValidatorIndex p < Verifier_Size ver
      \<and> Verify (yl_bls l) ver (yv_Signature p) (py_Prevote_SignBytes (yl_prevote l) p) (yv_ValidatorIndex p) = Some True
      \<and> val_vote h (yv_ValidatorIndex p) = Some w \<and> py_AddVote prevote_ops (Prevotes h) p w = Some (Inr vs) \<and> h' = h\<lparr>Prevotes := vs\<rparr>"
proof -
  obtain ver w r where "yv_Height p = hd_Height h" "yv_Round p = hd_Round h" "my_verifier h = Some ver"
    "0 \<le> yv_ValidatorIndex p" "yv_ValidatorIndex p < Verifier_Size ver"
    "Verify (yl_bls l) ver (yv_Signature p) (py_Prevote_SignBytes (yl_prevote l) p) (yv_ValidatorIndex p) = Some True"
    "val_vote h (yv_ValidatorIndex p) = Some w" "py_AddVote prevote_ops (Prevotes h) p w = Some r"
    "(case r of Inl e \<Rightarrow> (Some (ErrAddVote e), h) | Inr vs \<Rightarrow> (None, h\<lparr>Prevotes := vs\<rparr>)) = (e, h')"
    using assms by (auto simp: AddPrevote_def bind_eq_Some_conv split: if_splits)
  then show ?thesis using assms(2) by (cases r) auto
qed

lemma static_size: "hd_static l chain si h \<Longrightarrow> my_verifier h = Some ver \<Longrightarrow> length (publicKeys ver) = length (my_peers chain si)"
  using NewVerifier_size [of "yl_key l" "map Pubkey (my_peers chain si)" ver] by (simp add: hd_static_def Verifier_Size_def)

lemma static_weight: "hd_static l chain si h \<Longrightarrow> val_vote h i = Some w \<Longrightarrow> 0 \<le> i \<and> w = my_weights chain si ! nat i \<and> i < int (length (my_peers chain si))"
  by (auto simp: hd_static_def val_vote_def my_peers_def index_def split: if_splits)

lemma AddPrecommit_inv:
  assumes inv: "hd_inv l chain si h" and good: "good_weights (my_weights chain si)"
    and add: "py_Precommit_ValidateBasic p = Inr ()" "AddPrecommit l h p = Some (e, h')"
  shows "hd_inv l chain si h'"
proof (cases "h' = h")
  case False
  obtain vts where st: "hd_static l chain si h" and vts: "precommits_inv l (my_weights chain si) h vts"
    using inv by (auto simp: hd_inv_def)
  obtain ver w vs where c: "yk_Height p = hd_Height h" "yk_Round p = hd_Round h" "my_verifier h = Some ver"
    "Verify (yl_bls l) ver (yk_Signature p) (py_Precommit_SignBytes (yl_precommit l) p) (yk_ValidatorIndex p) = Some True"
    "val_vote h (yk_ValidatorIndex p) = Some w" "py_AddVote precommit_ops (Precommits h) p w = Some (Inr vs)" "h' = h\<lparr>Precommits := vs\<rparr>"
    using AddPrecommit_cases [OF add(2) False] by blast
  have ix: "index_ok precommit_ops (my_weights chain si) p" using static_weight [OF st c(5)] by (simp add: index_ok_def precommit_ops_def)
  have w: "w = my_weights chain si ! nat (GetVoteIndex precommit_ops p)" using static_weight [OF st c(5)] by (simp add: precommit_ops_def)
  have "vs_inv precommit_ops (my_weights chain si) (vts @ [p]) vs"
    using AddVote_inv [OF _ good ix, of vts "Precommits h"] vts c(6) w by (auto simp: precommits_inv_def)
  then have "precommits_inv l (my_weights chain si) h' (vts @ [p])"
    using vts c add(1) by (auto simp: precommits_inv_def my_verifier_def py_Precommit_ValidateBasic_def split: if_splits)
  moreover have "passed_inv h'" using inv c(6,7) add_votes_keep_maj23 by (auto simp: hd_inv_def passed_inv_def HasMaj23_def)
  ultimately show ?thesis using inv unfolding hd_inv_def
    by (auto simp: c(7) hd_static_def my_verifier_def my_votes_def prevotes_inv_def proposal_inv_def)
qed (use inv in simp)

lemma AddPrevote_inv:
  assumes inv: "hd_inv l chain si h" and good: "good_weights (my_weights chain si)" and add: "AddPrevote l h p = Some (e, h')"
  shows "hd_inv l chain si h'"
proof (cases "h' = h")
  case False
  obtain vts where st: "hd_static l chain si h" and vts: "prevotes_inv l (my_weights chain si) h vts"
    using inv by (auto simp: hd_inv_def)
  obtain ver w vs where c: "yv_Height p = hd_Height h" "yv_Round p = hd_Round h" "my_verifier h = Some ver"
    "Verify (yl_bls l) ver (yv_Signature p) (py_Prevote_SignBytes (yl_prevote l) p) (yv_ValidatorIndex p) = Some True"
    "val_vote h (yv_ValidatorIndex p) = Some w" "py_AddVote prevote_ops (Prevotes h) p w = Some (Inr vs)" "h' = h\<lparr>Prevotes := vs\<rparr>"
    using AddPrevote_cases [OF add False] by blast
  have ix: "index_ok prevote_ops (my_weights chain si) p" using static_weight [OF st c(5)] by (simp add: index_ok_def prevote_ops_def)
  have w: "w = my_weights chain si ! nat (GetVoteIndex prevote_ops p)" using static_weight [OF st c(5)] by (simp add: prevote_ops_def)
  have "vs_inv prevote_ops (my_weights chain si) (vts @ [p]) vs"
    using AddVote_inv [OF _ good ix, of vts "Prevotes h"] vts c(6) w by (auto simp: prevotes_inv_def)
  then have "prevotes_inv l (my_weights chain si) h' (vts @ [p])"
    using vts c by (auto simp: prevotes_inv_def my_verifier_def)
  moreover have "passed_inv h'" using inv c(6,7) add_votes_keep_maj23 by (auto simp: hd_inv_def passed_inv_def HasMaj23_def)
  ultimately show ?thesis using inv unfolding hd_inv_def
    by (auto simp: c(7) hd_static_def my_verifier_def my_votes_def precommits_inv_def proposal_inv_def)
qed (use inv in simp)

text \<open>What receiving parts and proposals leaves alone.\<close>

definition same_votes :: "'pk py_HeightData \<Rightarrow> 'pk py_HeightData \<Rightarrow> bool" where
  "same_votes h h' \<longleftrightarrow> hd_Height h' = hd_Height h \<and> hd_Round h' = hd_Round h \<and> MyChainID h' = MyChainID h \<and> PassStep h' = PassStep h
     \<and> hd_ShardInfo h' = hd_ShardInfo h \<and> ShardVotes h' = ShardVotes h \<and> AllValidatorSet h' = AllValidatorSet h
     \<and> Prevotes h' = Prevotes h \<and> Precommits h' = Precommits h"

lemma same_votes_refl [simp]: "same_votes h h"
  by (simp add: same_votes_def)

lemma same_votes_trans: "same_votes a b \<Longrightarrow> same_votes b c \<Longrightarrow> same_votes a c"
  by (simp add: same_votes_def)

lemma same_votes_inv:
  assumes "hd_inv l chain si h" "same_votes h h'" "proposal_inv h'" "hd_Block h \<noteq> None \<longrightarrow> hd_Block h' \<noteq> None"
  shows "hd_inv l chain si h'"
proof -
  have v: "my_verifier h' = my_verifier h" "my_votes h' = my_votes h" using assms(2) by (simp_all add: same_votes_def my_verifier_def my_votes_def)
  have "hd_static l chain si h' = hd_static l chain si h" "prevotes_inv l ws h' pvs = prevotes_inv l ws h pvs"
    "precommits_inv l ws h' pcs = precommits_inv l ws h pcs" for ws pvs pcs
    using assms(2) v by (simp_all add: same_votes_def hd_static_def prevotes_inv_def precommits_inv_def)
  moreover have "passed_inv h'" using assms(1,2,4) by (auto simp: hd_inv_def passed_inv_def same_votes_def)
  ultimately show ?thesis using assms(1,3) by (simp add: hd_inv_def)
qed

lemma hd_AddPart_cases:
  assumes "hd_AddPart l h p = Some (e, h')"
  shows "h' = h \<or> hd_PartSet h = None \<and> h' = h\<lparr>randomHeaderBuffer := randomHeaderBuffer h @ [p]\<rparr>
     \<or> (\<exists>ps ps'. hd_PartSet h = Some ps \<and> py_PartSet_AddPart (yl_hash l) ps p = Some (Inr ps')
          \<and> (h' = h\<lparr>hd_PartSet := Some ps'\<rparr> \<or> (\<exists>b. py_IsComplete ps' \<and> h' = h\<lparr>hd_PartSet := Some ps', hd_Block := b\<rparr>
              \<and> py_GenBlock (yl_wire l) (yl_hash l) ps' = Some (b, None))))"
proof (cases "hd_PartSet h")
  case None
  then show ?thesis using assms by (auto simp: hd_AddPart_def split: if_splits)
next
  case (Some ps)
  show ?thesis
  proof (cases "py_PartSet_AddPart (yl_hash l) ps p")
    case None
    then show ?thesis using assms Some by (auto simp: hd_AddPart_def split: if_splits)
  next
    case r: (Some r)
    show ?thesis
    proof (cases r)
      case (Inl x)
      then show ?thesis using assms Some r by (auto simp: hd_AddPart_def split: if_splits)
    next
      case (Inr ps')
      show ?thesis
      proof (cases "py_GenBlock (yl_wire l) (yl_hash l) ps'")
        case None
        then show ?thesis using assms Some r Inr by (auto simp: hd_AddPart_def Let_def split: if_splits)
      next
        case (Some g)
        then show ?thesis using assms \<open>hd_PartSet h = Some ps\<close> r Inr
          by (cases g) (auto simp: hd_AddPart_def Let_def split: if_splits option.split_asm)
      qed
    qed
  qed
qed

lemma complete_stays:
  assumes "py_wf_slots ps" "py_PartSet_AddPart H ps p = Some (Inr ps')"
  shows "py_wf_slots ps' \<and> \<not> py_IsComplete ps"
proof -
  have w: "py_wf_slots ps'" using py_offer_wf [OF assms(1), of H p] assms(2) by (simp add: py_offer_def)
  obtain i where i: "py_fits H ps p i" "ys_Parts ps ! i = None" using py_AddPart_cases [OF assms] by blast
  then have "None \<in> set (ys_Parts ps)" by (metis nth_mem py_parts.fits_bound)
  then show ?thesis using w py_complete_iff [OF assms(1)] by blast
qed

lemma GenBlock_complete: "py_GenBlock w H ps = Some (Some b, None) \<Longrightarrow> py_IsComplete ps"
  by (auto simp: py_GenBlock_def split: if_splits)

lemma hd_AddPart_keeps:
  assumes "proposal_inv h" "hd_AddPart l h p = Some (e, h')"
  shows "same_votes h h' \<and> proposal_inv h' \<and> (hd_Block h \<noteq> None \<longrightarrow> hd_Block h' = hd_Block h) \<and> hd_Proposal h' = hd_Proposal h"
proof -
  have filled: "py_wf_slots ps' \<and> hd_Block h = None" if "hd_PartSet h = Some ps" "py_PartSet_AddPart (yl_hash l) ps p = Some (Inr ps')" for ps ps'
    using complete_stays [OF _ that(2)] assms(1) that(1) by (auto simp: proposal_inv_def)
  from hd_AddPart_cases [OF assms(2)] show ?thesis
  proof (elim disjE exE conjE, goal_cases)
    case (3 ps ps')
    then show ?case using filled [OF 3(1,2)] assms(1) by (simp add: same_votes_def proposal_inv_def)
  next
    case (4 ps ps' b)
    then show ?case using filled [OF 4(1,2)] assms(1) by (simp add: same_votes_def proposal_inv_def)
  qed (use assms(1) in \<open>auto simp: same_votes_def proposal_inv_def\<close>)
qed

lemma replay_keeps:
  "proposal_inv h \<Longrightarrow> replay_buffer l h parts = Some h' \<Longrightarrow> same_votes h h' \<and> proposal_inv h' \<and> hd_Proposal h' = hd_Proposal h"
proof (induction parts arbitrary: h)
  case (Cons p parts)
  obtain e h1 where h1: "hd_AddPart l h p = Some (e, h1)" "replay_buffer l h1 parts = Some h'" using Cons.prems(2) by (auto simp: bind_eq_Some_conv)
  then show ?case using hd_AddPart_keeps [OF Cons.prems(1) h1(1)] Cons.IH [OF _ h1(2)] same_votes_trans by (metis (no_types, lifting))
qed simp

lemma AddProposal_inv:
  assumes inv: "hd_inv l chain si h" and add: "AddProposal l h p i = Some (e, h')"
  shows "hd_inv l chain si h'"
proof (cases "h' = h")
  case False
  have pr: "proposal_inv h" using inv by (simp add: hd_inv_def)
  obtain ps where c: "hd_Proposal h = None" "hd_Height h = ysh_Height (yo_Header p)" "hd_Round h = ysh_Round (yo_Header p)"
    "ysh_ChainID (yo_Header p) = MyChainID h" "py_NewPartSet (yo_Header p) (yo_BlockHeaderHash p) = Some ps"
    "replay_buffer l (h\<lparr>hd_Proposal := Some p, hd_PartSet := Some ps\<rparr>) (randomHeaderBuffer h) = Some h'"
    using add False by (auto simp: AddProposal_def bind_eq_Some_conv split: if_splits)
  have b: "hd_Block h = None" using pr c(1) by (auto simp: proposal_inv_def)
  then have "proposal_inv (h\<lparr>hd_Proposal := Some p, hd_PartSet := Some ps\<rparr>)"
    using py_wf_NewPartSet [OF c(5)] c(2,3,4) by (simp add: proposal_inv_def)
  from replay_keeps [OF this c(6)] have "same_votes h h'" "proposal_inv h'" by (simp_all add: same_votes_def)
  then show ?thesis using same_votes_inv [OF inv] b by blast
qed (use inv in simp)

lemma setKeys_fields: "setKeys l h keys c = (e, h') \<Longrightarrow> (e = None \<longrightarrow> (\<exists>v. NewVerifier (yl_key l) keys = Some v
      \<and> h' = h\<lparr>AllValidatorSet := AList.update c v (AllValidatorSet h)\<rparr>)) \<and> (e \<noteq> None \<longrightarrow> h' = h)"
  by (auto simp: setKeys_def split: option.splits)

lemma shard_loop_fields: "MyChainID (snd (shard_loop l ps h)) = MyChainID h \<and> hd_ShardInfo (snd (shard_loop l ps h)) = hd_ShardInfo h
    \<and> PassStep (snd (shard_loop l ps h)) = PassStep h"
  by (induction l ps h rule: shard_loop.induct) (auto simp: setKeys_def split: option.splits)

lemma shard_loop_other: "c \<notin> fst ` set ps \<Longrightarrow> map_of (AllValidatorSet (snd (shard_loop l ps h))) c = map_of (AllValidatorSet h) c
    \<and> map_of (ShardVotes (snd (shard_loop l ps h))) c = map_of (ShardVotes h) c"
  by (induction l ps h rule: shard_loop.induct) (auto simp: setKeys_def update_conv split: option.splits)

lemma shard_loop_mine:
  assumes "distinct (map fst ps)" "map_of (AllValidatorSet h) c = None" "map_of (AllValidatorSet (snd (shard_loop l ps h))) c = Some v"
  shows "\<exists>peers. map_of ps c = Some peers \<and> NewVerifier (yl_key l) (map Pubkey peers) = Some v
     \<and> map_of (ShardVotes (snd (shard_loop l ps h))) c = Some (sum_list (map peer_Vote peers))"
  using assms
proof (induction ps arbitrary: h)
  case (Cons p rest)
  obtain chain peers where p: "p = (chain, peers)" by (cases p)
  show ?case
  proof (cases "NewVerifier (yl_key l) (map Pubkey peers)")
    case None
    then show ?thesis using Cons.prems by (simp add: setKeys_def p)
  next
    case (Some w)
    let ?h = "h\<lparr>AllValidatorSet := AList.update chain w (AllValidatorSet h), ShardVotes := AList.update chain (sum_list (map peer_Vote peers)) (ShardVotes h)\<rparr>"
    have eq: "shard_loop l (p # rest) h = shard_loop l rest ?h" using Some by (simp add: setKeys_def p)
    show ?thesis
    proof (cases "c = chain")
      case True
      then have "c \<notin> fst ` set rest" using Cons.prems(1) by (simp add: p)
      from shard_loop_other [OF this, of l ?h] show ?thesis using Cons.prems(3) True Some unfolding eq by (simp add: update_conv p)
    next
      case False
      have "\<exists>peers. map_of rest c = Some peers \<and> NewVerifier (yl_key l) (map Pubkey peers) = Some v
          \<and> map_of (ShardVotes (snd (shard_loop l rest ?h))) c = Some (sum_list (map peer_Vote peers))"
        by (rule Cons.IH) (use Cons.prems False eq in \<open>simp_all add: update_conv\<close>)
      then show ?thesis unfolding eq using False by (simp add: p)
    qed
  qed
qed simp

lemma clearAll_inv:
  assumes "hd_static l chain si h" "good_weights (my_weights chain si)" "clearAll h = Some h'" "PassStep h = RoundStepNewHeight"
  shows "hd_inv l chain si h'"
proof -
  obtain v where v: "my_verifier h = Some v" using assms(1) unfolding hd_static_def by blast
  have size: "Verifier_Size v = int (length (my_weights chain si))" using static_size [OF assms(1) v] by (simp add: Verifier_Size_def)
  have "0 \<le> sum_list (my_weights chain si)" using weight_nonneg [OF assms(2), of "\<lambda>_. True"] by (simp add: weight_all)
  then have tot: "wrap32 (my_votes h) = sum_list (my_weights chain si)"
    using assms(1,2) by (intro wrap32_small [THEN trans]) (simp_all add: hd_static_def good_weights_def)
  obtain pv pc where n: "NewVoteSet (Verifier_Size v) (wrap32 (my_votes h)) = Some pv" "NewVoteSet (Verifier_Size v) (wrap32 (my_votes h)) = Some pc"
    "h' = h\<lparr>hd_Proposal := None, hd_Block := None, hd_PartSet := None, Prevotes := pv, Precommits := pc\<rparr>"
    using assms(3) v by (auto simp: clearAll_def clearPrevote_def clearPrecommit_def clearProposal_def bind_eq_Some_conv my_verifier_def my_votes_def)
  have "prevotes_inv l (my_weights chain si) h' []" "precommits_inv l (my_weights chain si) h' []"
    using vs_inv_new [OF n(1) [unfolded size tot] assms(2)] vs_inv_new [OF n(2) [unfolded size tot] assms(2)] n(3)
    by (simp_all add: prevotes_inv_def precommits_inv_def)
  moreover have "hd_static l chain si h' = hd_static l chain si h" by (simp add: n(3) hd_static_def my_verifier_def my_votes_def)
  moreover have "proposal_inv h'" "passed_inv h'" using assms(4) by (simp_all add: n(3) proposal_inv_def passed_inv_def round_steps)
  ultimately show ?thesis using assms(1) by (auto simp: hd_inv_def)
qed

lemma NewHeightData_inv:
  assumes "NewHeightData l chain height si = Some h" "distinct (map fst (py_PeerList si))" "good_weights (my_weights chain si)"
  shows "hd_inv l chain si h"
proof -
  let ?h0 = "\<lparr>hd_Height = height, hd_Round = 0, MyChainID = chain, PassStep = RoundStepNewHeight, hd_ShardInfo = si, ShardVotes = [],
        AllValidatorSet = [], hd_Proposal = None, Prevotes = nil_votes, Precommits = nil_votes, hd_PartSet = None, hd_Block = None,
        randomHeaderBuffer = []\<rparr>"
  let ?h1 = "snd (shard_loop l (py_PeerList si) ?h0)"
  obtain h2 where h2: "clearAll ?h1 = Some h2" "h = h2\<lparr>randomHeaderBuffer := []\<rparr>"
    using assms(1) by (auto simp: NewHeightData_def SetShardInfo_def Let_def)
  obtain v where v: "my_verifier ?h1 = Some v" using h2(1) by (auto simp: clearAll_def clearPrevote_def clearProposal_def my_verifier_def bind_eq_Some_conv)
  have f: "MyChainID ?h1 = chain" "hd_ShardInfo ?h1 = si" "PassStep ?h1 = RoundStepNewHeight" using shard_loop_fields [of l "py_PeerList si" ?h0] by simp_all
  have "map_of (AllValidatorSet ?h1) chain = Some v" using v by (simp add: my_verifier_def f(1))
  from shard_loop_mine [OF assms(2) _ this] obtain peers where p: "map_of (py_PeerList si) chain = Some peers"
    "NewVerifier (yl_key l) (map Pubkey peers) = Some v" "map_of (ShardVotes ?h1) chain = Some (sum_list (map peer_Vote peers))" by auto
  have "hd_static l chain si ?h1" using v p f by (simp add: hd_static_def my_peers_def my_votes_def)
  from clearAll_inv [OF this assms(3) h2(1) f(3)] have inv: "hd_inv l chain si h2" .
  show ?thesis by (rule same_votes_inv [OF inv]) (use inv in \<open>simp_all add: h2(2) same_votes_def hd_inv_def proposal_inv_def\<close>)
qed

lemma NextHeight_inv:
  assumes "hd_inv l chain si h" "good_weights (my_weights chain si)" "NextHeight h = Some h'"
  shows "hd_inv l chain si h'"
proof (rule clearAll_inv [OF _ assms(2) assms(3) [unfolded NextHeight_def]])
  let ?h = "h\<lparr>hd_Height := hd_Height h + 1, hd_Round := 0, PassStep := RoundStepNewHeight\<rparr>"
  have "hd_static l chain si ?h = hd_static l chain si h" by (simp add: hd_static_def my_verifier_def my_votes_def)
  then show "hd_static l chain si ?h" using assms(1) by (simp add: hd_inv_def)
qed simp

lemma PartSetFromBlock_wf:
  assumes "py_PartSetFromBlock w H b sz round = Some (b', ps)" "0 < sz"
  shows "py_wf_slots ps \<and> py_IsComplete ps"
proof -
  note e = py_PartSetFromBlock_eq [OF assms]
  obtain b1 hash where h: "py_Block_Hash (yw_time w) H b = (b1, hash)" by (metis surj_pair)
  have c: "ys_count ps = int (length (ys_Parts ps))" using assms(1) by (auto simp: py_PartSetFromBlock_def bind_eq_Some_conv Let_def h)
  have "filter taken (ys_Parts ps) = ys_Parts ps" unfolding e(2) by (auto simp: filter_map o_def)
  then show ?thesis using c e(1,2) by (simp add: py_wf_slots_def py_IsComplete_def)
qed

lemma own_proposal_inv:
  assumes "hd_inv l chain si h" "py_PartSetFromBlock w H b sz (hd_Round h) = Some (b', ps)" "0 < sz" "yh_Height (y_Header b) = hd_Height h"
    "yh_ChainID (y_Header b) = chain" "yo_Header pr = ys_Header ps"
  shows "hd_inv l chain si (own_proposal h b' ps pr)"
proof (rule same_votes_inv [OF assms(1)])
  have "MyChainID h = chain" using assms(1) by (simp add: hd_inv_def hd_static_def)
  then show "proposal_inv (own_proposal h b' ps pr)"
    using PartSetFromBlock_wf [OF assms(2,3)] py_PartSetFromBlock_eq(1) [OF assms(2,3)] assms(4-6) by (simp add: own_proposal_def proposal_inv_def)
qed (simp_all add: own_proposal_def same_votes_def)

lemma pass_step_inv: "hd_inv l chain si h \<Longrightarrow> passed_inv (h\<lparr>PassStep := s\<rparr>) \<Longrightarrow> hd_inv l chain si (h\<lparr>PassStep := s\<rparr>)"
proof -
  assume a: "hd_inv l chain si h" "passed_inv (h\<lparr>PassStep := s\<rparr>)"
  let ?h = "h\<lparr>PassStep := s\<rparr>"
  have "hd_static l chain si ?h = hd_static l chain si h" "prevotes_inv l ws ?h pvs = prevotes_inv l ws h pvs"
    "precommits_inv l ws ?h pcs = precommits_inv l ws h pcs" "proposal_inv ?h = proposal_inv h" for ws pvs pcs
    by (simp_all add: hd_static_def my_verifier_def my_votes_def prevotes_inv_def precommits_inv_def proposal_inv_def)
  then show "hd_inv l chain si ?h" using a by (simp add: hd_inv_def)
qed

lemma FinishProposal_inv:
  assumes "hd_inv l chain si h" "FinishProposal h = Some (ok, h')"
  shows "hd_inv l chain si h' \<and> (ok \<longrightarrow> PassStep h' \<ge> RoundStepPropose)"
proof -
  have "h' = h \<and> (ok \<longrightarrow> PassStep h' \<ge> RoundStepPropose) \<or> hd_Block h \<noteq> None \<and> h' = h\<lparr>PassStep := RoundStepPropose\<rparr>"
    using assms(2) by (auto simp: FinishProposal_def bind_eq_Some_conv split: if_splits)
  then show ?thesis using assms(1) by (auto intro!: pass_step_inv simp: passed_inv_def round_steps)
qed

lemma FinishPrevote_inv:
  assumes "hd_inv l chain si h" "FinishPrevote h = Some (ok, h')"
  shows "hd_inv l chain si h' \<and> (ok \<longrightarrow> PassStep h' \<ge> RoundStepPrevote)"
proof (cases "PassStep h \<ge> RoundStepPrevote")
  case False
  obtain ok1 h1 where f: "FinishProposal h = Some (ok1, h1)"
    "h' = h1 \<and> \<not> ok \<or> ok1 \<and> HasMaj23 (Prevotes h1) \<and> h' = h1\<lparr>PassStep := RoundStepPrevote\<rparr>"
    using assms(2) False by (auto simp: FinishPrevote_def bind_eq_Some_conv split: if_splits)
  note i = FinishProposal_inv [OF assms(1) f(1)]
  have "passed_inv (h1\<lparr>PassStep := RoundStepPrevote\<rparr>)" if "ok1" "HasMaj23 (Prevotes h1)"
    using i that by (auto simp: hd_inv_def passed_inv_def round_steps)
  then show ?thesis using i f(2) by (auto intro!: pass_step_inv)
qed (use assms in \<open>auto simp: FinishPrevote_def\<close>)

lemma FinishPrecommit_inv:
  assumes "hd_inv l chain si h" "FinishPrecommit h = Some (ok, h')"
  shows "hd_inv l chain si h' \<and> (ok \<longrightarrow> PassStep h' \<ge> RoundStepPrecommit)"
proof (cases "PassStep h \<ge> RoundStepPrecommit")
  case False
  obtain ok1 h1 where f: "FinishPrevote h = Some (ok1, h1)"
    "h' = h1 \<and> \<not> ok \<or> ok1 \<and> HasMaj23 (Precommits h1) \<and> h' = h1\<lparr>PassStep := RoundStepPrecommit\<rparr>"
    using assms(2) False by (auto simp: FinishPrecommit_def bind_eq_Some_conv split: if_splits)
  note i = FinishPrevote_inv [OF assms(1) f(1)]
  have "passed_inv (h1\<lparr>PassStep := RoundStepPrecommit\<rparr>)" if "ok1" "HasMaj23 (Precommits h1)"
    using i that by (auto simp: hd_inv_def passed_inv_def round_steps)
  then show ?thesis using i f(2) by (auto intro!: pass_step_inv)
qed (use assms in \<open>auto simp: FinishPrecommit_def\<close>)

lemma reach_inv:
  assumes "hd_reach l chain si h" "distinct (map fst (py_PeerList si))" "good_weights (my_weights chain si)"
  shows "hd_inv l chain si h"
  using assms(1)
proof (induction rule: hd_reach.induct)
  case (new height h)
  then show ?case by (rule NewHeightData_inv [OF _ assms(2,3)])
next
  case (next_height h h')
  then show ?case using NextHeight_inv assms(3) by blast
next
  case (part h p e h')
  have "proposal_inv h" using part.IH by (simp add: hd_inv_def)
  from hd_AddPart_keeps [OF this part.hyps(2)] show ?case using same_votes_inv [OF part.IH] by auto
next
  case (proposal h pr i e h')
  then show ?case using AddProposal_inv by blast
next
  case (own h b sz b' ps pr)
  then show ?case using own_proposal_inv by blast
next
  case (prevote h pv e h')
  then show ?case using AddPrevote_inv assms(3) by blast
next
  case (precommit h pc e h')
  then show ?case using AddPrecommit_inv assms(3) by blast
qed (use FinishProposal_inv FinishPrevote_inv FinishPrecommit_inv in blast)+

section \<open>Certificates\<close>

text \<open>The verdict of a rejecting precommit is \<open>CodeTypeAbort\<close>, as \<open>SetOK\<close> writes it.\<close>

definition plain_codes :: "'pk py_HeightData \<Rightarrow> bool" where
  "plain_codes h \<longleftrightarrow> list_all (\<lambda>s. case s of None \<Rightarrow> True | Some v \<Rightarrow> py_Precommit_IsOK v \<or> yk_Code v = py_CodeTypeAbort) (votes (Precommits h))"

lemma certificate_verifies:
  assumes inv: "hd_inv l chain si h" and good: "good_weights (my_weights chain si)" and hom: "bls_homomorphic (yl_bls l)"
    and pr: "hd_Proposal h = Some p" and maj: "HasMaj23 (Precommits h)" and plain: "plain_codes h"
  shows "\<exists>pa ver bv. GenerateAggregatePrecommitSignature l h = Some pa \<and> my_verifier h = Some ver \<and> ya_ValidatorBitVector pa = Some bv
     \<and> py_VerifySignatures (yl_bls l) (yl_precommit l) pa (Some ver) (Byte (Some bv)) = Some True
     \<and> (ya_BlockHeaderHash pa, py_PrecommitAggregated_IsOK pa) = py_GetMaj23 (Precommits h)
     \<and> 3 * weight (bv_bit bv) (my_weights chain si) > 2 * sum_list (my_weights chain si)"
proof -
  let ?ws = "my_weights chain si"
  obtain vts where vts: "precommits_inv l ?ws h vts" and st: "hd_static l chain si h" using inv by (auto simp: hd_inv_def)
  then have vs: "vs_inv precommit_ops ?ws vts (Precommits h)" by (simp add: precommits_inv_def)
  obtain ver where ver: "my_verifier h = Some ver" using st unfolding hd_static_def by blast
  obtain hash ok where gm: "py_GetMaj23 (Precommits h) = (hash, ok)" by (metis surj_pair)
  have hp: "ysh_Height (yo_Header p) = hd_Height h" "ysh_Round (yo_Header p) = hd_Round h"
    using inv pr by (simp_all add: hd_inv_def proposal_inv_def)
  let ?code = "if ok then py_CodeTypeOK else py_CodeTypeAbort"
  let ?pc = "(py_NewPrecommit (hd_Height h) (hd_Round h) hash (-1))\<lparr>yk_Code := ?code\<rparr>"
  have each: "Verify (yl_bls l) ver (GetSignature precommit_ops v) (py_Precommit_SignBytes (yl_precommit l) ?pc) (int i) = Some True"
    if i: "i < length ?ws" "first_vote precommit_ops vts i = Some v" "GetBlockHeaderHash precommit_ops v = hash" "IsOK precommit_ops v = ok" for i v
  proof -
    have v: "v \<in> set vts" "yk_ValidatorIndex v = int i" using first_vote_index [OF i(2)] by (simp_all add: precommit_ops_def)
    have "votes (Precommits h) ! i = Some v" "i < length (votes (Precommits h))" using vs i(1,2) by (simp_all add: vs_inv_def)
    then have code: "yk_Code v = ?code" using plain i(4) by (auto simp: plain_codes_def list_all_length precommit_ops_def py_Precommit_IsOK_def)
    have f: "yk_VoteType v = VoteTypePrecommit" "yk_Height v = hd_Height h" "yk_Round v = hd_Round h" "yk_BlockHeaderHash v = hash"
      using vts v(1) i(3) by (simp_all add: precommits_inv_def precommit_ops_def)
    have "py_Precommit_SignBytes (yl_precommit l) ?pc = py_Precommit_SignBytes (yl_precommit l) v"
      by (simp add: py_Precommit_SignBytes_def py_NewPrecommit_def f code)
    moreover have "Verify (yl_bls l) ver (yk_Signature v) (py_Precommit_SignBytes (yl_precommit l) v) (int i) = Some True"
      using vts v ver by (fastforce simp: precommits_inv_def)
    ultimately show ?thesis by (simp add: precommit_ops_def)
  qed
  have size: "length (publicKeys ver) = length ?ws" using static_size [OF st ver] by simp
  have m: "has_mj23 (Precommits h)" using maj by (simp add: HasMaj23_def)
  obtain sig bv where sig: "GetMaj23AggreSig (yl_bls l) precommit_ops (Precommits h) = Some (sig, Byte (Some bv))" "wf_bv bv"
    "VerifyAggregateSignature (yl_bls l) ver sig (py_Precommit_SignBytes (yl_precommit l) ?pc) (Byte (Some bv)) = Some True"
    "\<forall>i < length ?ws. bv_bit bv i \<longleftrightarrow> voted precommit_ops vts hash ok i"
    using maj23_certificate [OF vs good m hom size gm each] by blast
  let ?pa = "\<lparr>ya_VoteType = VoteTypePrecommitAggregated, ya_Code = ?code, ya_ValidatorBitVector = Some bv, ya_Header = yo_Header p,
      ya_BlockHeaderHash = hash, ya_AggregatedSignatures = sig\<rparr>"
  have gen: "GenerateAggregatePrecommitSignature l h = Some ?pa"
    by (simp add: GenerateAggregatePrecommitSignature_def gm sig(1) pr py_NewPrecommitAggregated_def NewBitArrayFromByte_Byte [OF sig(2)]
        py_PrecommitAggregated_SetCode_def)
  have "py_VerifySignatures (yl_bls l) (yl_precommit l) ?pa (Some ver) (Byte (Some bv)) = Some True"
    using sig(3) hp by (simp add: py_VerifySignatures_def py_PrecommitAggregated_Precommit_def)
  moreover have "majority precommit_ops ?ws vts hash ok" using vs m gm by (auto simp: vs_inv_def py_GetMaj23_def)
  then have "3 * weight (bv_bit bv) ?ws > 2 * sum_list ?ws"
    using weight_cong [of ?ws "bv_bit bv" "voted precommit_ops vts hash ok"] sig(4) unfolding majority_def by simp
  ultimately show ?thesis using gen ver gm by (auto simp: py_PrecommitAggregated_IsOK_def code_types)
qed

section \<open>The block of a proposal\<close>

definition part_here :: "'pk py_HeightData \<Rightarrow> py_Part \<Rightarrow> bool" where
  "part_here h p \<longleftrightarrow> hd_Height h = yp_Height p \<and> hd_Round h = yp_Round p \<and> yp_ChainID p = MyChainID h"

text \<open>Before the proposal the parts of the height are buffered.\<close>

lemma parts_wait:
  "hd_PartSet h = None \<Longrightarrow> replay_buffer l h parts = Some (h\<lparr>randomHeaderBuffer := randomHeaderBuffer h @ filter (part_here h) parts\<rparr>)"
proof (induction parts arbitrary: h)
  case (Cons p parts)
  let ?h = "if part_here h p then h\<lparr>randomHeaderBuffer := randomHeaderBuffer h @ [p]\<rparr> else h"
  have "\<exists>e. hd_AddPart l h p = Some (e, ?h)" using Cons.prems by (simp add: hd_AddPart_def part_here_def)
  moreover have "part_here ?h = part_here h" "hd_PartSet ?h = None" using Cons.prems by (auto simp: part_here_def [abs_def])
  ultimately show ?case using Cons.IH [of ?h] by auto
qed simp

text \<open>After it they go to the part set, and the last one gives the block.\<close>

definition collecting :: "('pk, 'sg) py_lib \<Rightarrow> py_PartSet \<Rightarrow> py_Block \<Rightarrow> py_Part list \<Rightarrow> 'pk py_HeightData \<Rightarrow> bool" where
  "collecting l ps0 b parts h \<longleftrightarrow> hd_PartSet h = Some (foldl (py_offer (yl_hash l)) ps0 parts)
     \<and> (py_IsComplete (foldl (py_offer (yl_hash l)) ps0 parts) \<longrightarrow> hd_Block h = Some b)"

lemma part_collected:
  assumes ps0: "py_wf_slots ps0" "ysh_Root (ys_Header ps0) \<noteq> []" and h: "collecting l ps0 b parts h"
    and p: "py_Part_ValidateBasic p = Some (Inr ())"
    and gen: "py_IsComplete (foldl (py_offer (yl_hash l)) ps0 (parts @ filter (part_here h) [p])) \<Longrightarrow>
      py_GenBlock (yl_wire l) (yl_hash l) (foldl (py_offer (yl_hash l)) ps0 (parts @ filter (part_here h) [p])) = Some (Some b, None)"
  shows "\<exists>e h'. hd_AddPart l h p = Some (e, h') \<and> collecting l ps0 b (parts @ filter (part_here h) [p]) h'
     \<and> part_here h' = part_here h \<and> hd_Proposal h' = hd_Proposal h \<and> PassStep h' = PassStep h"
proof (cases "part_here h p")
  case False
  then show ?thesis using h by (auto simp: hd_AddPart_def part_here_def)
next
  case True
  let ?H = "yl_hash l" let ?ps = "foldl (py_offer ?H) ps0 parts"
  have wf: "py_wf_slots ?ps" "ysh_Root (ys_Header ?ps) \<noteq> []"
    using py_parts.deliver_ok [OF ps0(1), of ?H parts] py_offers_keep [OF ps0(1), of ?H parts] ps0(2) by simp_all
  have s: "hd_PartSet h = Some ?ps" using h by (simp add: collecting_def)
  obtain r where r: "py_PartSet_AddPart ?H ?ps p = Some r" using py_AddPart_total [OF wf p, of ?H] by blast
  show ?thesis
  proof (cases r)
    case (Inl e)
    then have "py_offer ?H ?ps p = ?ps" using r by (simp add: py_offer_def)
    then show ?thesis using True s r Inl h by (auto simp: hd_AddPart_def part_here_def collecting_def)
  next
    case (Inr ps')
    then have o: "py_offer ?H ?ps p = ps'" using r by (simp add: py_offer_def)
    show ?thesis
    proof (cases "py_IsComplete ps'")
      case c: True
      have "py_GenBlock (yl_wire l) ?H ps' = Some (Some b, None)" using gen True c o by simp
      then show ?thesis using True s r Inr c o by (auto simp: hd_AddPart_def part_here_def [abs_def] collecting_def Let_def)
    next
      case c: False
      then show ?thesis using True s r Inr o by (auto simp: hd_AddPart_def part_here_def [abs_def] collecting_def Let_def)
    qed
  qed
qed

lemma parts_collected:
  assumes "py_wf_slots ps0" "ysh_Root (ys_Header ps0) \<noteq> []" "collecting l ps0 b parts h"
    and "list_all (\<lambda>p. py_Part_ValidateBasic p = Some (Inr ())) rest" "list_all good (parts @ rest)"
    and gen: "\<And>ps. list_all good ps \<Longrightarrow> py_IsComplete (foldl (py_offer (yl_hash l)) ps0 ps) \<Longrightarrow>
      py_GenBlock (yl_wire l) (yl_hash l) (foldl (py_offer (yl_hash l)) ps0 ps) = Some (Some b, None)"
  shows "\<exists>h'. replay_buffer l h rest = Some h' \<and> collecting l ps0 b (parts @ filter (part_here h) rest) h'
     \<and> part_here h' = part_here h \<and> hd_Proposal h' = hd_Proposal h \<and> PassStep h' = PassStep h"
  using assms(3-5)
proof (induction rest arbitrary: parts h)
  case (Cons p rest)
  let ?parts = "parts @ filter (part_here h) [p]"
  have g: "list_all good ?parts" "list_all good (?parts @ rest)" using Cons.prems(3) by auto
  obtain e h1 where h1: "hd_AddPart l h p = Some (e, h1)" "collecting l ps0 b ?parts h1" "part_here h1 = part_here h"
    "hd_Proposal h1 = hd_Proposal h" "PassStep h1 = PassStep h"
    using part_collected [OF assms(1,2) Cons.prems(1) _ gen [OF g(1)]] Cons.prems(2) by auto
  obtain h' where "replay_buffer l h1 rest = Some h'" "collecting l ps0 b (?parts @ filter (part_here h1) rest) h'"
    "part_here h' = part_here h1" "hd_Proposal h' = hd_Proposal h1" "PassStep h' = PassStep h1"
    using Cons.IH [OF h1(2) _ g(2)] Cons.prems(2) by auto
  then show ?case using h1 by (auto split: if_splits)
qed simp

lemma proposal_starts:
  assumes sent: "py_sent (yl_wire l) (yl_hash l) b sz (hd_Round h) b' sent" "py_Block_ProtoBytes (yl_wire l) b \<noteq> []"
    and pr: "yo_Header pr = ys_Header sent" "py_Proposal_ValidateBasic pr = Inr ()"
  shows "\<exists>ps0. py_NewPartSet (ys_Header sent) (ys_BlockHeaderHash sent) = Some ps0 \<and> py_wf_slots ps0 \<and> ysh_Root (ys_Header ps0) \<noteq> [] \<and> \<not> py_IsComplete ps0"
proof -
  have s: "py_PartSetFromBlock (yl_wire l) (yl_hash l) b sz (hd_Round h) = Some (b', sent)" "0 < sz" using sent by (simp_all add: py_sent_def)
  have "chunks (nat sz) (py_Block_ProtoBytes (yl_wire l) b) \<noteq> []" using concat_chunks [of "nat sz" "py_Block_ProtoBytes (yl_wire l) b"] s(2) sent(2) by auto
  then have t: "0 < ysh_Total (ys_Header sent)" by (simp add: py_PartSetFromBlock_eq [OF s])
  have "length (ysh_Root (ys_Header sent)) = hash_size"
    using pr by (auto simp: py_Proposal_ValidateBasic_def py_PartSetHeader_ValidateBasic_def split: if_splits)
  then show ?thesis using t by (auto simp: py_NewPartSet_def py_wf_slots_def py_IsComplete_def hash_size_def)
qed

lemma AddProposal_accepts:
  assumes "hd_Proposal h = None" "ysh_Height (yo_Header pr) = hd_Height h" "ysh_Round (yo_Header pr) = hd_Round h" "ysh_ChainID (yo_Header pr) = MyChainID h"
    and "my_verifier h = Some ver" "Verify (yl_bls l) ver (yo_Signature pr) (py_Proposal_SignBytes (yl_proposal l) pr) (yo_ProposerIndex pr) = Some True"
    and "py_NewPartSet (yo_Header pr) (yo_BlockHeaderHash pr) = Some ps"
    and "replay_buffer l (h\<lparr>hd_Proposal := Some pr, hd_PartSet := Some ps\<rparr>) (randomHeaderBuffer h) = Some h'"
  shows "AddProposal l h pr (yo_ProposerIndex pr) = Some (None, h')"
  using assms by (simp add: AddProposal_def)

section \<open>A concrete height\<close>

definition demo_lib :: "(string, string) py_lib" where
  "demo_lib = \<lparr>yl_bls = letter_bls, yl_key = Some, yl_hash = py_sample_hash,
     yl_wire = \<lparr>yw_time = py_sample_time, yw_enc = (\<lambda>_. [1, 2, 3]), yw_dec = (\<lambda>_. Some (py_Block_ToProto py_sample))\<rparr>,
     yl_proposal = (\<lambda>_. [1]), yl_prevote = (\<lambda>p. [ucast (pbv_Code p)]), yl_precommit = (\<lambda>p. [ucast (pbk_Code p)])\<rparr>"

definition demo_info :: py_ShardInfo where
  "demo_info = \<lparr>py_PeerList = [(''a'', [NewPeer ''x'' [] ''a'' 1]), (''b'', [NewPeer ''y'' [] ''b'' 1])], RelatedShards = [(''b'', True)],
     PeerRelatedMap = [], ShardIdentity = 1, KeyRangeMap = []\<rparr>"

definition demo_new :: "string py_HeightData" where
  "demo_new = the (NewHeightData demo_lib ''a'' 1 demo_info)"

definition demo_parts :: py_PartSet where
  "demo_parts = (let h = \<lparr>ysh_Height = 1, ysh_Round = 0, ysh_Total = 2, ysh_Root = digest 24, ysh_ChainID = ''a''\<rparr>
     in \<lparr>ys_Header = h, ys_Parts = map (\<lambda>i. Some (py_honest_part py_sample_hash h [[1, 2], [3]] i)) [0, 1], ys_count = 2,
          ys_BlockHeaderHash = digest 22\<rparr>)"

definition demo_hashed :: py_Block where
  "demo_hashed = fst (py_Block_Hash py_sample_time py_sample_hash py_sample)"

definition demo_proposal :: py_Proposal where
  "demo_proposal = (py_NewProposal (ys_Header demo_parts) 0 (digest 22))\<lparr>yo_Signature := [CHR ''a'', char_of_byte 1]\<rparr>"

definition demo_prevote :: py_Prevote where
  "demo_prevote = (py_NewPrevote 1 0 (digest 22) 0)\<lparr>yv_Signature := [CHR ''a'', char_of_byte 1]\<rparr>"

definition demo_precommit :: py_Precommit where
  "demo_precommit = (py_NewPrecommit 1 0 (digest 22) 0)\<lparr>yk_Signature := [CHR ''a'', char_of_byte 1]\<rparr>"

definition demo_own :: "string py_HeightData" where
  "demo_own = own_proposal demo_new demo_hashed demo_parts demo_proposal"

definition demo_voted :: "string py_HeightData" where
  "demo_voted = snd (the (AddPrecommit demo_lib (snd (the (AddPrevote demo_lib demo_own demo_prevote))) demo_precommit))"

definition demo_passed :: "string py_HeightData" where
  "demo_passed = snd (the (FinishPrecommit demo_voted))"

lemma demo_good: "good_weights (my_weights ''a'' demo_info)" "distinct (map fst (py_PeerList demo_info))" "my_weights ''a'' demo_info = [1]"
  by (simp_all add: demo_info_def my_peers_def NewPeer_def good_weights_def)

lemma demo_chunks: "chunks (nat 2) [1, 2, 3 :: byte] = [[1, 2], [3]]" "HashFromByteSlices py_sample_hash [[1, 2], [3]] = digest 24"
  by code_simp+

lemma demo_sent: "py_PartSetFromBlock (yl_wire demo_lib) py_sample_hash py_sample 2 0 = Some (demo_hashed, demo_parts)"
proof -
  have h: "py_Block_Hash (yw_time (yl_wire demo_lib)) py_sample_hash py_sample = (demo_hashed, digest 22)"
    using py_sample_digest by (simp add: demo_hashed_def demo_lib_def prod_eq_iff)
  have b: "py_Block_ProtoBytes (yl_wire demo_lib) py_sample = [1, 2, 3]" by (simp add: py_Block_ProtoBytes_def demo_lib_def)
  have f: "yh_Height (y_Header py_sample) = 1" "yh_ChainID (y_Header py_sample) = ''a''" by (simp_all add: py_sample_def)
  show ?thesis
    by (simp add: py_PartSetFromBlock_def b h f SplitByteArray_chunks demo_chunks [simplified] ProofsFromByteSlices_eq demo_parts_def Let_def py_honest_part_def)
qed

lemma demo_new: "NewHeightData demo_lib ''a'' 1 demo_info = Some demo_new"
  by code_simp

lemma demo_votes:
  "py_Precommit_ValidateBasic demo_precommit = Inr ()"
  "AddPrevote demo_lib demo_own demo_prevote = Some (None, snd (the (AddPrevote demo_lib demo_own demo_prevote)))"
  "AddPrecommit demo_lib (snd (the (AddPrevote demo_lib demo_own demo_prevote))) demo_precommit = Some (None, demo_voted)"
  "FinishPrecommit demo_voted = Some (True, demo_passed)" "plain_codes demo_passed" "PassStep demo_passed = RoundStepPrecommit"
  by code_simp+

lemma demo_start: "hd_Height demo_new = 1" "hd_Round demo_new = 0"
  by code_simp+

lemma demo_reach: "hd_reach demo_lib ''a'' demo_info demo_voted"
proof -
  have H: "yl_hash demo_lib = py_sample_hash" by (simp add: demo_lib_def)
  have f: "yh_Height (y_Header py_sample) = 1" "yh_ChainID (y_Header py_sample) = ''a''" by (simp_all add: py_sample_def)
  have sent: "py_PartSetFromBlock (yl_wire demo_lib) (yl_hash demo_lib) py_sample 2 (hd_Round demo_new) = Some (demo_hashed, demo_parts)"
    unfolding H demo_start by (rule demo_sent)
  have pr: "yo_Header demo_proposal = ys_Header demo_parts" by (simp add: demo_proposal_def py_NewProposal_def)
  have "hd_reach demo_lib ''a'' demo_info demo_own" unfolding demo_own_def
    by (rule hd_reach.own [OF hd_reach.new [OF demo_new] sent _ _ _ pr]) (simp_all add: f demo_start)
  from hd_reach.precommit [OF hd_reach.prevote [OF this demo_votes(2)] demo_votes(1,3)] show ?thesis .
qed

definition demo_part :: "nat \<Rightarrow> py_Part" where
  "demo_part i = py_honest_part py_sample_hash (ys_Header demo_parts) [[1, 2], [3]] i"

lemma demo_part_binding: "i < 2 \<Longrightarrow> py_part_binding py_sample_hash [[1, 2], [3]] (demo_part i)"
proof -
  assume i: "i < 2"
  have t: "tree_inputs py_sample_hash [[1, 2], [3]] \<subseteq> set py_sample_table" by code_simp
  have "no_collision py_sample_hash [[1, 2], [3]] (honest_proof py_sample_hash [[1, 2], [3]] i) ([[1, 2], [3]] ! i)"
    unfolding no_collision_def
    by (intro conjI allI py_sample_hash_length py_sample_inj) (use t honest_inputs [of i "[[1, 2], [3]]" py_sample_hash] i in auto)
  then show ?thesis by (simp add: demo_part_def py_part_binding_def py_honest_part_def)
qed

lemma demo_part_valid: "py_Part_ValidateBasic (demo_part 0) = Some (Inr ())" "py_Part_ValidateBasic (demo_part 1) = Some (Inr ())"
  by code_simp+

lemma maj23_weight:
  assumes "vs_inv ops ws vts vs" "HasMaj23 vs"
  shows "2 * sum_list ws < 3 * weight (voted ops vts (fst (py_GetMaj23 vs)) (snd (py_GetMaj23 vs))) ws"
proof -
  have "majority ops ws vts (fst (py_GetMaj23 vs)) (snd (py_GetMaj23 vs))" using assms by (simp add: vs_inv_def HasMaj23_def py_GetMaj23_def)
  then show ?thesis unfolding majority_def by linarith
qed

section \<open>Properties\<close>

text \<open>
  C6: a replica passes a step only with its evidence. In whatever order proposals, parts, votes
  and the checks of the steps come, a replica that passed the proposal has a proposal for its
  height, round and chain with all parts and the block; one that passed the prevotes holds prevotes
  of its height and round, each with a valid signature of its validator, whose majority verdict has
  more than two thirds of the weight; and the same for the precommits.
\<close>

theorem passed_steps:
  assumes "hd_reach l chain si h" "distinct (map fst (py_PeerList si))" "good_weights (my_weights chain si)"
  shows "(PassStep h \<ge> RoundStepPropose \<longrightarrow> (\<exists>p ps b. hd_Proposal h = Some p \<and> hd_PartSet h = Some ps \<and> hd_Block h = Some b
       \<and> py_IsComplete ps \<and> ysh_Height (yo_Header p) = hd_Height h \<and> ysh_Round (yo_Header p) = hd_Round h \<and> ysh_ChainID (yo_Header p) = chain))
   \<and> (PassStep h \<ge> RoundStepPrevote \<longrightarrow> (\<exists>ver vts hash ok. my_verifier h = Some ver \<and> py_GetMaj23 (Prevotes h) = (hash, ok)
       \<and> 3 * weight (voted prevote_ops vts hash ok) (my_weights chain si) > 2 * sum_list (my_weights chain si)
       \<and> (\<forall>v \<in> set vts. yv_Height v = hd_Height h \<and> yv_Round v = hd_Round h
            \<and> Verify (yl_bls l) ver (yv_Signature v) (py_Prevote_SignBytes (yl_prevote l) v) (yv_ValidatorIndex v) = Some True)))
   \<and> (PassStep h \<ge> RoundStepPrecommit \<longrightarrow> (\<exists>ver vts hash ok. my_verifier h = Some ver \<and> py_GetMaj23 (Precommits h) = (hash, ok)
       \<and> 3 * weight (voted precommit_ops vts hash ok) (my_weights chain si) > 2 * sum_list (my_weights chain si)
       \<and> (\<forall>v \<in> set vts. yk_Height v = hd_Height h \<and> yk_Round v = hd_Round h
            \<and> Verify (yl_bls l) ver (yk_Signature v) (py_Precommit_SignBytes (yl_precommit l) v) (yk_ValidatorIndex v) = Some True)))"
proof (intro conjI impI, goal_cases)
  case 1
  then show ?case using reach_inv [OF assms] by (auto simp: hd_inv_def hd_static_def proposal_inv_def passed_inv_def)
next
  case 2
  then have m: "HasMaj23 (Prevotes h)" using reach_inv [OF assms] by (simp add: hd_inv_def passed_inv_def)
  obtain ver vts where v: "my_verifier h = Some ver" "prevotes_inv l (my_weights chain si) h vts"
    using reach_inv [OF assms] unfolding hd_inv_def hd_static_def by blast
  then have "vs_inv prevote_ops (my_weights chain si) vts (Prevotes h)" by (simp add: prevotes_inv_def)
  from maj23_weight [OF this m] show ?case using v by (cases "py_GetMaj23 (Prevotes h)") (auto simp: prevotes_inv_def intro!: exI [of _ vts])
next
  case 3
  then have m: "HasMaj23 (Precommits h)" using reach_inv [OF assms] by (simp add: hd_inv_def passed_inv_def)
  obtain ver vts where v: "my_verifier h = Some ver" "precommits_inv l (my_weights chain si) h vts"
    using reach_inv [OF assms] unfolding hd_inv_def hd_static_def by blast
  then have "vs_inv precommit_ops (my_weights chain si) vts (Precommits h)" by (simp add: precommits_inv_def)
  from maj23_weight [OF this m] show ?case using v by (cases "py_GetMaj23 (Precommits h)") (auto simp: precommits_inv_def intro!: exI [of _ vts])
qed

theorem passed_steps_witness:
  "\<exists>p ps b. hd_Proposal demo_passed = Some p \<and> hd_PartSet demo_passed = Some ps \<and> hd_Block demo_passed = Some b \<and> py_IsComplete ps
     \<and> ysh_Height (yo_Header p) = hd_Height demo_passed"
proof -
  have "hd_reach demo_lib ''a'' demo_info demo_passed" by (rule hd_reach.finish_precommit [OF demo_reach demo_votes(4)])
  from passed_steps [OF this demo_good(2,1)] show ?thesis by (auto simp: demo_votes(6) round_steps)
qed



text \<open>
  C8: the proposed block arrives. A replica that is at the height, round and chain of an honest
  block and has no proposal yet gets its parts in any order, some before and some after the
  proposal, repeated and mixed with validated parts of anyone else; it neither panics nor rejects
  the proposal, ends up with the very block the proposer hashed and passes the proposal step.
\<close>

theorem proposed_block_arrives:
  assumes sent: "py_sent (yl_wire l) (yl_hash l) b sz (hd_Round h) b' sent" "py_Block_ProtoBytes (yl_wire l) b \<noteq> []"
    and here: "yh_Height (y_Header b) = hd_Height h" "yh_ChainID (y_Header b) = MyChainID h"
    and fresh: "hd_Proposal h = None" "hd_PartSet h = None"
    and pr: "yo_Header pr = ys_Header sent" "yo_BlockHeaderHash pr = ys_BlockHeaderHash sent" "py_Proposal_ValidateBasic pr = Inr ()"
    and sig: "my_verifier h = Some ver" "Verify (yl_bls l) ver (yo_Signature pr) (py_Proposal_SignBytes (yl_proposal l) pr) (yo_ProposerIndex pr) = Some True"
    and valid: "list_all (\<lambda>p. py_Part_ValidateBasic p = Some (Inr ())) (randomHeaderBuffer h @ early @ late)"
    and bind: "list_all (py_part_binding (yl_hash l) (chunks (nat sz) (py_Block_ProtoBytes (yl_wire l) b))) (randomHeaderBuffer h @ early @ late)"
    and all: "set (ys_Parts sent) \<subseteq> Some ` set (early @ late)"
  shows "\<exists>h1 h2 h3 h4. replay_buffer l h early = Some h1 \<and> AddProposal l h1 pr (yo_ProposerIndex pr) = Some (None, h2)
     \<and> replay_buffer l h2 late = Some h3 \<and> hd_Block h3 = Some b' \<and> FinishProposal h3 = Some (True, h4)"
proof -
  let ?H = "yl_hash l" let ?f = "filter (part_here h)"
  let ?h1 = "h\<lparr>randomHeaderBuffer := randomHeaderBuffer h @ ?f early\<rparr>"
  obtain ps0 where ps0: "py_NewPartSet (ys_Header sent) (ys_BlockHeaderHash sent) = Some ps0" "py_wf_slots ps0"
    "ysh_Root (ys_Header ps0) \<noteq> []" "\<not> py_IsComplete ps0" using proposal_starts [OF sent pr(1,3)] by blast
  let ?h = "?h1\<lparr>hd_Proposal := Some pr, hd_PartSet := Some ps0\<rparr>"
  have at: "part_here ?h = part_here h" by (auto simp: part_here_def [abs_def])
  have c: "collecting l ps0 b' [] ?h" using ps0(4) by (simp add: collecting_def)
  let ?good = "py_part_binding ?H (chunks (nat sz) (py_Block_ProtoBytes (yl_wire l) b))"
  note gen = py_rebuilt [OF sent(1) ps0(1)]
  obtain h2 where h2: "replay_buffer l ?h (randomHeaderBuffer ?h1) = Some h2"
    "collecting l ps0 b' (?f (randomHeaderBuffer ?h1)) h2" "part_here h2 = part_here h" "hd_Proposal h2 = Some pr"
    using parts_collected [OF ps0(2,3) c, of "randomHeaderBuffer ?h1" ?good] gen valid bind by (auto simp: at list_all_iff)
  obtain h3 where h3: "replay_buffer l h2 late = Some h3"
    "collecting l ps0 b' (?f (randomHeaderBuffer ?h1) @ ?f late) h3" "hd_Proposal h3 = Some pr"
    using parts_collected [OF ps0(2,3) h2(2), of late ?good] gen valid bind h2(3,4) by (auto simp: list_all_iff)
  have s: "py_PartSetFromBlock (yl_wire l) ?H b sz (hd_Round h) = Some (b', sent)" "0 < sz" using sent(1) by (simp_all add: py_sent_def)
  note hdr = py_PartSetFromBlock_eq [OF s]
  have "part_here h p" if "Some p \<in> set (ys_Parts sent)" for p
    using that here by (auto simp: hdr(1,2) py_honest_part_def part_here_def)
  then have "set (ys_Parts sent) \<subseteq> Some ` set (?f (randomHeaderBuffer ?h1) @ ?f late)" using all by fastforce
  from py_sent_completes [OF sent(1) ps0(1) this] have full: "hd_Block h3 = Some b'" "\<exists>ps. hd_PartSet h3 = Some ps \<and> py_IsComplete ps"
    using h3(2) by (auto simp: collecting_def)
  have "AddProposal l ?h1 pr (yo_ProposerIndex pr) = Some (None, h2)"
    by (rule AddProposal_accepts [where ps = ps0]) (use fresh here pr(1,2) sig ps0(1) h2(1) in \<open>simp_all add: hdr(1) my_verifier_def\<close>)
  moreover have "\<exists>h4. FinishProposal h3 = Some (True, h4)" using full h3(3) by (auto simp: FinishProposal_def)
  ultimately show ?thesis using parts_wait [OF fresh(2), of l early] h3(1) full(1) by blast
qed

theorem proposed_block_arrives_witness:
  "\<exists>h1 h2 h3 h4. replay_buffer demo_lib demo_new [demo_part 1] = Some h1 \<and> AddProposal demo_lib h1 demo_proposal 0 = Some (None, h2)
     \<and> replay_buffer demo_lib h2 [demo_part 0] = Some h3 \<and> hd_Block h3 = Some demo_hashed \<and> FinishProposal h3 = Some (True, h4)"
proof -
  have H: "yl_hash demo_lib = py_sample_hash" by (simp add: demo_lib_def)
  have bytes: "py_Block_ProtoBytes (yl_wire demo_lib) py_sample = [1, 2, 3]" by (simp add: py_Block_ProtoBytes_def demo_lib_def)
  have sent: "py_sent (yl_wire demo_lib) (yl_hash demo_lib) py_sample 2 (hd_Round demo_new) demo_hashed demo_parts"
    using demo_sent by (simp add: py_sent_def H demo_start) (simp add: demo_lib_def py_sample_def)
  have here: "yh_Height (y_Header py_sample) = hd_Height demo_new" "yh_ChainID (y_Header py_sample) = MyChainID demo_new" by code_simp+
  have fresh: "hd_Proposal demo_new = None" "hd_PartSet demo_new = None" "randomHeaderBuffer demo_new = []" by code_simp+
  have pr: "yo_Header demo_proposal = ys_Header demo_parts" "yo_BlockHeaderHash demo_proposal = ys_BlockHeaderHash demo_parts"
    "py_Proposal_ValidateBasic demo_proposal = Inr ()" "yo_ProposerIndex demo_proposal = 0" by code_simp+
  have sig: "my_verifier demo_new = Some (the (my_verifier demo_new))"
    "Verify (yl_bls demo_lib) (the (my_verifier demo_new)) (yo_Signature demo_proposal)
       (py_Proposal_SignBytes (yl_proposal demo_lib) demo_proposal) (yo_ProposerIndex demo_proposal) = Some True" by code_simp+
  have all: "set (ys_Parts demo_parts) \<subseteq> Some ` set ([demo_part 1] @ [demo_part 0])"
    by (simp add: demo_parts_def demo_part_def Let_def)
  have bind: "list_all (py_part_binding (yl_hash demo_lib) (chunks (nat 2) (py_Block_ProtoBytes (yl_wire demo_lib) py_sample)))
      (randomHeaderBuffer demo_new @ [demo_part 1] @ [demo_part 0])"
    unfolding bytes demo_chunks(1) H fresh(3) using demo_part_binding [of 0] demo_part_binding [of 1] by simp
  have valid: "list_all (\<lambda>p. py_Part_ValidateBasic p = Some (Inr ())) (randomHeaderBuffer demo_new @ [demo_part 1] @ [demo_part 0])"
    unfolding fresh(3) using demo_part_valid by simp
  from proposed_block_arrives [OF sent _ here fresh(1,2) pr(1-3) sig valid bind all] show ?thesis unfolding pr(4) bytes by blast
qed

end
