(* ===== verification/Concurrent_List.thy ===== *)
theory Concurrent_List
  imports Urd_Prelude "HOL-Library.Monad_Syntax"
begin

text \<open>
  The linked list of \<open>src/source/libs/clist/clist.go\<close>. Elements live on a heap, a list whose indices
  are the addresses; a pointer is an optional address. A wait group of one together with the
  channel beside it is a flag that is open until both are signalled; signalling twice is a panic,
  as it is for both primitives. Every operation runs under the lock of the list, so operations are
  functions of the heap and the list; a blocking call is a look at the state that finds it ready
  or blocked.
\<close>

section \<open>Elements\<close>

record 'a CElement =
  e_prev :: "nat option"
  e_prevOpen :: bool
  e_next :: "nat option"
  e_nextOpen :: bool
  e_removed :: bool
  e_Value :: 'a

type_synonym 'a cheap = "'a CElement list"

datatype 'b waiting = Blocked | Ready 'b

definition elem :: "'a cheap \<Rightarrow> nat \<Rightarrow> 'a CElement option" where
  "elem h a = (if a < length h then Some (h ! a) else None)"

definition signal :: "bool \<Rightarrow> bool option" where
  "signal opened = (if opened then Some False else None)"

definition NextWait :: "'a cheap \<Rightarrow> nat \<Rightarrow> nat option waiting option" where
  "NextWait h a = map_option (\<lambda>e. if e_next e \<noteq> None \<or> e_removed e then Ready (e_next e) else Blocked) (elem h a)"

definition PrevWait :: "'a cheap \<Rightarrow> nat \<Rightarrow> nat option waiting option" where
  "PrevWait h a = map_option (\<lambda>e. if e_prev e \<noteq> None \<or> e_removed e then Ready (e_prev e) else Blocked) (elem h a)"

definition Next :: "'a cheap \<Rightarrow> nat \<Rightarrow> nat option option" where
  "Next h a = map_option e_next (elem h a)"

definition Prev :: "'a cheap \<Rightarrow> nat \<Rightarrow> nat option option" where
  "Prev h a = map_option e_prev (elem h a)"

definition Removed :: "'a cheap \<Rightarrow> nat \<Rightarrow> bool option" where
  "Removed h a = map_option e_removed (elem h a)"

definition DetachNext :: "'a cheap \<Rightarrow> nat \<Rightarrow> 'a cheap option" where
  "DetachNext h a = do {
     e \<leftarrow> elem h a;
     if \<not> e_removed e then None else Some (h[a := e\<lparr>e_next := None\<rparr>]) }"

definition DetachPrev :: "'a cheap \<Rightarrow> nat \<Rightarrow> 'a cheap option" where
  "DetachPrev h a = do {
     e \<leftarrow> elem h a;
     if \<not> e_removed e then None else Some (h[a := e\<lparr>e_prev := None\<rparr>]) }"

text \<open>The flag after a pointer changes: reopened when it becomes nil, signalled when it stops being nil.\<close>

definition reflag :: "nat option \<Rightarrow> nat option \<Rightarrow> bool \<Rightarrow> bool option" where
  "reflag old new opened = (if old \<noteq> None \<and> new = None then Some True
     else if old = None \<and> new \<noteq> None then signal opened else Some opened)"

definition SetNext :: "'a cheap \<Rightarrow> nat \<Rightarrow> nat option \<Rightarrow> 'a cheap option" where
  "SetNext h a newNext = do {
     e \<leftarrow> elem h a;
     opened \<leftarrow> reflag (e_next e) newNext (e_nextOpen e);
     Some (h[a := e\<lparr>e_next := newNext, e_nextOpen := opened\<rparr>]) }"

definition SetPrev :: "'a cheap \<Rightarrow> nat \<Rightarrow> nat option \<Rightarrow> 'a cheap option" where
  "SetPrev h a newPrev = do {
     e \<leftarrow> elem h a;
     opened \<leftarrow> reflag (e_prev e) newPrev (e_prevOpen e);
     Some (h[a := e\<lparr>e_prev := newPrev, e_prevOpen := opened\<rparr>]) }"

definition SetRemoved :: "'a cheap \<Rightarrow> nat \<Rightarrow> 'a cheap option" where
  "SetRemoved h a = do {
     e \<leftarrow> elem h a;
     p \<leftarrow> (if e_prev e = None then signal (e_prevOpen e) else Some (e_prevOpen e));
     n \<leftarrow> (if e_next e = None then signal (e_nextOpen e) else Some (e_nextOpen e));
     Some (h[a := e\<lparr>e_removed := True, e_prevOpen := p, e_nextOpen := n\<rparr>]) }"

section \<open>Lists\<close>

record CList =
  l_open :: bool
  l_head :: "nat option"
  l_tail :: "nat option"
  l_len :: int
  l_maxLen :: int

definition MaxLength :: int where "MaxLength = 2 ^ 63 - 1"

definition Init :: "CList \<Rightarrow> CList" where
  "Init l = l\<lparr>l_open := True, l_head := None, l_tail := None, l_len := 0\<rparr>"

text \<open>A zero list with the limit, initialised.\<close>

definition newWithMax :: "int \<Rightarrow> CList" where
  "newWithMax maxLength = Init \<lparr>l_open = False, l_head = None, l_tail = None, l_len = 0, l_maxLen = maxLength\<rparr>"

definition CList_New :: CList where "CList_New = newWithMax MaxLength"

definition Len :: "CList \<Rightarrow> int" where "Len l = l_len l"
definition Front :: "CList \<Rightarrow> nat option" where "Front l = l_head l"
definition Back :: "CList \<Rightarrow> nat option" where "Back l = l_tail l"

definition FrontWait :: "CList \<Rightarrow> nat waiting" where
  "FrontWait l = (case l_head l of None \<Rightarrow> Blocked | Some a \<Rightarrow> Ready a)"

definition BackWait :: "CList \<Rightarrow> nat waiting" where
  "BackWait l = (case l_tail l of None \<Rightarrow> Blocked | Some a \<Rightarrow> Ready a)"

definition PushBack :: "'a cheap \<Rightarrow> CList \<Rightarrow> 'a \<Rightarrow> ('a cheap \<times> CList \<times> nat) option" where
  "PushBack h l v = do {
     let a = length h;
     let h1 = h @ [\<lparr>e_prev = None, e_prevOpen = True, e_next = None, e_nextOpen = True, e_removed = False, e_Value = v\<rparr>];
     opened \<leftarrow> (if l_len l = 0 then signal (l_open l) else Some (l_open l));
     if l_len l \<ge> l_maxLen l then None
     else do {
       let l1 = l\<lparr>l_open := opened, l_len := l_len l + 1\<rparr>;
       (case l_tail l of
          None \<Rightarrow> Some (h1, l1\<lparr>l_head := Some a, l_tail := Some a\<rparr>, a)
        | Some t \<Rightarrow> do {
            h2 \<leftarrow> SetPrev h1 a (Some t);
            h3 \<leftarrow> SetNext h2 t (Some a);
            Some (h3, l1\<lparr>l_tail := Some a\<rparr>, a) }) } }"

definition Remove :: "'a cheap \<Rightarrow> CList \<Rightarrow> nat \<Rightarrow> ('a cheap \<times> CList \<times> 'a) option" where
  "Remove h l a = do {
     e \<leftarrow> elem h a;
     if l_head l = None \<or> l_tail l = None then None
     else if e_prev e = None \<and> l_head l \<noteq> Some a then None
     else if e_next e = None \<and> l_tail l \<noteq> Some a then None
     else do {
       let l1 = l\<lparr>l_open := (if l_len l = 1 then True else l_open l), l_len := l_len l - 1\<rparr>;
       (h1, l2) \<leftarrow> (case e_prev e of
           None \<Rightarrow> Some (h, l1\<lparr>l_head := e_next e\<rparr>)
         | Some p \<Rightarrow> map_option (\<lambda>h'. (h', l1)) (SetNext h p (e_next e)));
       (h2, l3) \<leftarrow> (case e_next e of
           None \<Rightarrow> Some (h1, l2\<lparr>l_tail := e_prev e\<rparr>)
         | Some n \<Rightarrow> map_option (\<lambda>h'. (h', l2)) (SetPrev h1 n (e_prev e)));
       h3 \<leftarrow> SetRemoved h2 a;
       Some (h3, l3, e_Value e) } }"

section \<open>The shape of the heap\<close>

definition first_of :: "nat list \<Rightarrow> nat option \<Rightarrow> nat option" where
  "first_of xs n = (case xs of [] \<Rightarrow> n | x # _ \<Rightarrow> Some x)"

definition last_of :: "nat option \<Rightarrow> nat list \<Rightarrow> nat option" where
  "last_of p xs = (if xs = [] then p else Some (last xs))"

text \<open>The addresses are linked in both directions, between \<open>p\<close> and \<open>n\<close>.\<close>

fun chain :: "'a cheap \<Rightarrow> nat option \<Rightarrow> nat list \<Rightarrow> nat option \<Rightarrow> bool" where
  "chain h p [] n \<longleftrightarrow> True"
| "chain h p (x # xs) n \<longleftrightarrow> x < length h \<and> e_prev (h ! x) = p \<and> e_next (h ! x) = first_of xs n \<and> chain h (Some x) xs n"

text \<open>A waiter is held exactly while there is nothing to return.\<close>

definition elem_ok :: "'a CElement \<Rightarrow> bool" where
  "elem_ok e \<longleftrightarrow> (e_nextOpen e \<longleftrightarrow> e_next e = None \<and> \<not> e_removed e) \<and> (e_prevOpen e \<longleftrightarrow> e_prev e = None \<and> \<not> e_removed e)"

definition clist_inv :: "'a cheap \<Rightarrow> CList \<Rightarrow> nat list \<Rightarrow> bool" where
  "clist_inv h l xs \<longleftrightarrow> chain h None xs None \<and> distinct xs \<and> l_head l = first_of xs None \<and> l_tail l = last_of None xs
     \<and> l_len l = int (length xs) \<and> (l_open l \<longleftrightarrow> xs = []) \<and> list_all elem_ok h
     \<and> list_all (\<lambda>a. e_removed (h ! a) \<longleftrightarrow> a \<notin> set xs) [0..<length h]"

lemma first_of_simps [simp]: "first_of [] n = n" "first_of (x # xs) n = Some x"
  by (simp_all add: first_of_def)

lemma last_of_simps [simp]: "last_of p [] = p" "last_of p (xs @ [x]) = Some x" "last_of p (x # xs) = last_of (Some x) xs"
  by (simp_all add: last_of_def)

lemma last_of_Some [simp]: "\<exists>y. last_of (Some x) xs = Some y"
  by (simp add: last_of_def)

lemma chain_append: "chain h p (xs @ ys) n \<longleftrightarrow> chain h p xs (first_of ys n) \<and> chain h (last_of p xs) ys n"
proof (induction xs arbitrary: p)
  case (Cons x xs)
  have "first_of (xs @ ys) n = first_of xs (first_of ys n)" by (cases xs) simp_all
  then show ?case using Cons by auto
qed simp

lemma chain_bound: "chain h p xs n \<Longrightarrow> set xs \<subseteq> {..<length h}"
  by (induction xs arbitrary: p) auto

text \<open>The chain depends on the elements it runs through only, and there on the pointers.\<close>

lemma chain_frame:
  "chain h p xs n \<Longrightarrow> length h \<le> length h' \<Longrightarrow> (\<And>x. x \<in> set xs \<Longrightarrow> e_prev (h' ! x) = e_prev (h ! x) \<and> e_next (h' ! x) = e_next (h ! x))
    \<Longrightarrow> chain h' p xs n"
  by (induction xs arbitrary: p) auto

section \<open>Effects on the heap\<close>

definition relink_next :: "nat option \<Rightarrow> nat option \<Rightarrow> 'a cheap \<Rightarrow> 'a cheap" where
  "relink_next p n h = (case p of None \<Rightarrow> h | Some a \<Rightarrow> h[a := (h ! a)\<lparr>e_next := n, e_nextOpen := (n = None)\<rparr>])"

definition relink_prev :: "nat option \<Rightarrow> nat option \<Rightarrow> 'a cheap \<Rightarrow> 'a cheap" where
  "relink_prev n p h = (case n of None \<Rightarrow> h | Some a \<Rightarrow> h[a := (h ! a)\<lparr>e_prev := p, e_prevOpen := (p = None)\<rparr>])"

definition mark_removed :: "nat \<Rightarrow> 'a cheap \<Rightarrow> 'a cheap" where
  "mark_removed a h = h[a := (h ! a)\<lparr>e_removed := True, e_prevOpen := False, e_nextOpen := False\<rparr>]"

definition alive :: "'a cheap \<Rightarrow> nat \<Rightarrow> bool" where
  "alive h a \<longleftrightarrow> a < length h \<and> elem_ok (h ! a) \<and> \<not> e_removed (h ! a)"

lemma SetNext_eq: "alive h a \<Longrightarrow> SetNext h a n = Some (relink_next (Some a) n h)"
  by (auto simp: alive_def SetNext_def elem_def reflag_def signal_def elem_ok_def relink_next_def intro!: arg_cong2 [where f = "list_update h"])

lemma SetPrev_eq: "alive h a \<Longrightarrow> SetPrev h a n = Some (relink_prev (Some a) n h)"
  by (auto simp: alive_def SetPrev_def elem_def reflag_def signal_def elem_ok_def relink_prev_def intro!: arg_cong2 [where f = "list_update h"])

lemma SetRemoved_eq: "alive h a \<Longrightarrow> SetRemoved h a = Some (mark_removed a h)"
  by (auto simp: alive_def SetRemoved_def elem_def signal_def elem_ok_def mark_removed_def)

lemma update_nth: "h[a := v] ! x = (if a = x \<and> x < length h then v else h ! x)"
  by (cases "a = x"; cases "x < length h") (auto simp: list_update_beyond)

lemma relink_length [simp]: "length (relink_next p n h) = length h" "length (relink_prev p n h) = length h" "length (mark_removed a h) = length h"
  by (simp_all add: relink_next_def relink_prev_def mark_removed_def split: option.split)

lemma relink_values [simp]: "map e_Value (relink_next p n h) = map e_Value h" "map e_Value (relink_prev p n h) = map e_Value h"
    "map e_Value (mark_removed a h) = map e_Value h"
  by (auto simp: relink_next_def relink_prev_def mark_removed_def update_nth intro!: nth_equalityI split: option.split)

lemma relink_nth:
  "relink_next p n h ! x = (if p = Some x \<and> x < length h then (h ! x)\<lparr>e_next := n, e_nextOpen := (n = None)\<rparr> else h ! x)"
  "relink_prev p n h ! x = (if p = Some x \<and> x < length h then (h ! x)\<lparr>e_prev := n, e_prevOpen := (n = None)\<rparr> else h ! x)"
  "mark_removed a h ! x = (if a = x \<and> x < length h then (h ! x)\<lparr>e_removed := True, e_prevOpen := False, e_nextOpen := False\<rparr> else h ! x)"
  by (auto simp: relink_next_def relink_prev_def mark_removed_def update_nth split: option.split)

lemma chain_relink_next:
  assumes "chain h p xs n" "distinct xs"
  shows "chain (relink_next (last_of None xs) n' h) p xs n'"
proof (cases xs rule: rev_cases)
  case (snoc ys y)
  have "chain h p ys (Some y)" "y < length h" "e_prev (h ! y) = last_of p ys" using assms(1) by (simp_all add: snoc chain_append)
  moreover have "chain (relink_next (Some y) n' h) p ys (Some y)"
    by (rule chain_frame [OF calculation(1)]) (use assms(2) in \<open>auto simp: snoc relink_nth\<close>)
  ultimately show ?thesis by (simp add: snoc chain_append relink_nth)
qed simp

lemma chain_relink_prev:
  assumes "chain h p xs n" "distinct xs"
  shows "chain (relink_prev (first_of xs None) p' h) p' xs n"
proof (cases xs)
  case (Cons y ys)
  have "chain (relink_prev (Some y) p' h) (Some y) ys n"
    by (rule chain_frame [of h]) (use assms in \<open>auto simp: Cons relink_nth\<close>)
  then show ?thesis using assms(1) by (simp add: Cons relink_nth)
qed simp

section \<open>Operations keep the shape\<close>

lemma inv_alive: "clist_inv h l xs \<Longrightarrow> a \<in> set xs \<Longrightarrow> alive h a"
  using chain_bound [of h None xs None] by (auto simp: clist_inv_def alive_def list_all_length subset_eq)

lemma inv_elem: "clist_inv h l xs \<Longrightarrow> a < length h \<Longrightarrow> elem_ok (h ! a) \<and> (e_removed (h ! a) \<longleftrightarrow> a \<notin> set xs)"
  by (simp add: clist_inv_def list_all_length)

lemma clist_invI:
  assumes "chain h None xs None" "distinct xs" "l_head l = first_of xs None" "l_tail l = last_of None xs" "l_len l = int (length xs)"
    "l_open l \<longleftrightarrow> xs = []" "\<And>a. a < length h \<Longrightarrow> elem_ok (h ! a) \<and> (e_removed (h ! a) \<longleftrightarrow> a \<notin> set xs)"
  shows "clist_inv h l xs"
  using assms by (simp add: clist_inv_def list_all_length)

lemma New_inv: "clist_inv [] (newWithMax m) []"
  by (simp add: clist_inv_def newWithMax_def Init_def)

lemma PushBack_inv:
  assumes inv: "clist_inv h l xs" and room: "int (length xs) < l_maxLen l"
  shows "\<exists>h' l'. PushBack h l v = Some (h', l', length h) \<and> clist_inv h' l' (xs @ [length h]) \<and> l_maxLen l' = l_maxLen l
     \<and> map e_Value h' = map e_Value h @ [v]"
proof -
  define e where "e = \<lparr>e_prev = None, e_prevOpen = True, e_next = None, e_nextOpen = True, e_removed = False, e_Value = v\<rparr>"
  let ?a = "length h" and ?h = "h @ [e]"
  let ?h' = "relink_next (last_of None xs) (Some ?a) (relink_prev (Some ?a) (last_of None xs) ?h)"
  let ?l = "l\<lparr>l_open := False, l_len := l_len l + 1, l_head := first_of xs (Some ?a), l_tail := Some ?a\<rparr>"
  have i: "chain h None xs None" "distinct xs" "l_head l = first_of xs None" "l_tail l = last_of None xs" "l_len l = int (length xs)" "l_open l \<longleftrightarrow> xs = []"
    using inv by (simp_all add: clist_inv_def)
  have new: "?a \<notin> set xs" using chain_bound [OF i(1)] by auto
  have op: "PushBack h l v = Some (?h', ?l, ?a)"
  proof (cases xs rule: rev_cases)
    case Nil
    then show ?thesis using i room by (simp add: PushBack_def Let_def signal_def e_def relink_next_def relink_prev_def nth_append list_update_append)
  next
    case (snoc ys t)
    have t: "alive h t" using inv_alive [OF inv] by (simp add: snoc)
    have "alive ?h ?a" "alive (relink_prev (Some ?a) (Some t) ?h) t"
      using t by (auto simp: alive_def e_def elem_ok_def relink_nth nth_append)
    moreover have "first_of xs (Some ?a) = l_head l" by (cases ys) (simp_all add: i(3) snoc)
    ultimately show ?thesis using i room snoc
      by (simp add: PushBack_def Let_def SetPrev_eq SetNext_eq flip: e_def)
  qed
  have c: "chain ?h' None (xs @ [?a]) None"
  proof -
    have "chain (relink_prev (Some ?a) (last_of None xs) ?h) None xs None"
      by (rule chain_frame [OF i(1)]) (use new chain_bound [OF i(1)] in \<open>auto simp: relink_nth nth_append\<close>)
    then have "chain ?h' None xs (Some ?a)" by (rule chain_relink_next [OF _ i(2)])
    moreover have "last_of None xs \<noteq> Some ?a" using new by (cases xs rule: rev_cases) auto
    ultimately show ?thesis by (simp add: chain_append relink_nth nth_append e_def)
  qed
  have "clist_inv ?h' ?l (xs @ [?a])"
  proof (rule clist_invI [OF c])
    fix a assume "a < length ?h'"
    then show "elem_ok (?h' ! a) \<and> (e_removed (?h' ! a) \<longleftrightarrow> a \<notin> set (xs @ [?a]))"
      using inv_elem [OF inv, of a] by (cases "a = ?a") (auto simp: relink_nth nth_append e_def elem_ok_def last_of_def)
  qed (use i new in \<open>auto simp: first_of_def split: list.split\<close>)
  then show ?thesis using op by (simp add: e_def)
qed

lemma Remove_inv:
  assumes inv: "clist_inv h l (xs @ a # ys)"
  shows "\<exists>h' l'. Remove h l a = Some (h', l', e_Value (h ! a)) \<and> clist_inv h' l' (xs @ ys) \<and> l_maxLen l' = l_maxLen l
     \<and> map e_Value h' = map e_Value h"
proof -
  let ?p = "last_of None xs" and ?n = "first_of ys None"
  let ?h1 = "relink_next ?p ?n h"
  let ?h2 = "relink_prev ?n ?p ?h1"
  let ?h3 = "mark_removed a ?h2"
  let ?l = "l\<lparr>l_open := (xs @ ys = []), l_len := l_len l - 1, l_head := first_of (xs @ ys) None, l_tail := last_of None (xs @ ys)\<rparr>"
  have i: "chain h None xs (Some a)" "a < length h" "e_prev (h ! a) = ?p" "e_next (h ! a) = ?n" "chain h (Some a) ys None" "distinct (xs @ a # ys)"
    "l_head l = first_of (xs @ [a]) None" "l_tail l = last_of (Some a) ys" "l_len l = int (length xs + length ys) + 1" "\<not> l_open l"
  proof -
    show "l_head l = first_of (xs @ [a]) None" using inv by (cases xs) (simp_all add: clist_inv_def)
    show "l_tail l = last_of (Some a) ys" using inv by (cases ys rule: rev_cases) (simp_all add: clist_inv_def last_of_def)
  qed (use inv in \<open>simp_all add: clist_inv_def chain_append\<close>)
  have b: "set xs \<union> set ys \<subseteq> {..<length h}" using chain_bound [OF i(1)] chain_bound [OF i(5)] by blast
  have p: "?p = Some x \<Longrightarrow> x \<in> set xs" and n: "?n = Some x \<Longrightarrow> x \<in> set ys" for x
  proof -
    show "?p = Some x \<Longrightarrow> x \<in> set xs" by (cases xs rule: rev_cases) simp_all
    show "?n = Some x \<Longrightarrow> x \<in> set ys" by (cases ys) simp_all
  qed
  have al: "x \<in> set (xs @ a # ys) \<Longrightarrow> alive h x" for x by (rule inv_alive [OF inv])
  have al1: "alive ?h1 x" if "x \<in> set (a # ys)" for x
  proof -
    have "?p \<noteq> Some x" using p i(6) that by auto
    moreover have "alive h x" by (rule al) (use that in auto)
    ultimately show ?thesis by (simp add: alive_def relink_nth)
  qed
  have "?n \<noteq> Some a" using n i(6) by auto
  then have al2: "alive ?h2 a" using al1 [of a] by (auto simp: alive_def relink_nth split: if_splits)
  have op: "Remove h l a = Some (?h3, ?l, e_Value (h ! a))"
  proof -
    have s: "SetNext h x ?n = Some ?h1" if "?p = Some x" for x using SetNext_eq [OF al] p [OF that] that by simp
    have t: "SetPrev ?h1 x ?p = Some ?h2" if "?n = Some x" for x using SetPrev_eq [OF al1] n [OF that] that by simp
    have r: "SetRemoved ?h2 a = Some ?h3" by (rule SetRemoved_eq [OF al2])
    have e: "elem h a = Some (h ! a)" using i(2) by (simp add: elem_def)
    show ?thesis
    proof (cases xs rule: rev_cases)
      case Nil
      then show ?thesis using i e t r
        by (cases ys) (simp_all add: Remove_def Let_def relink_next_def relink_prev_def)
    next
      case (snoc xs' x)
      obtain z where z: "first_of (xs' @ x # zs) m = Some z" for zs m by (cases xs') simp_all
      have t': "last_of None (xs' @ x # zs) = last_of (Some x) zs" for zs by (simp add: last_of_def)
      show ?thesis using i e s t r snoc z t'
        by (cases ys; cases l) (simp_all add: Remove_def Let_def relink_prev_def)
    qed
  qed
  have c: "chain ?h3 None (xs @ ys) None"
  proof -
    have "chain ?h1 None xs ?n" by (rule chain_relink_next [OF i(1)]) (use i(6) in simp)
    then have 1: "chain ?h3 None xs ?n" by (rule chain_frame) (use n i(6) in \<open>auto simp: relink_nth\<close>)
    have "chain ?h1 (Some a) ys None" by (rule chain_frame [OF i(5)]) (use p i(6) in \<open>auto simp: relink_nth\<close>)
    then have "chain ?h2 ?p ys None" by (rule chain_relink_prev) (use i(6) in simp)
    then have "chain ?h3 ?p ys None" by (rule chain_frame) (use i(6) in \<open>auto simp: relink_nth\<close>)
    with 1 show ?thesis by (simp add: chain_append)
  qed
  have "clist_inv ?h3 ?l (xs @ ys)"
  proof (rule clist_invI [OF c])
    fix x assume "x < length ?h3"
    then show "elem_ok (?h3 ! x) \<and> (e_removed (?h3 ! x) \<longleftrightarrow> x \<notin> set (xs @ ys))"
      using inv_elem [OF inv, of x] p [of x] n [of x] i(6) by (cases "x = a") (auto simp: relink_nth elem_ok_def)
  qed (use i in auto)
  then show ?thesis using op by simp
qed

lemma Detach_inv:
  assumes "clist_inv h l xs" "DetachNext h a = Some h' \<or> DetachPrev h a = Some h'"
  shows "clist_inv h' l xs \<and> map e_Value h' = map e_Value h"
proof -
  have a: "a < length h" "e_removed (h ! a)" using assms(2) by (auto simp: DetachNext_def DetachPrev_def elem_def split: if_splits)
  then have "a \<notin> set xs" using inv_elem [OF assms(1)] by blast
  define e where "e = h' ! a"
  have "h' = h[a := (h ! a)\<lparr>e_next := None\<rparr>] \<or> h' = h[a := (h ! a)\<lparr>e_prev := None\<rparr>]"
    using assms(2) a by (auto simp: DetachNext_def DetachPrev_def elem_def)
  then have h': "h' = h[a := e]" "e_removed e" "elem_ok e" "e_Value e = e_Value (h ! a)"
    using a inv_elem [OF assms(1) a(1)] by (auto simp: e_def elem_ok_def)
  have "chain h' None xs None"
    by (rule chain_frame [of h]) (use assms(1) \<open>a \<notin> set xs\<close> in \<open>auto simp: clist_inv_def h'(1) update_nth\<close>)
  then have "clist_inv h' l xs"
    by (rule clist_invI) (use assms(1) inv_elem [OF assms(1)] h' \<open>a \<notin> set xs\<close> in \<open>auto simp: clist_inv_def update_nth\<close>)
  moreover have "map e_Value h' = map e_Value h" using h' by (auto simp: update_nth intro!: nth_equalityI)
  ultimately show ?thesis ..
qed

text \<open>No lost wake-up: a call that waits for a neighbour blocks exactly while its flag is open.\<close>

lemma waits_open:
  assumes "clist_inv h l xs" "elem h a = Some e"
  shows "(NextWait h a = Some Blocked \<longleftrightarrow> e_nextOpen e) \<and> (PrevWait h a = Some Blocked \<longleftrightarrow> e_prevOpen e)"
proof -
  have "elem_ok e" using assms inv_elem [OF assms(1), of a] by (auto simp: elem_def split: if_splits)
  then show ?thesis using assms(2) by (auto simp: NextWait_def PrevWait_def elem_ok_def)
qed

lemma FrontWait_open:
  assumes "clist_inv h l xs"
  shows "(FrontWait l = Blocked \<longleftrightarrow> l_open l) \<and> (BackWait l = Blocked \<longleftrightarrow> l_open l)"
  using assms by (cases xs) (auto simp: clist_inv_def FrontWait_def BackWait_def last_of_def)

section \<open>Contents\<close>

text \<open>The list as a sequence of addresses and values.\<close>

definition holds :: "'a cheap \<Rightarrow> CList \<Rightarrow> (nat \<times> 'a) list \<Rightarrow> bool" where
  "holds h l xs \<longleftrightarrow> clist_inv h l (map fst xs) \<and> list_all (\<lambda>(a, v). e_Value (h ! a) = v) xs"

lemma holds_value: "holds h l xs \<Longrightarrow> (a, v) \<in> set xs \<Longrightarrow> a < length h \<and> e_Value (h ! a) = v"
  using chain_bound [of h None "map fst xs" None] by (fastforce simp: holds_def clist_inv_def list_all_iff)

lemma holds_values:
  assumes "holds h l xs" "clist_inv h' l' (map fst ys)" "map e_Value h' = map e_Value h @ vs" "set ys \<subseteq> set xs"
  shows "holds h' l' ys"
proof -
  have "e_Value (h' ! a) = v" if "(a, v) \<in> set ys" for a v
  proof -
    have a: "a < length h" "e_Value (h ! a) = v" using holds_value [OF assms(1)] assms(4) that by blast+
    moreover have "length h' = length h + length vs" using arg_cong [OF assms(3), of length] by simp
    ultimately have "map e_Value h' ! a = v" unfolding assms(3) by (simp add: nth_append)
    then show ?thesis using a \<open>length h' = _\<close> by simp
  qed
  then show ?thesis using assms(2) by (auto simp: holds_def list_all_iff)
qed

lemma holds_PushBack:
  assumes "holds h l xs" "int (length xs) < l_maxLen l"
  obtains h' l' where "PushBack h l v = Some (h', l', length h)" "holds h' l' (xs @ [(length h, v)])" "l_maxLen l' = l_maxLen l"
    "length h' = Suc (length h)"
proof -
  have "clist_inv h l (map fst xs)" "int (length (map fst xs)) < l_maxLen l" using assms by (simp_all add: holds_def)
  from PushBack_inv [OF this, of v] obtain h' l' where p: "PushBack h l v = Some (h', l', length h)" "clist_inv h' l' (map fst xs @ [length h])" "l_maxLen l' = l_maxLen l"
    "map e_Value h' = map e_Value h @ [v]" by blast
  have len: "length h' = Suc (length h)" using arg_cong [OF p(4), of length] by simp
  have "map e_Value h' ! length h = v" by (simp add: p(4) nth_append)
  then have "e_Value (h' ! length h) = v" using len by simp
  moreover have "e_Value (h' ! a) = w" if "(a, w) \<in> set xs" for a w
  proof -
    have a: "a < length h" "e_Value (h ! a) = w" using holds_value [OF assms(1) that] by simp_all
    then have "map e_Value h' ! a = w" unfolding p(4) by (simp add: nth_append)
    then show ?thesis using a len by simp
  qed
  ultimately have "holds h' l' (xs @ [(length h, v)])" using p(2) by (auto simp: holds_def list_all_iff)
  then show ?thesis using that p(1,3) len by blast
qed

lemma holds_Remove:
  assumes "holds h l xs" "(a, v) \<in> set xs"
  obtains h' l' where "Remove h l a = Some (h', l', v)" "holds h' l' (filter (\<lambda>(b, _). b \<noteq> a) xs)" "l_maxLen l' = l_maxLen l"
    "length h' = length h"
proof -
  obtain ys zs where xs: "xs = ys @ (a, v) # zs" using assms(2) by (meson split_list)
  have i: "clist_inv h l (map fst ys @ a # map fst zs)" using assms(1) by (simp add: holds_def xs)
  then have "distinct (map fst ys @ a # map fst zs)" by (simp add: clist_inv_def)
  then have "filter (\<lambda>(b, _). b \<noteq> a) ys = ys" "filter (\<lambda>(b, _). b \<noteq> a) zs = zs" by (force simp: filter_id_conv)+
  then have f: "filter (\<lambda>(b, _). b \<noteq> a) xs = ys @ zs" by (simp add: xs)
  obtain h' l' where r: "Remove h l a = Some (h', l', e_Value (h ! a))" "clist_inv h' l' (map fst ys @ map fst zs)" "l_maxLen l' = l_maxLen l"
    "map e_Value h' = map e_Value h" using Remove_inv [OF i] by blast
  have "holds h' l' (ys @ zs)" by (rule holds_values [OF assms(1), of _ _ _ "[]"]) (use r xs in auto)
  moreover have "e_Value (h ! a) = v" "length h' = length h" using holds_value [OF assms] arg_cong [OF r(4), of length] by simp_all
  ultimately show ?thesis using that r f by simp
qed

lemma holds_Detach:
  assumes "holds h l xs" "a < length h" "a \<notin> set (map fst xs)" "d = DetachNext \<or> d = DetachPrev"
  shows "\<exists>h'. d h a = Some h' \<and> holds h' l xs \<and> length h' = length h"
proof -
  have "e_removed (h ! a)" using inv_elem [of h l "map fst xs" a] assms(1-3) by (simp add: holds_def)
  then obtain h' where h': "d h a = Some h'" using assms(2,4) by (auto simp: DetachNext_def DetachPrev_def elem_def)
  then have d: "clist_inv h' l (map fst xs)" "map e_Value h' = map e_Value h" using Detach_inv [of h l] assms(1,4) by (auto simp: holds_def)
  have "holds h' l xs" by (rule holds_values [OF assms(1) d(1), of "[]"]) (simp_all add: d(2))
  then show ?thesis using h' arg_cong [OF d(2), of length] by simp
qed

text \<open>Walking the list with \<open>Front\<close> and \<open>Next\<close>, and with \<open>Back\<close> and \<open>Prev\<close>.\<close>

partial_function (option) walk :: "('a cheap \<Rightarrow> nat \<Rightarrow> nat option option) \<Rightarrow> 'a cheap \<Rightarrow> nat option \<Rightarrow> (nat \<times> 'a) list option" where
  "walk step h p = (case p of
      None \<Rightarrow> Some []
    | Some a \<Rightarrow> do {
        e \<leftarrow> elem h a;
        n \<leftarrow> step h a;
        rest \<leftarrow> walk step h n;
        Some ((a, e_Value e) # rest) })"

lemma walk_None: "walk step h None = Some []"
  by (simp add: walk.simps)

lemma walk_Some: "step h a = Some n \<Longrightarrow> a < length h \<Longrightarrow> walk step h (Some a) = map_option ((#) (a, e_Value (h ! a))) (walk step h n)"
  by (simp add: walk.simps [of step h "Some a"] elem_def map_conv_bind_option o_def)

lemma pointers: "a < length h \<Longrightarrow> Next h a = Some (e_next (h ! a))" "a < length h \<Longrightarrow> Prev h a = Some (e_prev (h ! a))"
  by (simp_all add: Next_def Prev_def elem_def)

lemma walk_chain:
  assumes "chain h p (map fst xs) None" "list_all (\<lambda>(a, v). e_Value (h ! a) = v) xs"
  shows "walk Next h (first_of (map fst xs) None) = Some xs"
  using assms
proof (induction xs arbitrary: p)
  case (Cons x xs)
  then show ?case by (cases x) (auto simp: walk_Some pointers)
qed (simp add: walk_None)

lemma walk_back:
  assumes "chain h None (map fst xs) n" "list_all (\<lambda>(a, v). e_Value (h ! a) = v) xs"
  shows "walk Prev h (last_of None (map fst xs)) = Some (rev xs)"
  using assms
proof (induction xs arbitrary: n rule: rev_induct)
  case (snoc x xs)
  then show ?case by (cases x) (auto simp: walk_Some pointers chain_append)
qed (simp add: walk_None)

lemma holds_walk:
  assumes "holds h l xs"
  shows "walk Next h (Front l) = Some xs" "walk Prev h (Back l) = Some (rev xs)" "Len l = int (length xs)"
  using assms walk_chain [of h None xs] walk_back [of h xs None] by (auto simp: holds_def clist_inv_def Front_def Back_def Len_def)

section \<open>Sequences of operations\<close>

datatype 'a list_op = Push 'a | Take nat | DropNext nat | DropPrev nat

definition list_step :: "'a cheap \<times> CList \<Rightarrow> 'a list_op \<Rightarrow> ('a cheap \<times> CList) option" where
  "list_step s oper = (case s of (h, l) \<Rightarrow> (case oper of
      Push v \<Rightarrow> map_option (\<lambda>(h', l', _). (h', l')) (PushBack h l v)
    | Take a \<Rightarrow> map_option (\<lambda>(h', l', _). (h', l')) (Remove h l a)
    | DropNext a \<Rightarrow> map_option (\<lambda>h'. (h', l)) (DetachNext h a)
    | DropPrev a \<Rightarrow> map_option (\<lambda>h'. (h', l)) (DetachPrev h a)))"

text \<open>The specification: a sequence with fresh names; only present elements are taken out and only absent ones detached.\<close>

definition spec_step :: "(nat \<times> 'a) list \<times> nat \<Rightarrow> 'a list_op \<Rightarrow> ((nat \<times> 'a) list \<times> nat) option" where
  "spec_step s oper = (case s of (xs, k) \<Rightarrow> (case oper of
      Push v \<Rightarrow> Some (xs @ [(k, v)], Suc k)
    | Take a \<Rightarrow> if a \<in> set (map fst xs) then Some (filter (\<lambda>(b, _). b \<noteq> a) xs, k) else None
    | DropNext a \<Rightarrow> if a < k \<and> a \<notin> set (map fst xs) then Some s else None
    | DropPrev a \<Rightarrow> if a < k \<and> a \<notin> set (map fst xs) then Some s else None))"

fun steps :: "('s \<Rightarrow> 'o \<Rightarrow> 's option) \<Rightarrow> 's \<Rightarrow> 'o list \<Rightarrow> 's option" where
  "steps f s [] = Some s"
| "steps f s (x # xs) = Option.bind (f s x) (\<lambda>s'. steps f s' xs)"

lemma list_step_refines:
  assumes "holds h l xs" "length h = k" "spec_step (xs, k) oper = Some (ys, k')" "int (length xs) < l_maxLen l"
  shows "\<exists>h' l'. list_step (h, l) oper = Some (h', l') \<and> holds h' l' ys \<and> length h' = k' \<and> l_maxLen l' = l_maxLen l \<and> length ys \<le> Suc (length xs)"
proof (cases oper)
  case (Push v)
  obtain h' l' where "PushBack h l v = Some (h', l', length h)" "holds h' l' (xs @ [(length h, v)])" "l_maxLen l' = l_maxLen l" "length h' = Suc (length h)"
    by (rule holds_PushBack [OF assms(1,4)])
  then show ?thesis using assms Push by (auto simp: list_step_def spec_step_def)
next
  case (Take a)
  then obtain v where "(a, v) \<in> set xs" using assms(3) by (auto simp: spec_step_def split: if_splits)
  from holds_Remove [OF assms(1) this] obtain h' l' where "Remove h l a = Some (h', l', v)" "holds h' l' (filter (\<lambda>(b, _). b \<noteq> a) xs)"
    "l_maxLen l' = l_maxLen l" "length h' = length h" by blast
  then show ?thesis using assms Take by (auto simp: list_step_def spec_step_def split: if_splits intro: le_SucI)
next
  case (DropNext a)
  then have a: "a < length h" "a \<notin> set (map fst xs)" "ys = xs" "k' = k" using assms(2,3) by (auto simp: spec_step_def split: if_splits)
  from holds_Detach [OF assms(1) a(1,2), of DetachNext] show ?thesis using a assms(2) DropNext by (auto simp: list_step_def)
next
  case (DropPrev a)
  then have a: "a < length h" "a \<notin> set (map fst xs)" "ys = xs" "k' = k" using assms(2,3) by (auto simp: spec_step_def split: if_splits)
  from holds_Detach [OF assms(1) a(1,2), of DetachPrev] show ?thesis using a assms(2) DropPrev by (auto simp: list_step_def)
qed

lemma steps_refine:
  assumes "holds h l xs" "length h = k" "steps spec_step (xs, k) ops = Some (ys, k')" "int (length xs + length ops) \<le> l_maxLen l"
  shows "\<exists>h' l'. steps list_step (h, l) ops = Some (h', l') \<and> holds h' l' ys"
  using assms
proof (induction ops arbitrary: h l xs k)
  case (Cons x ops)
  obtain zs k1 where z: "spec_step (xs, k) x = Some (zs, k1)" "steps spec_step (zs, k1) ops = Some (ys, k')"
    using Cons.prems(3) by (auto simp: bind_eq_Some_conv)
  have "int (length xs) < l_maxLen l" using Cons.prems(4) by simp
  from list_step_refines [OF Cons.prems(1,2) z(1) this] obtain h1 l1 where s: "list_step (h, l) x = Some (h1, l1)" "holds h1 l1 zs" "length h1 = k1"
    "l_maxLen l1 = l_maxLen l" "length zs \<le> Suc (length xs)" by blast
  from Cons.IH [OF s(2,3) z(2)] s Cons.prems(4) show ?case by simp
qed simp

section \<open>Properties\<close>

text \<open>
  C18: A list that starts empty behaves as a sequence: if the sequence specification allows a run of
  pushes, removals and detachments, the linked list performs it without a panic, its length and
  both walks over it give the sequence and its reversal, and every waiting call blocks exactly
  while there is nothing to return and its flag has not been signalled.
\<close>

theorem clist_refines:
  assumes "steps spec_step ([], 0) ops = Some (xs, k)" "int (length ops) \<le> MaxLength"
  shows "\<exists>h l. steps list_step ([], CList_New) ops = Some (h, l) \<and> Len l = int (length xs)
     \<and> walk Next h (Front l) = Some xs \<and> walk Prev h (Back l) = Some (rev xs)
     \<and> (FrontWait l = Blocked \<longleftrightarrow> l_open l) \<and> (BackWait l = Blocked \<longleftrightarrow> l_open l)
     \<and> (\<forall>a e. elem h a = Some e \<longrightarrow> (NextWait h a = Some Blocked \<longleftrightarrow> e_nextOpen e) \<and> (PrevWait h a = Some Blocked \<longleftrightarrow> e_prevOpen e))"
proof -
  have "holds [] CList_New []" "l_maxLen CList_New = MaxLength" using New_inv [of MaxLength] by (simp_all add: holds_def CList_New_def newWithMax_def Init_def)
  then obtain h l where s: "steps list_step ([], CList_New) ops = Some (h, l)" "holds h l xs"
    using steps_refine [of "[]" CList_New "[]" 0 ops xs k] assms by auto
  then have "clist_inv h l (map fst xs)" by (simp add: holds_def)
  then show ?thesis using s holds_walk [OF s(2)] FrontWait_open waits_open by blast
qed

theorem clist_refines_witness:
  "\<exists>h l. steps list_step ([], CList_New) [Push ''a'', Push ''b'', Push ''c'', Take 1, DropNext 1, Push ''d'', Take 0] = Some (h, l)
     \<and> walk Next h (Front l) = Some [(2, ''c''), (3, ''d'')] \<and> Len l = 2"
proof -
  let ?ops = "[Push ''a'', Push ''b'', Push ''c'', Take 1, DropNext 1, Push ''d'', Take 0]"
  have "steps spec_step ([], 0) ?ops = Some ([(2, ''c''), (3, ''d'')], 4)" by (simp add: spec_step_def)
  from clist_refines [OF this] show ?thesis by (auto simp: MaxLength_def)
qed

end
