(* ===== verification/Mempool.thy ===== *)
theory Mempool
  imports Concurrent_List Bit_Vector Block_Data
begin

text \<open>
  The mempools of the two systems, \<open>src/source/urd/mempool/mempool.go\<close> and
  \<open>src/source/pyramid/mempool/mempool.go\<close>: a linked list of transactions and a map from a key of
  a transaction to its list element. The validation and lock checks of the application are
  arguments, and so is the hash in the key of the first system.
\<close>

section \<open>State\<close>

type_synonym tx_list = "bytes cheap \<times> CList"

record Mempool =
  m_txs :: tx_list
  m_txsMap :: "(string \<times> nat) list"
  isCrossShardMempool :: bool

definition NewMempool :: "bool \<Rightarrow> Mempool" where
  "NewMempool cross = \<lparr>m_txs = ([], CList_New), m_txsMap = [], isCrossShardMempool = cross\<rparr>"

definition list_push :: "tx_list \<Rightarrow> bytes \<Rightarrow> (tx_list \<times> nat) option" where
  "list_push s v = map_option (\<lambda>(h, l, a). ((h, l), a)) (PushBack (fst s) (snd s) v)"

definition list_remove :: "tx_list \<Rightarrow> nat \<Rightarrow> tx_list option" where
  "list_remove s a = map_option (\<lambda>(h, l, _). (h, l)) (Remove (fst s) (snd s) a)"

text \<open>\<open>hex.EncodeToString\<close>.\<close>

definition hex_digit :: "nat \<Rightarrow> char" where
  "hex_digit n = ''0123456789abcdef'' ! n"

definition EncodeToString :: "bytes \<Rightarrow> string" where
  "EncodeToString bz = concat (map (\<lambda>b. [hex_digit (unat b div 16), hex_digit (unat b mod 16)]) bz)"

definition TxHash :: "hash_fn \<Rightarrow> bytes \<Rightarrow> bytes" where
  "TxHash H tx = H tx"

definition TxKey :: "hash_fn \<Rightarrow> bytes \<Rightarrow> string" where
  "TxKey H tx = EncodeToString (TxHash H tx)"

section \<open>The first system\<close>

datatype mempool_error = InvalidTransaction

definition AddTx :: "(bytes \<Rightarrow> bool \<Rightarrow> bool) \<Rightarrow> hash_fn \<Rightarrow> Mempool \<Rightarrow> bytes \<Rightarrow> (mempool_error + Mempool) option" where
  "AddTx validateTx H mpl tx =
     (if \<not> validateTx tx (isCrossShardMempool mpl) then Some (Inl InvalidTransaction)
      else do {
        (txs, e) \<leftarrow> list_push (m_txs mpl) tx;
        Some (Inr (mpl\<lparr>m_txs := txs, m_txsMap := AList.update (TxKey H tx) e (m_txsMap mpl)\<rparr>)) })"

definition mpl_Receive :: "(bytes \<Rightarrow> bool \<Rightarrow> bool) \<Rightarrow> hash_fn \<Rightarrow> Mempool \<Rightarrow> bytes \<Rightarrow> (mempool_error + Mempool) option" where
  "mpl_Receive validateTx H mpl message = AddTx validateTx H mpl message"

definition RemoveTx :: "hash_fn \<Rightarrow> Mempool \<Rightarrow> bytes \<Rightarrow> Mempool option" where
  "RemoveTx H mpl tx = (case map_of (m_txsMap mpl) (TxKey H tx) of
      None \<Rightarrow> Some mpl
    | Some u \<Rightarrow> map_option (\<lambda>txs. mpl\<lparr>m_txs := txs, m_txsMap := AList.delete (TxKey H tx) (m_txsMap mpl)\<rparr>)
        (list_remove (m_txs mpl) u))"

partial_function (option) reap_loop :: "int \<Rightarrow> bytes cheap \<Rightarrow> nat option \<Rightarrow> int \<Rightarrow> bytes list \<Rightarrow> bytes list option" where
  "reap_loop maxTxsBz h p current txs = (case p of
      None \<Rightarrow> Some txs
    | Some a \<Rightarrow> do {
        e \<leftarrow> elem h a;
        let memTx = e_Value e;
        let current = current + int (length memTx);
        if current \<ge> maxTxsBz then Some txs
        else do {
          n \<leftarrow> Next h a;
          reap_loop maxTxsBz h n current (txs @ [memTx]) } })"

definition ReapTx :: "Mempool \<Rightarrow> int \<Rightarrow> (Txs \<times> int) option" where
  "ReapTx mpl maxTxsBz = map_option (\<lambda>txs. (Some txs, int (length txs)))
     (reap_loop maxTxsBz (fst (m_txs mpl)) (Front (snd (m_txs mpl))) 0 [])"

fun remove_all :: "(Mempool \<Rightarrow> bytes \<Rightarrow> Mempool option) \<Rightarrow> Mempool \<Rightarrow> bytes list \<Rightarrow> Mempool option" where
  "remove_all remove mpl [] = Some mpl"
| "remove_all remove mpl (tx # txs) = Option.bind (remove mpl tx) (\<lambda>mpl'. remove_all remove mpl' txs)"

definition mpl_Update :: "hash_fn \<Rightarrow> Mempool \<Rightarrow> Txs \<Rightarrow> Mempool option" where
  "mpl_Update H mpl txs = (if length (txs_list txs) = 0 then Some mpl else remove_all (RemoveTx H) mpl (txs_list txs))"

section \<open>The second system\<close>

text \<open>The key of a transaction is the transaction itself.\<close>

definition Tx_Key :: "bytes \<Rightarrow> string" where
  "Tx_Key tx = string_of_bytes tx"

definition pyramid_AddTx :: "(bytes \<Rightarrow> bool \<Rightarrow> bool) \<Rightarrow> Mempool \<Rightarrow> bytes \<Rightarrow> (mempool_error + Mempool) option" where
  "pyramid_AddTx validateTx mpl tx =
     (if \<not> validateTx tx (isCrossShardMempool mpl) then Some (Inl InvalidTransaction)
      else do {
        (txs, e) \<leftarrow> list_push (m_txs mpl) tx;
        Some (Inr (mpl\<lparr>m_txs := txs, m_txsMap := AList.update (Tx_Key tx) e (m_txsMap mpl)\<rparr>)) })"

definition pyramid_RemoveTx :: "Mempool \<Rightarrow> bytes \<Rightarrow> Mempool option" where
  "pyramid_RemoveTx mpl tx = (case map_of (m_txsMap mpl) (Tx_Key tx) of
      None \<Rightarrow> Some mpl
    | Some u \<Rightarrow> map_option (\<lambda>txs. mpl\<lparr>m_txs := txs, m_txsMap := AList.delete (Tx_Key tx) (m_txsMap mpl)\<rparr>)
        (list_remove (m_txs mpl) u))"

partial_function (option) pyramid_reap_loop :: "(bytes \<Rightarrow> bool) \<Rightarrow> int \<Rightarrow> bytes cheap \<Rightarrow> nat option \<Rightarrow> bytes list \<Rightarrow> bytes list option" where
  "pyramid_reap_loop checkLock maxTxs h p txs = (case p of
      None \<Rightarrow> Some txs
    | Some a \<Rightarrow> do {
        e \<leftarrow> elem h a;
        n \<leftarrow> Next h a;
        let memTx = e_Value e;
        if \<not> checkLock memTx then pyramid_reap_loop checkLock maxTxs h n txs
        else if int (length (txs @ [memTx])) \<ge> maxTxs then Some (txs @ [memTx])
        else pyramid_reap_loop checkLock maxTxs h n (txs @ [memTx]) })"

text \<open>A negative capacity panics.\<close>

definition pyramid_ReapTx :: "(bytes \<Rightarrow> bool) \<Rightarrow> Mempool \<Rightarrow> int \<Rightarrow> (bytes list \<times> int) option" where
  "pyramid_ReapTx checkLock mpl maxTxs = (if maxTxs < 0 then None
     else map_option (\<lambda>txs. (txs, int (length txs)))
       (pyramid_reap_loop checkLock maxTxs (fst (m_txs mpl)) (Front (snd (m_txs mpl))) []))"

fun remove_committed :: "BitVector option \<Rightarrow> int \<Rightarrow> Mempool \<Rightarrow> bytes list \<Rightarrow> Mempool option" where
  "remove_committed bv i mpl [] = Some mpl"
| "remove_committed bv i mpl (tx # txs) = do {
     c \<leftarrow> GetIndex bv i;
     mpl' \<leftarrow> (if c then pyramid_RemoveTx mpl tx else Some mpl);
     remove_committed bv (i + 1) mpl' txs }"

definition pyramid_Update :: "Mempool \<Rightarrow> bytes list \<Rightarrow> bytes option \<Rightarrow> Mempool option" where
  "pyramid_Update mpl txs commitStatus =
     (if length txs = 0 then Some mpl
      else (case commitStatus of
          Some bz \<Rightarrow> if isCrossShardMempool mpl then do {
              bv \<leftarrow> NewBitArrayFromByte bz;
              remove_committed bv 0 mpl txs }
            else remove_all pyramid_RemoveTx mpl txs
        | None \<Rightarrow> remove_all pyramid_RemoveTx mpl txs))"

section \<open>What a mempool holds\<close>

text \<open>
  The abstract pool: its transactions in order, each with a mark that tells whether the map still
  leads to it. Adding a transaction takes the mark from an older copy, removing one drops the
  marked copy.
\<close>

definition pool_add :: "(bytes \<Rightarrow> string) \<Rightarrow> (bytes \<times> bool) list \<Rightarrow> bytes \<Rightarrow> (bytes \<times> bool) list" where
  "pool_add key ts tx = map (\<lambda>(w, t). (w, t \<and> key w \<noteq> key tx)) ts @ [(tx, True)]"

definition pool_remove :: "(bytes \<Rightarrow> string) \<Rightarrow> (bytes \<times> bool) list \<Rightarrow> bytes \<Rightarrow> (bytes \<times> bool) list" where
  "pool_remove key ts tx = filter (\<lambda>(w, t). \<not> (t \<and> key w = key tx)) ts"

definition pool_view :: "(bytes \<Rightarrow> string) \<Rightarrow> (string \<times> nat) list \<Rightarrow> (nat \<times> bytes) list \<Rightarrow> (bytes \<times> bool) list" where
  "pool_view key m xs = map (\<lambda>(a, w). (w, map_of m (key w) = Some a)) xs"

text \<open>
  What a mempool needs of its list: pushing appends under a fresh name, and removing a name that
  is present takes out its element.
\<close>

locale tx_queue =
  fixes content :: "'s \<Rightarrow> (nat \<times> bytes) list \<Rightarrow> bool"
    and push :: "'s \<Rightarrow> bytes \<Rightarrow> ('s \<times> nat) option"
    and remove :: "'s \<Rightarrow> nat \<Rightarrow> 's option"
    and limit :: nat
  assumes names: "content s xs \<Longrightarrow> distinct (map fst xs)"
    and push_law: "content s xs \<Longrightarrow> length xs < limit \<Longrightarrow> \<exists>s' a. push s v = Some (s', a) \<and> a \<notin> fst ` set xs \<and> content s' (xs @ [(a, v)])"
    and remove_law: "content s xs \<Longrightarrow> (a, v) \<in> set xs \<Longrightarrow> \<exists>s'. remove s a = Some s' \<and> content s' (filter (\<lambda>(b, _). b \<noteq> a) xs)"
begin

definition pool :: "(bytes \<Rightarrow> string) \<Rightarrow> 's \<Rightarrow> (string \<times> nat) list \<Rightarrow> (bytes \<times> bool) list \<Rightarrow> bool" where
  "pool key s m ts \<longleftrightarrow> (\<exists>xs. content s xs \<and> ts = pool_view key m xs \<and> (\<forall>k a. map_of m k = Some a \<longrightarrow> (\<exists>v. (a, v) \<in> set xs \<and> key v = k)))"

lemma pool_push:
  assumes "pool key s m ts" "length ts < limit"
  shows "\<exists>s' a. push s v = Some (s', a) \<and> pool key s' (AList.update (key v) a m) (pool_add key ts v)"
proof -
  obtain xs where xs: "content s xs" "ts = pool_view key m xs" and dom: "\<And>k a. map_of m k = Some a \<Longrightarrow> \<exists>v. (a, v) \<in> set xs \<and> key v = k"
    using assms(1) by (auto simp: pool_def)
  have "length xs < limit" using assms(2) by (simp add: xs(2) pool_view_def)
  from push_law [OF xs(1) this, of v] obtain s' a where p: "push s v = Some (s', a)" "a \<notin> fst ` set xs" "content s' (xs @ [(a, v)])" by blast
  let ?m = "AList.update (key v) a m"
  have "pool_add key ts v = pool_view key ?m (xs @ [(a, v)])"
  proof -
    have "(w, map_of m (key w) = Some b \<and> key w \<noteq> key v) = (w, map_of ?m (key w) = Some b)" if "(b, w) \<in> set xs" for b w
      using p(2) that by (auto simp: update_conv' rev_image_eqI)
    then show ?thesis by (auto simp: pool_add_def pool_view_def xs(2) update_conv')
  qed
  moreover have "\<exists>w. (b, w) \<in> set (xs @ [(a, v)]) \<and> key w = k" if "map_of ?m k = Some b" for k b
    using that dom [of k b] by (cases "k = key v") (auto simp: update_conv')
  ultimately show ?thesis using p(1,3) unfolding pool_def by blast
qed

lemma pool_untracked: "pool key s m ts \<Longrightarrow> map_of m (key v) = None \<Longrightarrow> pool_remove key ts v = ts"
  by (auto simp: pool_def pool_remove_def pool_view_def filter_id_conv)

lemma pool_take:
  assumes "pool key s m ts" "map_of m (key v) = Some a"
  shows "\<exists>s'. remove s a = Some s' \<and> pool key s' (AList.delete (key v) m) (pool_remove key ts v)"
proof -
  obtain xs where xs: "content s xs" "ts = pool_view key m xs" and dom: "\<And>k a. map_of m k = Some a \<Longrightarrow> \<exists>v. (a, v) \<in> set xs \<and> key v = k"
    using assms(1) by (auto simp: pool_def)
  obtain w where w: "(a, w) \<in> set xs" "key w = key v" using dom [OF assms(2)] by blast
  from remove_law [OF xs(1) w(1)] obtain s' where s': "remove s a = Some s'" "content s' (filter (\<lambda>(b, _). b \<noteq> a) xs)" by blast
  have un: "u = w" if "(a, u) \<in> set xs" for u using eq_key_imp_eq_value [OF names [OF xs(1)]] w(1) that by blast
  let ?m = "AList.delete (key v) m"
  have m: "map_of ?m = (map_of m)(key v := None)" by (simp add: delete_conv')
  have t: "map_of m (key u) = Some b \<and> key u = key v \<longleftrightarrow> b = a" if "(b, u) \<in> set xs" for b u
  proof
    show "map_of m (key u) = Some b \<and> key u = key v \<Longrightarrow> b = a" using assms(2) by (metis option.inject)
    show "map_of m (key u) = Some b \<and> key u = key v" if "b = a" using un [of u] \<open>(b, u) \<in> set xs\<close> that w(2) assms(2) by simp
  qed
  have "pool_remove key ts v = map (\<lambda>(b, u). (u, map_of m (key u) = Some b)) (filter (\<lambda>(b, u). \<not> (map_of m (key u) = Some b \<and> key u = key v)) xs)"
    by (simp add: pool_remove_def pool_view_def xs(2) filter_map o_def case_prod_unfold)
  also have "filter (\<lambda>(b, u). \<not> (map_of m (key u) = Some b \<and> key u = key v)) xs = filter (\<lambda>(b, _). b \<noteq> a) xs"
  proof (rule filter_cong [OF refl])
    fix x assume "x \<in> set xs"
    then show "(case x of (b, u) \<Rightarrow> \<not> (map_of m (key u) = Some b \<and> key u = key v)) = (case x of (b, _) \<Rightarrow> b \<noteq> a)"
      using t [of "fst x" "snd x"] by (auto simp: case_prod_unfold)
  qed
  also have "map (\<lambda>(b, u). (u, map_of m (key u) = Some b)) (filter (\<lambda>(b, _). b \<noteq> a) xs) = pool_view key ?m (filter (\<lambda>(b, _). b \<noteq> a) xs)"
    unfolding pool_view_def
  proof (rule map_cong [OF refl])
    fix x assume "x \<in> set (filter (\<lambda>(b, _). b \<noteq> a) xs)"
    then show "(case x of (b, u) \<Rightarrow> (u, map_of m (key u) = Some b)) = (case x of (b, u) \<Rightarrow> (u, map_of ?m (key u) = Some b))"
      using assms(2) by (simp add: m case_prod_unfold)
  qed
  finally have "pool_remove key ts v = pool_view key ?m (filter (\<lambda>(b, _). b \<noteq> a) xs)" .
  moreover have "\<exists>u. (b, u) \<in> set (filter (\<lambda>(b, _). b \<noteq> a) xs) \<and> key u = k" if "map_of ?m k = Some b" for k b
  proof -
    have k: "k \<noteq> key v" "map_of m k = Some b" using that by (auto simp: m split: if_splits)
    then obtain u where "(b, u) \<in> set xs" "key u = k" using dom by blast
    moreover have "b \<noteq> a" using un [of u] calculation k(1) w(2) by metis
    ultimately show ?thesis by auto
  qed
  ultimately show ?thesis using s' unfolding pool_def by blast
qed

end

definition list_content :: "tx_list \<Rightarrow> (nat \<times> bytes) list \<Rightarrow> bool" where
  "list_content s xs \<longleftrightarrow> holds (fst s) (snd s) xs \<and> l_maxLen (snd s) = MaxLength"

interpretation clist: tx_queue list_content list_push list_remove "nat MaxLength"
proof
  fix s xs assume "list_content s xs"
  then show "distinct (map fst xs)" by (simp add: list_content_def holds_def clist_inv_def)
next
  fix s :: tx_list and xs v assume a: "list_content s xs" "length xs < nat MaxLength"
  then have h: "holds (fst s) (snd s) xs" "int (length xs) < l_maxLen (snd s)" by (simp_all add: list_content_def)
  have "length (fst s) \<notin> fst ` set xs" using holds_value [OF h(1)] by fastforce
  moreover obtain h' l' where "PushBack (fst s) (snd s) v = Some (h', l', length (fst s))" "holds h' l' (xs @ [(length (fst s), v)])"
    "l_maxLen l' = l_maxLen (snd s)" by (rule holds_PushBack [OF h])
  ultimately show "\<exists>s' a. list_push s v = Some (s', a) \<and> a \<notin> fst ` set xs \<and> list_content s' (xs @ [(a, v)])"
    using a(1) by (intro exI [of _ "(h', l')"] exI [of _ "length (fst s)"]) (simp add: list_push_def list_content_def)
next
  fix s :: tx_list and xs a v assume a: "list_content s xs" "(a, v) \<in> set xs"
  then have h: "holds (fst s) (snd s) xs" "l_maxLen (snd s) = MaxLength" by (simp_all add: list_content_def)
  obtain h' l' where "Remove (fst s) (snd s) a = Some (h', l', v)" "holds h' l' (filter (\<lambda>(b, _). b \<noteq> a) xs)" "l_maxLen l' = l_maxLen (snd s)"
    by (rule holds_Remove [OF h(1) a(2)])
  then show "\<exists>s'. list_remove s a = Some s' \<and> list_content s' (filter (\<lambda>(b, _). b \<noteq> a) xs)"
    using h(2) by (intro exI [of _ "(h', l')"]) (simp add: list_remove_def list_content_def)
qed

section \<open>Operations on mempools\<close>

definition mempool_inv :: "(bytes \<Rightarrow> string) \<Rightarrow> Mempool \<Rightarrow> (bytes \<times> bool) list \<Rightarrow> bool" where
  "mempool_inv key mpl ts \<longleftrightarrow> clist.pool key (m_txs mpl) (m_txsMap mpl) ts"

lemma inv_New: "mempool_inv key (NewMempool cross) []"
proof -
  have "list_content ([], CList_New) []"
    using New_inv [of MaxLength] by (simp add: list_content_def holds_def CList_New_def) (simp add: newWithMax_def Init_def)
  then show ?thesis unfolding mempool_inv_def clist.pool_def by (auto simp: NewMempool_def pool_view_def)
qed

lemma inv_content:
  assumes "mempool_inv key mpl ts"
  obtains xs where "holds (fst (m_txs mpl)) (snd (m_txs mpl)) xs" "map snd xs = map fst ts"
  using assms unfolding mempool_inv_def clist.pool_def by (auto simp: list_content_def pool_view_def o_def case_prod_unfold intro: that)

lemma inv_push:
  assumes "mempool_inv key mpl ts" "int (length ts) < MaxLength"
  obtains txs e where "list_push (m_txs mpl) tx = Some (txs, e)"
    "mempool_inv key (mpl\<lparr>m_txs := txs, m_txsMap := AList.update (key tx) e (m_txsMap mpl)\<rparr>) (pool_add key ts tx)"
  using clist.pool_push [of key "m_txs mpl" "m_txsMap mpl" ts tx] assms that unfolding mempool_inv_def by (auto simp: zless_nat_eq_int_zless)

lemma inv_take:
  assumes "mempool_inv key mpl ts"
  obtains mpl' where "(case map_of (m_txsMap mpl) (key tx) of None \<Rightarrow> Some mpl
      | Some u \<Rightarrow> map_option (\<lambda>txs. mpl\<lparr>m_txs := txs, m_txsMap := AList.delete (key tx) (m_txsMap mpl)\<rparr>) (list_remove (m_txs mpl) u)) = Some mpl'"
    "mempool_inv key mpl' (pool_remove key ts tx)" "isCrossShardMempool mpl' = isCrossShardMempool mpl"
proof (cases "map_of (m_txsMap mpl) (key tx)")
  case None
  then show ?thesis using that [of mpl] assms clist.pool_untracked [of key "m_txs mpl" "m_txsMap mpl" ts tx] by (simp add: mempool_inv_def)
next
  case (Some a)
  from clist.pool_take [OF assms [unfolded mempool_inv_def] Some] obtain s' where "list_remove (m_txs mpl) a = Some s'"
    "clist.pool key s' (AList.delete (key tx) (m_txsMap mpl)) (pool_remove key ts tx)" by blast
  then show ?thesis using that [of "mpl\<lparr>m_txs := s', m_txsMap := AList.delete (key tx) (m_txsMap mpl)\<rparr>"] Some by (simp add: mempool_inv_def)
qed

lemma inv_remove_all:
  assumes "\<And>m tx. remove m tx = (case map_of (m_txsMap m) (key tx) of None \<Rightarrow> Some m
      | Some u \<Rightarrow> map_option (\<lambda>txs. m\<lparr>m_txs := txs, m_txsMap := AList.delete (key tx) (m_txsMap m)\<rparr>) (list_remove (m_txs m) u))"
    and "mempool_inv key mpl ts"
  shows "\<exists>mpl'. remove_all remove mpl txs = Some mpl' \<and> mempool_inv key mpl' (foldl (pool_remove key) ts txs)
     \<and> isCrossShardMempool mpl' = isCrossShardMempool mpl"
  using assms(2)
proof (induction txs arbitrary: mpl ts)
  case (Cons tx txs)
  obtain m1 where m1: "remove mpl tx = Some m1" "mempool_inv key m1 (pool_remove key ts tx)" "isCrossShardMempool m1 = isCrossShardMempool mpl"
    using inv_take [OF Cons.prems, of tx] assms(1) [of mpl tx] by metis
  from Cons.IH [OF m1(2)] m1 show ?case by auto
qed simp

section \<open>Reaping\<close>

text \<open>The longest prefix of fewer than the given number of bytes.\<close>

fun reap_prefix :: "int \<Rightarrow> bytes list \<Rightarrow> bytes list" where
  "reap_prefix m [] = []"
| "reap_prefix m (t # ts) = (if int (length t) \<ge> m then [] else t # reap_prefix (m - int (length t)) ts)"

lemma reap_prefix_spec:
  "\<exists>rest. ts = reap_prefix m ts @ rest \<and> (reap_prefix m ts \<noteq> [] \<longrightarrow> int (sum_list (map length (reap_prefix m ts))) < m)
     \<and> (rest \<noteq> [] \<longrightarrow> int (sum_list (map length (reap_prefix m ts)) + length (hd rest)) \<ge> m)"
proof (induction m ts rule: reap_prefix.induct)
  case (2 m t ts)
  show ?case
  proof (cases "int (length t) \<ge> m")
    case False
    from 2 [OF False] obtain rest where r: "ts = reap_prefix (m - int (length t)) ts @ rest"
      "reap_prefix (m - int (length t)) ts \<noteq> [] \<longrightarrow> int (sum_list (map length (reap_prefix (m - int (length t)) ts))) < m - int (length t)"
      "rest \<noteq> [] \<longrightarrow> int (sum_list (map length (reap_prefix (m - int (length t)) ts)) + length (hd rest)) \<ge> m - int (length t)" by blast
    show ?thesis by (rule exI [of _ rest]) (use False r in \<open>auto split: if_splits\<close>)
  qed simp
qed simp

lemma reap_loop_chain:
  assumes "chain h p (map fst xs) None" "list_all (\<lambda>(a, v). e_Value (h ! a) = v) xs"
  shows "reap_loop m h (first_of (map fst xs) None) c acc = Some (acc @ reap_prefix (m - c) (map snd xs))"
  using assms
proof (induction xs arbitrary: p c acc)
  case (Cons x xs)
  have x: "fst x < length h" "e_next (h ! fst x) = first_of (map fst xs) None" "chain h (Some (fst x)) (map fst xs) None" "e_Value (h ! fst x) = snd x"
    "list_all (\<lambda>(a, v). e_Value (h ! a) = v) xs" using Cons.prems by (auto simp: case_prod_unfold)
  show ?case using x Cons.IH [OF x(3,5)]
    by (simp add: reap_loop.simps [of m h "Some (fst x)"] elem_def Next_def Let_def algebra_simps)
qed (simp add: reap_loop.simps)

lemma pyramid_reap_chain:
  assumes "chain h p (map fst xs) None" "list_all (\<lambda>(a, v). e_Value (h ! a) = v) xs" "length acc < k"
  shows "pyramid_reap_loop ok (int k) h (first_of (map fst xs) None) acc = Some (acc @ take (k - length acc) (filter ok (map snd xs)))"
  using assms
proof (induction xs arbitrary: p acc)
  case (Cons x xs)
  have x: "fst x < length h" "e_next (h ! fst x) = first_of (map fst xs) None" "chain h (Some (fst x)) (map fst xs) None" "e_Value (h ! fst x) = snd x"
    "list_all (\<lambda>(a, v). e_Value (h ! a) = v) xs" using Cons.prems by (auto simp: case_prod_unfold)
  note s = pyramid_reap_loop.simps [of ok "int k" h "Some (fst x)" acc]
  show ?case
  proof (cases "ok (snd x)")
    case True
    show ?thesis
    proof (cases "Suc (length acc) < k")
      case more: True
      then obtain j where "k - length acc = Suc j" "k - length (acc @ [snd x]) = j" using Cons.prems(3) by (metis Suc_diff_Suc diff_Suc_Suc length_append_singleton)
      then show ?thesis using x True more Cons.IH [OF x(3,5), of "acc @ [snd x]"] by (simp add: s elem_def Next_def Let_def)
    next
      case False
      then have "k - length acc = 1" using Cons.prems(3) by simp
      then show ?thesis using x True False by (simp add: s elem_def Next_def Let_def)
    qed
  next
    case False
    then show ?thesis using x Cons.IH [OF x(3,5) Cons.prems(3)] by (simp add: s elem_def Next_def Let_def)
  qed
qed (simp add: pyramid_reap_loop.simps)

lemma ReapTx_content:
  assumes "mempool_inv key mpl ts"
  shows "ReapTx mpl m = Some (Some (reap_prefix m (map fst ts)), int (length (reap_prefix m (map fst ts))))"
proof -
  obtain xs where xs: "holds (fst (m_txs mpl)) (snd (m_txs mpl)) xs" "map snd xs = map fst ts" by (rule inv_content [OF assms])
  then show ?thesis using reap_loop_chain [of "fst (m_txs mpl)" None xs m 0 "[]"]
    by (auto simp: ReapTx_def holds_def clist_inv_def Front_def)
qed

lemma pyramid_ReapTx_content:
  assumes "mempool_inv key mpl ts" "m > 0"
  shows "pyramid_ReapTx ok mpl m = Some (take (nat m) (filter ok (map fst ts)), int (length (take (nat m) (filter ok (map fst ts)))))"
proof -
  obtain xs where xs: "holds (fst (m_txs mpl)) (snd (m_txs mpl)) xs" "map snd xs = map fst ts" by (rule inv_content [OF assms(1)])
  then show ?thesis using pyramid_reap_chain [of "fst (m_txs mpl)" None xs "[]" "nat m" ok] assms(2)
    by (auto simp: pyramid_ReapTx_def holds_def clist_inv_def Front_def)
qed

section \<open>Sequences of operations\<close>

datatype pool_op = Arrive bytes | Commit "bytes list"

definition pool_step :: "(bytes \<Rightarrow> bool) \<Rightarrow> (bytes \<Rightarrow> string) \<Rightarrow> (bytes \<times> bool) list \<Rightarrow> pool_op \<Rightarrow> (bytes \<times> bool) list" where
  "pool_step valid key ts oper = (case oper of
      Arrive tx \<Rightarrow> if valid tx then pool_add key ts tx else ts
    | Commit txs \<Rightarrow> foldl (pool_remove key) ts txs)"

definition mempool_step :: "(bytes \<Rightarrow> bool \<Rightarrow> bool) \<Rightarrow> hash_fn \<Rightarrow> Mempool \<Rightarrow> pool_op \<Rightarrow> Mempool option" where
  "mempool_step validateTx H mpl oper = (case oper of
      Arrive tx \<Rightarrow> map_option (\<lambda>r. case r of Inl _ \<Rightarrow> mpl | Inr mpl' \<Rightarrow> mpl') (mpl_Receive validateTx H mpl tx)
    | Commit txs \<Rightarrow> mpl_Update H mpl (Some txs))"

definition pyramid_step :: "(bytes \<Rightarrow> bool \<Rightarrow> bool) \<Rightarrow> Mempool \<Rightarrow> pool_op \<Rightarrow> Mempool option" where
  "pyramid_step validateTx mpl oper = (case oper of
      Arrive tx \<Rightarrow> map_option (\<lambda>r. case r of Inl _ \<Rightarrow> mpl | Inr mpl' \<Rightarrow> mpl') (pyramid_AddTx validateTx mpl tx)
    | Commit txs \<Rightarrow> pyramid_Update mpl txs None)"

lemma pool_step_length: "length (pool_step valid key ts oper) \<le> Suc (length ts)"
proof -
  have "length (foldl (pool_remove key) ts txs) \<le> length ts" for txs
  proof (induction txs arbitrary: ts)
    case (Cons tx txs)
    have "length (pool_remove key ts tx) \<le> length ts" by (simp add: pool_remove_def)
    with Cons [of "pool_remove key ts tx"] show ?case by simp
  qed simp
  then show ?thesis by (auto simp: pool_step_def pool_add_def le_SucI split: pool_op.split)
qed

lemma mempool_step_inv:
  assumes "mempool_inv (TxKey H) mpl ts" "int (length ts) < MaxLength"
  shows "\<exists>mpl'. mempool_step validateTx H mpl oper = Some mpl' \<and> isCrossShardMempool mpl' = isCrossShardMempool mpl
     \<and> mempool_inv (TxKey H) mpl' (pool_step (\<lambda>tx. validateTx tx (isCrossShardMempool mpl)) (TxKey H) ts oper)"
proof (cases oper)
  case (Arrive tx)
  obtain txs e where "list_push (m_txs mpl) tx = Some (txs, e)"
    "mempool_inv (TxKey H) (mpl\<lparr>m_txs := txs, m_txsMap := AList.update (TxKey H tx) e (m_txsMap mpl)\<rparr>) (pool_add (TxKey H) ts tx)"
    by (rule inv_push [OF assms])
  then show ?thesis using assms(1) by (simp add: Arrive mempool_step_def mpl_Receive_def AddTx_def pool_step_def)
next
  case (Commit txs)
  show ?thesis using inv_remove_all [of "RemoveTx H", OF RemoveTx_def assms(1), of txs] assms(1)
    by (auto simp: Commit mempool_step_def mpl_Update_def pool_step_def txs_list_def)
qed

lemma pyramid_step_inv:
  assumes "mempool_inv Tx_Key mpl ts" "int (length ts) < MaxLength"
  shows "\<exists>mpl'. pyramid_step validateTx mpl oper = Some mpl' \<and> isCrossShardMempool mpl' = isCrossShardMempool mpl
     \<and> mempool_inv Tx_Key mpl' (pool_step (\<lambda>tx. validateTx tx (isCrossShardMempool mpl)) Tx_Key ts oper)"
proof (cases oper)
  case (Arrive tx)
  obtain txs e where "list_push (m_txs mpl) tx = Some (txs, e)"
    "mempool_inv Tx_Key (mpl\<lparr>m_txs := txs, m_txsMap := AList.update (Tx_Key tx) e (m_txsMap mpl)\<rparr>) (pool_add Tx_Key ts tx)"
    by (rule inv_push [OF assms])
  then show ?thesis using assms(1) by (simp add: Arrive pyramid_step_def pyramid_AddTx_def pool_step_def)
next
  case (Commit txs)
  show ?thesis using inv_remove_all [of pyramid_RemoveTx, OF pyramid_RemoveTx_def assms(1), of txs] assms(1)
    by (auto simp: Commit pyramid_step_def pyramid_Update_def pool_step_def)
qed

lemma pool_steps:
  assumes step: "\<And>mpl ts oper. mempool_inv key mpl ts \<Longrightarrow> isCrossShardMempool mpl = cross \<Longrightarrow> int (length ts) < MaxLength \<Longrightarrow>
      \<exists>mpl'. f mpl oper = Some mpl' \<and> isCrossShardMempool mpl' = cross \<and> mempool_inv key mpl' (pool_step valid key ts oper)"
    and "mempool_inv key mpl ts" "isCrossShardMempool mpl = cross" "int (length ts + length ops) \<le> MaxLength"
  shows "\<exists>mpl'. steps f mpl ops = Some mpl' \<and> mempool_inv key mpl' (foldl (pool_step valid key) ts ops)"
  using assms(2-)
proof (induction ops arbitrary: mpl ts)
  case (Cons x ops)
  have "int (length ts) < MaxLength" using Cons.prems(3) by simp
  from step [OF Cons.prems(1,2) this, of x] obtain m1 where m1: "f mpl x = Some m1" "isCrossShardMempool m1 = cross" "mempool_inv key m1 (pool_step valid key ts x)" by blast
  have "int (length (pool_step valid key ts x) + length ops) \<le> MaxLength" using pool_step_length [of valid key ts x] Cons.prems(3) by simp
  from Cons.IH [OF m1(3,2) this] m1(1) show ?case by simp
qed simp

lemma mempool_steps:
  assumes "int (length ops) \<le> MaxLength"
  shows "\<exists>mpl. steps (mempool_step validateTx H) (NewMempool cross) ops = Some mpl
     \<and> mempool_inv (TxKey H) mpl (foldl (pool_step (\<lambda>tx. validateTx tx cross) (TxKey H)) [] ops)"
proof (rule pool_steps [where cross = cross, OF _ inv_New])
  fix mpl ts oper assume a: "mempool_inv (TxKey H) mpl ts" "isCrossShardMempool mpl = cross" "int (length ts) < MaxLength"
  from mempool_step_inv [OF a(1,3), of validateTx oper] a(2)
  show "\<exists>mpl'. mempool_step validateTx H mpl oper = Some mpl' \<and> isCrossShardMempool mpl' = cross
     \<and> mempool_inv (TxKey H) mpl' (pool_step (\<lambda>tx. validateTx tx cross) (TxKey H) ts oper)" by simp
qed (use assms in \<open>simp_all add: NewMempool_def\<close>)

lemma pyramid_steps:
  assumes "int (length ops) \<le> MaxLength"
  shows "\<exists>mpl. steps (pyramid_step validateTx) (NewMempool cross) ops = Some mpl
     \<and> mempool_inv Tx_Key mpl (foldl (pool_step (\<lambda>tx. validateTx tx cross) Tx_Key) [] ops)"
proof (rule pool_steps [where cross = cross, OF _ inv_New])
  fix mpl ts oper assume a: "mempool_inv Tx_Key mpl ts" "isCrossShardMempool mpl = cross" "int (length ts) < MaxLength"
  from pyramid_step_inv [OF a(1,3), of validateTx oper] a(2)
  show "\<exists>mpl'. pyramid_step validateTx mpl oper = Some mpl' \<and> isCrossShardMempool mpl' = cross
     \<and> mempool_inv Tx_Key mpl' (pool_step (\<lambda>tx. validateTx tx cross) Tx_Key ts oper)" by simp
qed (use assms in \<open>simp_all add: NewMempool_def\<close>)

text \<open>A copy that has lost its mark stays whatever happens.\<close>

lemma unmarked_stays: "(tx, False) \<in> set ts \<Longrightarrow> (tx, False) \<in> set (foldl (pool_step valid key) ts ops)"
proof (induction ops arbitrary: ts)
  case (Cons x ops)
  have "(tx, False) \<in> set (foldl (pool_remove key) us txs)" if "(tx, False) \<in> set us" for us txs
    using that by (induction txs arbitrary: us) (auto simp: pool_remove_def)
  then have "(tx, False) \<in> set (pool_step valid key ts x)" using Cons.prems by (force simp: pool_step_def pool_add_def split: pool_op.split)
  from Cons.IH [OF this] show ?case by simp
qed simp

section \<open>Properties\<close>

text \<open>
  C17: The mempool of the first system holds, after any sequence of arrivals and commits, exactly the
  transactions of the abstract pool in their order, without a panic, and \<open>ReapTx\<close> returns a prefix
  of them that is below the byte limit and as long as possible.
\<close>

theorem mempool_refines:
  assumes "int (length ops) \<le> MaxLength"
  shows "\<exists>mpl xs txs rest. steps (mempool_step validateTx H) (NewMempool cross) ops = Some mpl
     \<and> walk Next (fst (m_txs mpl)) (Front (snd (m_txs mpl))) = Some xs
     \<and> map snd xs = map fst (foldl (pool_step (\<lambda>tx. validateTx tx cross) (TxKey H)) [] ops)
     \<and> ReapTx mpl m = Some (Some txs, int (length txs)) \<and> map snd xs = txs @ rest
     \<and> (txs = [] \<or> int (sum_list (map length txs)) < m) \<and> (rest = [] \<or> int (sum_list (map length txs) + length (hd rest)) \<ge> m)"
proof -
  let ?ts = "foldl (pool_step (\<lambda>tx. validateTx tx cross) (TxKey H)) [] ops"
  obtain mpl where m: "steps (mempool_step validateTx H) (NewMempool cross) ops = Some mpl" "mempool_inv (TxKey H) mpl ?ts" using mempool_steps [OF assms] by blast
  obtain xs where x: "holds (fst (m_txs mpl)) (snd (m_txs mpl)) xs" "map snd xs = map fst ?ts" by (rule inv_content [OF m(2)])
  show ?thesis using m(1) holds_walk(1) [OF x(1)] x(2) ReapTx_content [OF m(2), of m] reap_prefix_spec [of "map fst ?ts" m] by fastforce
qed

theorem mempool_refines_witness:
  "\<exists>mpl. steps (mempool_step (\<lambda>_ _. True) id) (NewMempool False) [Arrive [1, 2], Arrive [3], Arrive [4], Commit [[3]]] = Some mpl
     \<and> (\<exists>xs. walk Next (fst (m_txs mpl)) (Front (snd (m_txs mpl))) = Some xs \<and> map snd xs = [[1, 2], [4]])"
proof -
  have "foldl (pool_step (\<lambda>_. True) (TxKey id)) [] [Arrive [1, 2], Arrive [3], Arrive [4], Commit [[3]]] = [([1, 2], True), ([4], True)]"
    by code_simp
  then show ?thesis using mempool_refines [of "[Arrive [1, 2], Arrive [3], Arrive [4], Commit [[3]]]" "\<lambda>_ _. True" id False 10]
    by (auto simp: MaxLength_def)
qed



text \<open>
  The mempool of the second system holds the abstract pool too, and \<open>ReapTx\<close> with a positive limit
  returns the first transactions whose accounts are free.
\<close>

theorem pyramid_mempool_refines:
  assumes "int (length ops) \<le> MaxLength" "m > 0"
  shows "\<exists>mpl xs. steps (pyramid_step validateTx) (NewMempool cross) ops = Some mpl
     \<and> walk Next (fst (m_txs mpl)) (Front (snd (m_txs mpl))) = Some xs
     \<and> map snd xs = map fst (foldl (pool_step (\<lambda>tx. validateTx tx cross) Tx_Key) [] ops)
     \<and> pyramid_ReapTx checkLock mpl m = Some (take (nat m) (filter checkLock (map snd xs)), int (length (take (nat m) (filter checkLock (map snd xs)))))"
proof -
  let ?ts = "foldl (pool_step (\<lambda>tx. validateTx tx cross) Tx_Key) [] ops"
  obtain mpl where m: "steps (pyramid_step validateTx) (NewMempool cross) ops = Some mpl" "mempool_inv Tx_Key mpl ?ts" using pyramid_steps [OF assms(1)] by blast
  obtain xs where x: "holds (fst (m_txs mpl)) (snd (m_txs mpl)) xs" "map snd xs = map fst ?ts" by (rule inv_content [OF m(2)])
  show ?thesis using m(1) holds_walk(1) [OF x(1)] x(2) pyramid_ReapTx_content [OF m(2) assms(2), of checkLock] by (intro exI [of _ mpl] exI [of _ xs]) simp
qed

end
