(* ===== verification/Mem_DB.thy ===== *)
theory Mem_DB
  imports Key_Store
begin

text \<open>
  The in-memory backend, \<open>src/source/libs/db/memdb.go\<close>, its batches (\<open>memdb_batch.go\<close>) and its
  iterators (\<open>memdb_iterator.go\<close>). The B-tree comes from another repository: \<open>btree_ops\<close> is the
  record of the methods the backend calls, an argument of every definition, and
  \<open>lawful_btree\<close> is what its documentation says of them. Traversals are given as the list of
  items a visitor that never stops would see. The goroutine and the channel of an iterator are
  the list of items not yet received: the tree does not change while an iterator is open,
  because the iterator holds the read lock.
\<close>

section \<open>The B-tree\<close>

record item =
  key :: bytes
  val :: "bytes option"

definition item_Less :: "item \<Rightarrow> item \<Rightarrow> bool" where
  "item_Less i other \<longleftrightarrow> key i < key other"

definition newKey :: "bytes \<Rightarrow> item" where
  "newKey k = \<lparr>key = k, val = None\<rparr>"

definition newPair :: "bytes \<Rightarrow> bytes option \<Rightarrow> item" where
  "newPair k v = \<lparr>key = k, val = v\<rparr>"

record 't btree_ops =
  bt_New :: 't
  bt_Get :: "'t \<Rightarrow> item \<Rightarrow> item option"
  bt_Has :: "'t \<Rightarrow> item \<Rightarrow> bool"
  bt_ReplaceOrInsert :: "'t \<Rightarrow> item \<Rightarrow> 't"
  bt_Delete :: "'t \<Rightarrow> item \<Rightarrow> 't"
  bt_Ascend :: "'t \<Rightarrow> item list"
  bt_AscendGreaterOrEqual :: "'t \<Rightarrow> item \<Rightarrow> item list"
  bt_AscendRange :: "'t \<Rightarrow> item \<Rightarrow> item \<Rightarrow> item list"
  bt_Descend :: "'t \<Rightarrow> item list"
  bt_DescendLessOrEqual :: "'t \<Rightarrow> item \<Rightarrow> item list"

text \<open>
  The documented behaviour of the tree for the order \<open>Less\<close>: an ordered set of items without
  equal ones, where two items are equal when neither is less than the other.
\<close>

definition lawful_btree :: "'t btree_ops \<Rightarrow> bool" where
  "lawful_btree B \<longleftrightarrow>
     bt_Ascend B (bt_New B) = []
     \<and> (\<forall>t. sorted_wrt item_Less (bt_Ascend B t))
     \<and> (\<forall>t i. set (bt_Ascend B (bt_ReplaceOrInsert B t i)) = insert i {x \<in> set (bt_Ascend B t). key x \<noteq> key i})
     \<and> (\<forall>t i. set (bt_Ascend B (bt_Delete B t i)) = {x \<in> set (bt_Ascend B t). key x \<noteq> key i})
     \<and> (\<forall>t i. bt_Get B t i = find (\<lambda>x. key x = key i) (bt_Ascend B t))
     \<and> (\<forall>t i. bt_Has B t i \<longleftrightarrow> (\<exists>x \<in> set (bt_Ascend B t). key x = key i))
     \<and> (\<forall>t i. bt_AscendGreaterOrEqual B t i = filter (\<lambda>x. key i \<le> key x) (bt_Ascend B t))
     \<and> (\<forall>t i j. bt_AscendRange B t i j = filter (\<lambda>x. key i \<le> key x \<and> key x < key j) (bt_Ascend B t))
     \<and> (\<forall>t. bt_Descend B t = rev (bt_Ascend B t))
     \<and> (\<forall>t i. bt_DescendLessOrEqual B t i = filter (\<lambda>x. key x \<le> key i) (rev (bt_Ascend B t)))"

section \<open>The backend\<close>

definition MemDB_Get :: "'t btree_ops \<Rightarrow> 't \<Rightarrow> bytes \<Rightarrow> db_error + bytes option" where
  "MemDB_Get B db k =
     (if length k = 0 then Inl errKeyEmpty
      else (case bt_Get B db (newKey k) of Some i \<Rightarrow> Inr (val i) | None \<Rightarrow> Inr None))"

definition MemDB_Has :: "'t btree_ops \<Rightarrow> 't \<Rightarrow> bytes \<Rightarrow> db_error + bool" where
  "MemDB_Has B db k = (if length k = 0 then Inl errKeyEmpty else Inr (bt_Has B db (newKey k)))"

definition MemDB_set :: "'t btree_ops \<Rightarrow> 't \<Rightarrow> bytes \<Rightarrow> bytes option \<Rightarrow> 't" where
  "MemDB_set B db k v = bt_ReplaceOrInsert B db (newPair k v)"

definition MemDB_Set :: "'t btree_ops \<Rightarrow> 't \<Rightarrow> bytes \<Rightarrow> bytes option \<Rightarrow> db_error + 't" where
  "MemDB_Set B db k v =
     (if length k = 0 then Inl errKeyEmpty else if v = None then Inl errValueNil else Inr (MemDB_set B db k v))"

definition MemDB_SetSync :: "'t btree_ops \<Rightarrow> 't \<Rightarrow> bytes \<Rightarrow> bytes option \<Rightarrow> db_error + 't" where
  "MemDB_SetSync B db k v = MemDB_Set B db k v"

definition MemDB_delete :: "'t btree_ops \<Rightarrow> 't \<Rightarrow> bytes \<Rightarrow> 't" where
  "MemDB_delete B db k = bt_Delete B db (newKey k)"

definition MemDB_Delete :: "'t btree_ops \<Rightarrow> 't \<Rightarrow> bytes \<Rightarrow> db_error + 't" where
  "MemDB_Delete B db k = (if length k = 0 then Inl errKeyEmpty else Inr (MemDB_delete B db k))"

definition MemDB_DeleteSync :: "'t btree_ops \<Rightarrow> 't \<Rightarrow> bytes \<Rightarrow> db_error + 't" where
  "MemDB_DeleteSync B db k = MemDB_Delete B db k"

section \<open>Batches\<close>

text \<open>The operations of a batch; \<open>None\<close> is the closed batch.\<close>

type_synonym memDBBatch = "batch_op list option"

definition newMemDBBatch :: memDBBatch where
  "newMemDBBatch = Some []"

definition Batch_Set :: "memDBBatch \<Rightarrow> bytes \<Rightarrow> bytes option \<Rightarrow> db_error + memDBBatch" where
  "Batch_Set b k v =
     (if length k = 0 then Inl errKeyEmpty else if v = None then Inl errValueNil
      else (case b of None \<Rightarrow> Inl errBatchClosed | Some ops \<Rightarrow> Inr (Some (ops @ [OpSet k v]))))"

definition Batch_Delete :: "memDBBatch \<Rightarrow> bytes \<Rightarrow> db_error + memDBBatch" where
  "Batch_Delete b k =
     (if length k = 0 then Inl errKeyEmpty
      else (case b of None \<Rightarrow> Inl errBatchClosed | Some ops \<Rightarrow> Inr (Some (ops @ [OpDelete k]))))"

definition Batch_Close :: "memDBBatch \<Rightarrow> memDBBatch" where
  "Batch_Close b = None"

fun write_op :: "'t btree_ops \<Rightarrow> 't \<Rightarrow> batch_op \<Rightarrow> 't" where
  "write_op B db (OpSet k v) = MemDB_set B db k v"
| "write_op B db (OpDelete k) = MemDB_delete B db k"

definition Batch_Write :: "'t btree_ops \<Rightarrow> 't \<Rightarrow> memDBBatch \<Rightarrow> db_error + 't \<times> memDBBatch" where
  "Batch_Write B db b = (case b of
      None \<Rightarrow> Inl errBatchClosed
    | Some ops \<Rightarrow> Inr (foldl (write_op B) db ops, Batch_Close b))"

definition Batch_WriteSync :: "'t btree_ops \<Rightarrow> 't \<Rightarrow> memDBBatch \<Rightarrow> db_error + 't \<times> memDBBatch" where
  "Batch_WriteSync B db b = Batch_Write B db b"

text \<open>A batch filled by its clients one call at a time and then written.\<close>

fun fill_batch :: "memDBBatch \<Rightarrow> batch_op list \<Rightarrow> db_error + memDBBatch" where
  "fill_batch b [] = Inr b"
| "fill_batch b (op # ops) =
     (case (case op of OpSet k v \<Rightarrow> Batch_Set b k v | OpDelete k \<Rightarrow> Batch_Delete b k) of
        Inl e \<Rightarrow> Inl e
      | Inr b' \<Rightarrow> fill_batch b' ops)"

definition write_all :: "'t btree_ops \<Rightarrow> 't \<Rightarrow> batch_op list \<Rightarrow> db_error + 't" where
  "write_all B db ops = (case fill_batch newMemDBBatch ops of
      Inl e \<Rightarrow> Inl e
    | Inr b \<Rightarrow> (case Batch_WriteSync B db b of Inl e \<Rightarrow> Inl e | Inr (db', _) \<Rightarrow> Inr db'))"

definition MemDB :: "'t btree_ops \<Rightarrow> 't db_ops" where
  "MemDB B = \<lparr>db_Get = MemDB_Get B, db_Has = MemDB_Has B, db_Set = MemDB_Set B, db_Delete = MemDB_Delete B,
     db_Write = write_all B\<rparr>"

section \<open>Iterators\<close>

record memDBIterator =
  ch :: "item list"
  it_item :: "item option"
  it_start :: "bytes option"
  it_end :: "bytes option"

text \<open>The visitor: what it sends on the channel of the items it is shown.\<close>

fun visitor :: "bytes option \<Rightarrow> bytes option \<Rightarrow> item list \<Rightarrow> item list" where
  "visitor skipEqual abortLessThan [] = []"
| "visitor skipEqual abortLessThan (i # is) =
     (if skipEqual = Some (key i) then visitor None abortLessThan is
      else if (case abortLessThan of None \<Rightarrow> False | Some a \<Rightarrow> key i < a) then []
      else i # visitor skipEqual abortLessThan is)"

definition newMemDBIterator :: "'t btree_ops \<Rightarrow> 't \<Rightarrow> bytes option \<Rightarrow> bytes option \<Rightarrow> bool \<Rightarrow> memDBIterator" where
  "newMemDBIterator B db start stop reverse =
     (let sent =
        (if start = None \<and> stop = None \<and> \<not> reverse then visitor None None (bt_Ascend B db)
         else if start = None \<and> stop = None \<and> reverse then visitor None None (bt_Descend B db)
         else if stop = None \<and> \<not> reverse then visitor None None (bt_AscendGreaterOrEqual B db (newKey (slice_bytes start)))
         else if \<not> reverse
           then visitor None None (bt_AscendRange B db (newKey (slice_bytes start)) (newKey (slice_bytes stop)))
         else if stop = None then visitor None start (bt_Descend B db)
         else visitor stop start (bt_DescendLessOrEqual B db (newKey (slice_bytes stop))))
      in \<lparr>ch = tl sent, it_item = (case sent of [] \<Rightarrow> None | i # _ \<Rightarrow> Some i), it_start = start, it_end = stop\<rparr>)"

definition MemDB_Iterator :: "'t btree_ops \<Rightarrow> 't \<Rightarrow> bytes option \<Rightarrow> bytes option \<Rightarrow> db_error + memDBIterator" where
  "MemDB_Iterator B db start stop =
     (if start = Some [] \<or> stop = Some [] then Inl errKeyEmpty else Inr (newMemDBIterator B db start stop False))"

definition MemDB_ReverseIterator :: "'t btree_ops \<Rightarrow> 't \<Rightarrow> bytes option \<Rightarrow> bytes option \<Rightarrow> db_error + memDBIterator" where
  "MemDB_ReverseIterator B db start stop =
     (if start = Some [] \<or> stop = Some [] then Inl errKeyEmpty else Inr (newMemDBIterator B db start stop True))"

definition it_Valid :: "memDBIterator \<Rightarrow> bool" where
  "it_Valid i \<longleftrightarrow> it_item i \<noteq> None"

text \<open>\<open>None\<close> is the panic of \<open>assertIsValid\<close>.\<close>

definition it_Next :: "memDBIterator \<Rightarrow> memDBIterator option" where
  "it_Next i =
     (if \<not> it_Valid i then None
      else Some (case ch i of [] \<Rightarrow> i\<lparr>it_item := None\<rparr> | x # xs \<Rightarrow> i\<lparr>it_item := Some x, ch := xs\<rparr>))"

definition it_Key :: "memDBIterator \<Rightarrow> bytes option" where
  "it_Key i = map_option key (it_item i)"

definition it_Value :: "memDBIterator \<Rightarrow> bytes option option" where
  "it_Value i = map_option val (it_item i)"

definition it_Domain :: "memDBIterator \<Rightarrow> bytes option \<times> bytes option" where
  "it_Domain i = (it_start i, it_end i)"

definition it_Close :: "memDBIterator \<Rightarrow> memDBIterator" where
  "it_Close i = i\<lparr>ch := [], it_item := None\<rparr>"

text \<open>\<open>IsKeyInDomain\<close> of \<open>util.go\<close>; \<open>bytes.Compare\<close> takes nil for the empty slice.\<close>

definition IsKeyInDomain :: "bytes \<Rightarrow> bytes option \<Rightarrow> bytes option \<Rightarrow> bool" where
  "IsKeyInDomain k start stop =
     (if k < slice_bytes start then False
      else if stop \<noteq> None \<and> slice_bytes stop \<le> k then False
      else True)"

text \<open>The loop \<open>for ; it.Valid(); it.Next()\<close>, bounded by a number of rounds.\<close>

fun it_loop :: "nat \<Rightarrow> memDBIterator \<Rightarrow> (bytes \<times> bytes option) list option" where
  "it_loop 0 i = (if it_Valid i then None else Some [])"
| "it_loop (Suc n) i =
     (if it_Valid i then
        (case (it_Key i, it_Value i, it_Next i) of
           (Some k, Some v, Some i') \<Rightarrow> map_option ((#) (k, v)) (it_loop n i')
         | _ \<Rightarrow> None)
      else Some [])"

section \<open>The backend keeps the contract\<close>

definition mem_ok :: "'t btree_ops \<Rightarrow> 't \<Rightarrow> bool" where
  "mem_ok B t \<longleftrightarrow> lawful_btree B \<and> (\<forall>i \<in> set (bt_Ascend B t). val i \<noteq> None)"

definition mem_content :: "'t btree_ops \<Rightarrow> 't \<Rightarrow> bytes \<rightharpoonup> bytes" where
  "mem_content B t k = Option.bind (find (\<lambda>i. key i = k) (bt_Ascend B t)) val"

lemma sorted_keys_unique:
  "sorted_wrt item_Less is \<Longrightarrow> i \<in> set is \<Longrightarrow> j \<in> set is \<Longrightarrow> key i = key j \<Longrightarrow> i = j"
  by (induction "is") (auto simp: item_Less_def)

lemma find_key: "sorted_wrt item_Less is \<Longrightarrow> find (\<lambda>i. key i = k) is = Some i \<longleftrightarrow> i \<in> set is \<and> key i = k"
proof (induction "is")
  case (Cons x xs)
  then show ?case by (auto simp: item_Less_def)
qed simp

lemma mem_content_eq:
  assumes "mem_ok B t"
  shows "mem_content B t k = Some v \<longleftrightarrow> (\<exists>i \<in> set (bt_Ascend B t). key i = k \<and> val i = Some v)"
proof -
  have s: "sorted_wrt item_Less (bt_Ascend B t)" using assms by (simp add: mem_ok_def lawful_btree_def)
  show ?thesis using find_key [OF s, of k] unfolding mem_content_def bind_eq_Some_conv by auto
qed

lemma mem_set:
  assumes "mem_ok B t"
  shows "mem_ok B (MemDB_set B t k (Some v))" "mem_content B (MemDB_set B t k (Some v)) = (mem_content B t)(k \<mapsto> v)"
proof -
  have set: "set (bt_Ascend B (MemDB_set B t k (Some v))) = insert (newPair k (Some v)) {x \<in> set (bt_Ascend B t). key x \<noteq> k}"
    using assms by (simp add: mem_ok_def lawful_btree_def MemDB_set_def newPair_def)
  show ok: "mem_ok B (MemDB_set B t k (Some v))" using assms set by (auto simp: mem_ok_def newPair_def)
  have "mem_content B (MemDB_set B t k (Some v)) x = Some w \<longleftrightarrow> ((mem_content B t)(k \<mapsto> v)) x = Some w" for x w
    unfolding mem_content_eq [OF ok] using mem_content_eq [OF assms, of x w] by (auto simp: set newPair_def)
  then show "mem_content B (MemDB_set B t k (Some v)) = (mem_content B t)(k \<mapsto> v)"
    by (intro ext option.expand) (metis option.exhaust_sel)+
qed

lemma mem_delete:
  assumes "mem_ok B t"
  shows "mem_ok B (MemDB_delete B t k)" "mem_content B (MemDB_delete B t k) = (mem_content B t)(k := None)"
proof -
  have set: "set (bt_Ascend B (MemDB_delete B t k)) = {x \<in> set (bt_Ascend B t). key x \<noteq> k}"
    using assms by (simp add: mem_ok_def lawful_btree_def MemDB_delete_def newKey_def)
  show ok: "mem_ok B (MemDB_delete B t k)" using assms set by (auto simp: mem_ok_def)
  have "mem_content B (MemDB_delete B t k) x = Some w \<longleftrightarrow> ((mem_content B t)(k := None)) x = Some w" for x w
    unfolding mem_content_eq [OF ok] using mem_content_eq [OF assms, of x w] by (auto simp: set)
  then show "mem_content B (MemDB_delete B t k) = (mem_content B t)(k := None)"
    by (intro ext option.expand) (metis option.exhaust_sel)+
qed

lemma fill_batch_good: "list_all good_op ops \<Longrightarrow> fill_batch (Some pre) ops = Inr (Some (pre @ ops))"
  by (induction ops arbitrary: pre) (auto simp: Batch_Set_def Batch_Delete_def split: batch_op.splits)

lemma write_ops:
  "mem_ok B t \<Longrightarrow> list_all good_op ops \<Longrightarrow>
   mem_ok B (foldl (write_op B) t ops) \<and> mem_content B (foldl (write_op B) t ops) = foldl apply_op (mem_content B t) ops"
proof (induction ops arbitrary: t)
  case (Cons op ops)
  have "mem_ok B (write_op B t op) \<and> mem_content B (write_op B t op) = apply_op (mem_content B t) op"
    using Cons.prems by (cases op) (auto simp: mem_set mem_delete)
  then show ?case using Cons.IH [of "write_op B t op"] Cons.prems(2) by simp
qed simp

interpretation memdb: database "MemDB B" "mem_ok B" "mem_content B" for B
proof (unfold_locales, goal_cases)
  case (1 s k)
  then show ?case
    by (auto simp: MemDB_def MemDB_Get_def mem_content_def newKey_def mem_ok_def lawful_btree_def split: option.splits)
next
  case (2 s k)
  have "bt_Has B s (newKey k) \<longleftrightarrow> (\<exists>i \<in> set (bt_Ascend B s). key i = k \<and> val i \<noteq> None)"
    using 2 by (auto simp: mem_ok_def lawful_btree_def newKey_def)
  then show ?case using 2 mem_content_eq [OF 2(1), of k] by (auto simp: MemDB_def MemDB_Has_def)
next
  case (3 s k v)
  then show ?case by (simp add: MemDB_def MemDB_Set_def mem_set)
next
  case (4 s k)
  then show ?case by (simp add: MemDB_def MemDB_Delete_def mem_delete)
next
  case (5 s ops)
  then show ?case
    by (simp add: MemDB_def write_all_def newMemDBBatch_def fill_batch_good Batch_WriteSync_def Batch_Write_def write_ops)
qed

section \<open>What an iterator delivers\<close>

lemma visitor_all: "visitor None None is = is"
  by (induction "is") auto

lemma visitor_abort: "sorted_wrt (\<lambda>x y. item_Less y x) is \<Longrightarrow> visitor None (Some a) is = filter (\<lambda>x. a \<le> key x) is"
proof (induction "is")
  case (Cons i "is")
  have "filter (\<lambda>x. a \<le> key x) is = []" if "key i < a"
    using Cons.prems that by (auto simp: filter_empty_conv item_Less_def dest: less_trans)
  then show ?case using Cons by (auto simp: not_less)
qed simp

lemma visitor_skip:
  assumes "sorted_wrt (\<lambda>x y. item_Less y x) is"
  shows "visitor (Some e) a (filter (\<lambda>x. key x \<le> e) is) = visitor None a (filter (\<lambda>x. key x < e) is)"
  using assms
proof (induction "is")
  case (Cons i "is")
  have lt: "\<forall>x \<in> set is. key x < key i" using Cons.prems by (simp add: item_Less_def)
  consider "key i = e" | "key i < e" | "e < key i" by force
  then show ?case
  proof cases
    case 1
    then have "filter (\<lambda>x. key x \<le> e) is = is" "filter (\<lambda>x. key x < e) is = is" using lt by (auto simp: filter_id_conv)
    then show ?thesis using 1 by simp
  next
    case 2
    then have f: "filter (\<lambda>x. key x \<le> e) is = filter (\<lambda>x. key x < e) is"
      using lt by (intro filter_cong) auto
    have skip: "visitor (Some e) a js = visitor None a js" if "\<forall>x \<in> set js. key x < e" for js
      using that by (induction js) auto
    have "e \<noteq> key i" "key i \<le> e" using 2 by auto
    then show ?thesis using 2 skip [of "filter (\<lambda>x. key x < e) is"] by (simp add: f)
  next
    case 3
    then show ?thesis using Cons by auto
  qed
qed simp

text \<open>All items an iterator holds, in the order it delivers them.\<close>

definition pending :: "memDBIterator \<Rightarrow> item list" where
  "pending i = (case it_item i of None \<Rightarrow> [] | Some x \<Rightarrow> x # ch i)"

lemma it_loop_pending: "length (pending i) \<le> n \<Longrightarrow> it_loop n i = Some (map (\<lambda>x. (key x, val x)) (pending i))"
proof (induction n arbitrary: i)
  case 0
  then show ?case by (auto simp: pending_def it_Valid_def split: option.splits)
next
  case (Suc n)
  show ?case
  proof (cases "it_item i")
    case None
    then show ?thesis by (simp add: pending_def it_Valid_def)
  next
    case (Some x)
    obtain i' where i': "it_Next i = Some i'" "pending i' = ch i"
      using Some by (cases "ch i") (auto simp: it_Next_def it_Valid_def pending_def)
    then have "it_loop n i' = Some (map (\<lambda>x. (key x, val x)) (ch i))"
      using Suc.IH [of i'] Suc.prems Some by (simp add: pending_def)
    then show ?thesis using Some i'(1) by (simp add: it_Valid_def it_Key_def it_Value_def pending_def)
  qed
qed

lemma pending_new:
  assumes "lawful_btree B"
  shows "pending (newMemDBIterator B db start stop False) = filter (\<lambda>i. IsKeyInDomain (key i) start stop) (bt_Ascend B db)"
    "pending (newMemDBIterator B db start stop True) = rev (filter (\<lambda>i. IsKeyInDomain (key i) start stop) (bt_Ascend B db))"
proof -
  have srt: "sorted_wrt item_Less (bt_Ascend B db)" using assms by (simp add: lawful_btree_def)
  then have rsrt: "sorted_wrt (\<lambda>x y. item_Less y x) (rev (bt_Ascend B db))" by (simp add: sorted_wrt_rev)
  have pend: "pending \<lparr>ch = tl sent, it_item = (case sent of [] \<Rightarrow> None | i # _ \<Rightarrow> Some i), it_start = a, it_end = b\<rparr> = sent"
    for sent a b by (cases sent) (auto simp: pending_def)
  show "pending (newMemDBIterator B db start stop False) = filter (\<lambda>i. IsKeyInDomain (key i) start stop) (bt_Ascend B db)"
    using assms unfolding newMemDBIterator_def Let_def pend
    by (cases start; cases stop) (auto simp: visitor_all lawful_btree_def newKey_def IsKeyInDomain_def not_less
        filter_id_conv intro!: filter_cong)
  have f: "filter P (rev xs) = rev (filter P xs)" for P and xs :: "item list" by (simp add: rev_filter)
  show "pending (newMemDBIterator B db start stop True) = rev (filter (\<lambda>i. IsKeyInDomain (key i) start stop) (bt_Ascend B db))"
  proof (cases stop)
    case None
    then show ?thesis
      using assms visitor_abort [OF rsrt] unfolding newMemDBIterator_def Let_def pend
      by (cases start) (auto simp: visitor_all lawful_btree_def IsKeyInDomain_def not_less rev_filter)
  next
    case (Some e)
    have "sorted_wrt (\<lambda>x y. item_Less y x) (filter (\<lambda>x. key x < e) (rev (bt_Ascend B db)))"
      using rsrt by (rule sorted_wrt_filter)
    then show ?thesis
      using assms Some visitor_skip [OF rsrt, of e] visitor_abort unfolding newMemDBIterator_def Let_def pend
      by (cases start) (auto simp: visitor_all lawful_btree_def newKey_def IsKeyInDomain_def not_less rev_filter not_le
          intro!: filter_cong)
  qed
qed

section \<open>A concrete tree for instances\<close>

text \<open>A list of items, the newest first; traversals sort the keys.\<close>

definition list_items :: "item list \<Rightarrow> item list" where
  "list_items t = map (\<lambda>k. the (find (\<lambda>x. key x = k) t)) (sorted_list_of_set (key ` set t))"

definition list_btree :: "item list btree_ops" where
  "list_btree = \<lparr>bt_New = [], bt_Get = (\<lambda>t i. find (\<lambda>x. key x = key i) (list_items t)),
     bt_Has = (\<lambda>t i. \<exists>x \<in> set (list_items t). key x = key i),
     bt_ReplaceOrInsert = (\<lambda>t i. i # t), bt_Delete = (\<lambda>t i. filter (\<lambda>x. key x \<noteq> key i) t),
     bt_Ascend = list_items,
     bt_AscendGreaterOrEqual = (\<lambda>t i. filter (\<lambda>x. key i \<le> key x) (list_items t)),
     bt_AscendRange = (\<lambda>t i j. filter (\<lambda>x. key i \<le> key x \<and> key x < key j) (list_items t)),
     bt_Descend = (\<lambda>t. rev (list_items t)),
     bt_DescendLessOrEqual = (\<lambda>t i. filter (\<lambda>x. key x \<le> key i) (rev (list_items t)))\<rparr>"

lemma find_Some_key: "k \<in> key ` set t \<Longrightarrow> \<exists>x. find (\<lambda>x. key x = k) t = Some x \<and> x \<in> set t \<and> key x = k"
  by (induction t) auto

lemma list_items_iff: "x \<in> set (list_items t) \<longleftrightarrow> find (\<lambda>y. key y = key x) t = Some x"
proof -
  have fin: "find (\<lambda>y. key y = k) t = Some x \<Longrightarrow> x \<in> set t" for k
    by (induction t) (auto split: if_splits)
  have "x \<in> set (list_items t) \<longleftrightarrow> (\<exists>k \<in> key ` set t. x = the (find (\<lambda>y. key y = k) t))"
    unfolding list_items_def by (auto simp del: image_iff)
  also have "\<dots> \<longleftrightarrow> find (\<lambda>y. key y = key x) t = Some x"
  proof
    assume "\<exists>k \<in> key ` set t. x = the (find (\<lambda>y. key y = k) t)"
    then obtain k where "k \<in> key ` set t" "x = the (find (\<lambda>y. key y = k) t)" by blast
    with find_Some_key [of k t] show "find (\<lambda>y. key y = key x) t = Some x" by auto
  next
    assume f: "find (\<lambda>y. key y = key x) t = Some x"
    then have "x = the (find (\<lambda>y. key y = key x) t)" by simp
    moreover have "key x \<in> key ` set t" using fin [OF f] by simp
    ultimately show "\<exists>k \<in> key ` set t. x = the (find (\<lambda>y. key y = k) t)" by blast
  qed
  finally show ?thesis .
qed

lemma list_items_sorted: "sorted_wrt item_Less (list_items t)"
proof -
  let ?ks = "sorted_list_of_set (key ` set t)"
  have key: "key (the (find (\<lambda>x. key x = k) t)) = k" if "k \<in> set ?ks" for k
    using find_Some_key [of k t] that by auto
  have "sorted_wrt (<) ?ks" by (rule strict_sorted_list_of_set)
  then show ?thesis unfolding list_items_def sorted_wrt_map
    by (rule sorted_wrt_mono_rel [rotated]) (simp add: item_Less_def key)
qed

lemma find_filter_key: "find (\<lambda>y. key y = k) (filter (\<lambda>y. key y \<noteq> j) t) = (if k = j then None else find (\<lambda>y. key y = k) t)"
  by (induction t) (auto simp: find_None_iff)

lemma list_btree_lawful: "lawful_btree list_btree"
proof -
  have "set (list_items (i # t)) = insert i {x \<in> set (list_items t). key x \<noteq> key i}" for i t
    by (auto simp: list_items_iff split: if_splits)
  moreover have "set (list_items (filter (\<lambda>x. key x \<noteq> key i) t)) = {x \<in> set (list_items t). key x \<noteq> key i}" for i t
    by (auto simp: list_items_iff find_filter_key split: if_splits)
  moreover have "list_items [] = []" by (simp add: list_items_def)
  ultimately show ?thesis unfolding lawful_btree_def list_btree_def by (simp add: list_items_sorted) blast
qed

lemma list_new_ok: "mem_ok list_btree []"
  using list_btree_lawful by (simp add: mem_ok_def list_btree_def list_items_def)

section \<open>Properties\<close>

text \<open>
  On a backend that keeps the contract of \<open>DB\<close>, a block stored under a height and a chain
  is returned for that height and chain, and every block stored before under another height
  or chain is returned as before, unless it has the same hash.
\<close>

theorem stored_block_found:
  assumes "database D ok content" and "ok s"
  shows "\<exists>s'. SetBlockByHeight D s h c (Some hs) (Some bz) = Inr s' \<and> ok s' \<and> GetBlockByHeight D s' h c = Inr (Some bz)
     \<and> (\<forall>h' c'. (h', c') \<noteq> (h, c) \<and> state_view (content s) (block_key h' c') \<noteq> Some hs
            \<and> state_view (content s) (block_key h' c') \<noteq> None \<longrightarrow>
          GetBlockByHeight D s' h' c' = GetBlockByHeight D s h' c')"
  using assms by (rule database.block_roundtrip)

theorem stored_block_found_witness:
  "\<exists>s'. SetBlockByHeight (MemDB list_btree) [] 3 ''shard1'' (Some [1, 2]) (Some [7]) = Inr s' \<and> mem_ok list_btree s'
     \<and> GetBlockByHeight (MemDB list_btree) s' 3 ''shard1'' = Inr (Some [7])"
  using stored_block_found [OF memdb.database_axioms list_new_ok] by blast

text \<open>
  C21: the in-memory backend refines a map: on every key the reads return the map's entry, a
  set and a delete update it, a batch applies its operations in order, and an empty key, a nil
  value and a closed batch are refused.
\<close>

theorem MemDB_refines:
  assumes "mem_ok B s"
  shows "MemDB_Get B s k = (if k = [] then Inl errKeyEmpty else Inr (mem_content B s k))
     \<and> MemDB_Has B s k = (if k = [] then Inl errKeyEmpty else Inr (mem_content B s k \<noteq> None))
     \<and> MemDB_Set B s k None = (if k = [] then Inl errKeyEmpty else Inl errValueNil)
     \<and> (MemDB_Set B s k (Some v) = (if k = [] then Inl errKeyEmpty else Inr (MemDB_set B s k (Some v)))
          \<and> mem_ok B (MemDB_set B s k (Some v)) \<and> mem_content B (MemDB_set B s k (Some v)) = (mem_content B s)(k \<mapsto> v))
     \<and> (MemDB_Delete B s k = (if k = [] then Inl errKeyEmpty else Inr (MemDB_delete B s k))
          \<and> mem_ok B (MemDB_delete B s k) \<and> mem_content B (MemDB_delete B s k) = (mem_content B s)(k := None))
     \<and> Batch_Write B s None = Inl errBatchClosed \<and> Batch_Set (Batch_Close b) k (Some v) = (if k = [] then Inl errKeyEmpty else Inl errBatchClosed)"
  using assms memdb.Get_law [OF assms, of k] memdb.Has_law [OF assms, of k]
  by (auto simp: MemDB_def MemDB_Get_def MemDB_Has_def MemDB_Set_def MemDB_Delete_def mem_set mem_delete
      Batch_Write_def Batch_Set_def Batch_Close_def)

theorem MemDB_refines_witness:
  "MemDB_Get list_btree (MemDB_set list_btree [] [1] (Some [9])) [1] = Inr (Some [9])"
proof -
  have c: "mem_content list_btree (MemDB_set list_btree [] [1] (Some [9])) = (mem_content list_btree [])([1] \<mapsto> [9])"
    and ok: "mem_ok list_btree (MemDB_set list_btree [] [1] (Some [9]))"
    using MemDB_refines [OF list_new_ok, of "[1]" "[9]"] by blast+
  from MemDB_refines [OF ok, of "[1]"] show ?thesis by (simp add: c)
qed

text \<open>
  An iterator loop ends after as many rounds as there are keys in the domain and delivers
  exactly the entries with \<open>start <= key < end\<close>, in ascending order, or in descending order for
  a reverse iterator; an empty bound is refused.
\<close>

theorem iterators_deliver:
  assumes "lawful_btree B" and "start \<noteq> Some []" and "stop \<noteq> Some []"
    and "items = filter (\<lambda>i. IsKeyInDomain (key i) start stop) (bt_Ascend B db)"
  shows "(\<exists>it. MemDB_Iterator B db start stop = Inr it
       \<and> it_loop (length items) it = Some (map (\<lambda>i. (key i, val i)) items))
     \<and> (\<exists>it. MemDB_ReverseIterator B db start stop = Inr it
       \<and> it_loop (length items) it = Some (rev (map (\<lambda>i. (key i, val i)) items)))"
  using assms pending_new [OF assms(1), of db start stop]
  by (simp add: MemDB_Iterator_def MemDB_ReverseIterator_def it_loop_pending rev_map)

theorem iterators_deliver_witness:
  "\<exists>it. MemDB_ReverseIterator list_btree (MemDB_set list_btree [] [1] (Some [9])) None (Some [2]) = Inr it
     \<and> it_loop 1 it = Some [([1], Some [9])]"
proof -
  let ?t = "MemDB_set list_btree [] [1] (Some [9])"
  have i: "[newPair [1] (Some [9])] = filter (\<lambda>i. IsKeyInDomain (key i) None (Some [2])) (bt_Ascend list_btree ?t)"
    by (simp add: list_btree_def MemDB_set_def list_items_def newPair_def IsKeyInDomain_def)
  from iterators_deliver [OF list_btree_lawful _ _ i] show ?thesis by (simp add: newPair_def)
qed

end
