(* ===== verification/Mini_Bank.thy ===== *)
theory Mini_Bank
  imports Mem_DB Range_List
begin

text \<open>
  The accounts of the bank application, \<open>src/source/urd/abci/minibank/types.go\<close> and
  \<open>memdb.go\<close>: the encoding of an account (balance and lock), the validation of a transfer, and
  the account database over the store. Reading an account that is not stored yet stores the
  initial balance, so reads change the state too. The lemmas show that the database implements
  a total map from the keys of the shard to balances and locks.
\<close>

section \<open>Transactions and account values\<close>

record TransferTx =
  From :: "string list"
  To :: "string list"
  FromMoney :: "uint32 list"
  ToMoney :: "uint32 list"
  Time :: "int \<times> int"
  Buffer :: bytes
  Shards :: "string list"

record InsertTx =
  Account :: string
  Money :: uint32
  it_Time :: "int \<times> int"
  it_Buffer :: bytes

datatype bank_error =
    ErrLength | ErrEmpty | ErrSum | ErrNoKey | ErrLocked | ErrConflict | ErrBalance | ErrNotIncluded
  | ErrTxLength | ErrTxType | ErrShards | ErrDecode | ErrKnown | ErrStore db_error | ErrNotOurShard

definition RLockedIdentifier :: byte where "RLockedIdentifier = byte_of_char (CHR ''0'')"
definition WLockedIdentifier :: byte where "WLockedIdentifier = byte_of_char (CHR ''1'')"
definition FreeIdentifier :: byte where "FreeIdentifier = byte_of_char (CHR ''2'')"

definition isRLock :: "byte \<Rightarrow> bool" where "isRLock locked \<longleftrightarrow> locked = RLockedIdentifier"
definition isWLock :: "byte \<Rightarrow> bool" where "isWLock locked \<longleftrightarrow> locked = WLockedIdentifier"
definition isFree :: "byte \<Rightarrow> bool" where "isFree locked \<longleftrightarrow> locked = FreeIdentifier"

definition initBalance :: uint32 where "initBalance = 1000000"

text \<open>The sums are those of \<open>uint32\<close>: they wrap.\<close>

definition ValidateTransferTx :: "TransferTx \<Rightarrow> bank_error + unit" where
  "ValidateTransferTx tx =
     (if length (From tx) \<noteq> length (FromMoney tx) \<or> length (To tx) \<noteq> length (ToMoney tx) then Inl ErrLength
      else if length (From tx) = 0 \<or> length (To tx) = 0 then Inl ErrEmpty
      else if foldl (+) 0 (FromMoney tx) \<noteq> foldl (+) 0 (ToMoney tx) then Inl ErrSum
      else Inr ())"

definition MarshalValue :: "uint32 \<Rightarrow> byte \<Rightarrow> bytes" where
  "MarshalValue money locked = [locked] @ Uint32ToBytes money"

text \<open>\<open>None\<close> is the index panic on fewer than five bytes.\<close>

definition UnmarshalValue :: "bytes \<Rightarrow> (uint32 \<times> byte) option" where
  "UnmarshalValue bz = (case bz of
      [] \<Rightarrow> None
    | locked # rest \<Rightarrow> map_option (\<lambda>money. (money, locked)) (BytesToUint32 rest))"

definition SetValueLock :: "byte \<Rightarrow> bytes \<Rightarrow> bytes" where
  "SetValueLock b bz = bz[0 := b]"

section \<open>The account database\<close>

record 's AppDB =
  db :: 's
  retainData :: "string \<rightharpoonup> uint32"

text \<open>
  An operation returns the new state also with an error, because a read before the error may
  have stored an initial balance; \<open>None\<close> is a panic.
\<close>

type_synonym ('s, 'a) bank_op = "'s AppDB \<Rightarrow> ('s AppDB \<times> (bank_error + 'a)) option"

definition ret :: "'a \<Rightarrow> ('s, 'a) bank_op" where
  "ret x st = Some (st, Inr x)"

definition fail :: "bank_error \<Rightarrow> ('s, 'a) bank_op" where
  "fail e st = Some (st, Inl e)"

definition crash :: "('s, 'a) bank_op" where
  "crash st = None"

definition andThen :: "('s, 'a) bank_op \<Rightarrow> ('a \<Rightarrow> ('s, 'b) bank_op) \<Rightarrow> ('s, 'b) bank_op" where
  "andThen m f st = (case m st of
      None \<Rightarrow> None
    | Some (st', Inl e) \<Rightarrow> Some (st', Inl e)
    | Some (st', Inr x) \<Rightarrow> f x st')"

text \<open>The test \<open>rangelist.Search(key)\<close>.\<close>

definition in_shard :: "RangeList \<Rightarrow> string \<Rightarrow> ('s, bool) bank_op" where
  "in_shard rl k st = map_option (\<lambda>b. (st, Inr b)) (Search rl k)"

definition AppDB_Set :: "'s db_ops \<Rightarrow> RangeList \<Rightarrow> string \<Rightarrow> uint32 \<Rightarrow> byte \<Rightarrow> ('s, unit) bank_op" where
  "AppDB_Set D rl k money locked =
     andThen (in_shard rl k) (\<lambda>mine.
       if \<not> mine then ret ()
       else (\<lambda>st. case Store_Set D (db st) (bytes_of_string k) (Some (MarshalValue money locked)) of
           Inl e \<Rightarrow> Some (st, Inl (ErrStore e))
         | Inr s' \<Rightarrow> Some (st\<lparr>db := s'\<rparr>, Inr ())))"

definition AppDB_Get :: "'s db_ops \<Rightarrow> RangeList \<Rightarrow> string \<Rightarrow> ('s, uint32 \<times> byte) bank_op" where
  "AppDB_Get D rl k =
     andThen (in_shard rl k) (\<lambda>mine st.
       if mine then
         (case Store_Get D (db st) (bytes_of_string k) of
            Inr (Some (b # bz)) \<Rightarrow> map_option (\<lambda>v. (st, Inr v)) (UnmarshalValue (b # bz))
          | _ \<Rightarrow> andThen (AppDB_Set D rl k initBalance FreeIdentifier)
                   (\<lambda>_. ret (initBalance, FreeIdentifier)) st)
       else
         (case retainData st k of
            Some v \<Rightarrow> Some (st, Inr (v, FreeIdentifier))
          | None \<Rightarrow> Some (st, Inl ErrNoKey)))"

definition LoadData :: "string \<Rightarrow> uint32 \<Rightarrow> ('s, unit) bank_op" where
  "LoadData k v st = Some (st\<lparr>retainData := (retainData st)(k \<mapsto> v)\<rparr>, Inr ())"

definition Clear :: "'s AppDB \<Rightarrow> 's AppDB" where
  "Clear st = st\<lparr>retainData := Map.empty\<rparr>"

definition lock_op :: "'s db_ops \<Rightarrow> byte \<Rightarrow> string \<Rightarrow> ('s, unit) bank_op" where
  "lock_op D b k st = (case Store_Get D (db st) (bytes_of_string k) of
      Inr (Some (x # bz)) \<Rightarrow>
        (case Store_Set D (db st) (bytes_of_string k) (Some (SetValueLock b (x # bz))) of
           Inl e \<Rightarrow> Some (st, Inl (ErrStore e))
         | Inr s' \<Rightarrow> Some (st\<lparr>db := s'\<rparr>, Inr ()))
    | _ \<Rightarrow> Some (st, Inl ErrNoKey))"

definition RLock :: "'s db_ops \<Rightarrow> string \<Rightarrow> ('s, unit) bank_op" where "RLock D = lock_op D RLockedIdentifier"
definition WLock :: "'s db_ops \<Rightarrow> string \<Rightarrow> ('s, unit) bank_op" where "WLock D = lock_op D WLockedIdentifier"
definition WUnlock :: "'s db_ops \<Rightarrow> string \<Rightarrow> ('s, unit) bank_op" where "WUnlock D = lock_op D FreeIdentifier"

section \<open>Meaning: a total map of accounts\<close>

definition account :: "bytes option \<Rightarrow> uint32 \<times> byte" where
  "account v = (case UnmarshalValue (slice_bytes v) of Some a \<Rightarrow> a | None \<Rightarrow> (initBalance, FreeIdentifier))"

text \<open>Stored values of account keys have the five bytes of the encoding.\<close>

definition good_accounts :: "(bytes \<rightharpoonup> bytes) \<Rightarrow> bool" where
  "good_accounts dv \<longleftrightarrow> (\<forall>k v. dv (bytes_of_string k) = Some v \<longrightarrow> length v = 5)"

definition accounts :: "(bytes \<rightharpoonup> bytes) \<Rightarrow> string \<Rightarrow> uint32 \<times> byte" where
  "accounts dv k = account (dv (bytes_of_string k))"

definition stored_accounts :: "(bytes \<rightharpoonup> bytes) \<Rightarrow> string set" where
  "stored_accounts dv = {k. dv (bytes_of_string k) \<noteq> None}"

lemma stored_accounts_upd [simp]: "stored_accounts (dv(bytes_of_string k \<mapsto> v)) = insert k (stored_accounts dv)"
  by (auto simp: stored_accounts_def bytes_of_string_eq_iff)

lemma Unmarshal_Marshal [simp]: "UnmarshalValue (MarshalValue m l) = Some (m, l)"
  by (simp add: UnmarshalValue_def MarshalValue_def BytesToUint32_Uint32ToBytes)

lemma Marshal_length [simp]: "length (MarshalValue m l) = 5"
  by (simp add: MarshalValue_def Uint32ToBytes_def put_le_def)

lemma account_Marshal [simp]: "account (Some (MarshalValue m l)) = (m, l)"
  by (simp add: account_def)

lemma account_None [simp]: "account None = (initBalance, FreeIdentifier)"
  by (simp add: account_def UnmarshalValue_def)

lemma accounts_upd [simp]: "accounts (dv(bytes_of_string k \<mapsto> v)) = (accounts dv)(k := account (Some v))"
  by (auto simp: accounts_def fun_eq_iff bytes_of_string_eq_iff)

lemma good_accounts_upd: "good_accounts dv \<Longrightarrow> length v = 5 \<Longrightarrow> good_accounts (dv(bytes_of_string k \<mapsto> v))"
  by (simp add: good_accounts_def)

lemma Unmarshal_five: "length v = 5 \<Longrightarrow> \<exists>a. UnmarshalValue v = Some a \<and> account (Some v) = a"
  by (cases v) (auto simp: UnmarshalValue_def account_def BytesToUint32_def get_le_def)

lemma account_SetValueLock:
  "length v = 5 \<Longrightarrow> account (Some (SetValueLock b v)) = (fst (account (Some v)), b)"
  by (cases v) (auto simp: SetValueLock_def UnmarshalValue_def account_def BytesToUint32_def get_le_def)

text \<open>The invariant of the account database, for the meaning of the backend.\<close>

definition bank_inv :: "('s \<Rightarrow> bool) \<Rightarrow> ('s \<Rightarrow> bytes \<rightharpoonup> bytes) \<Rightarrow> RangeList \<Rightarrow> 's AppDB \<Rightarrow> bool" where
  "bank_inv ok content rl st \<longleftrightarrow> wf_ranges rl \<and> ok (db st) \<and> good_accounts (data_view (content (db st)))"

text \<open>What the account operations leave alone.\<close>

definition same_rest :: "('s \<Rightarrow> bytes \<rightharpoonup> bytes) \<Rightarrow> 's AppDB \<Rightarrow> 's AppDB \<Rightarrow> bool" where
  "same_rest content st st' \<longleftrightarrow> retainData st' = retainData st
     \<and> special_view (content (db st')) = special_view (content (db st))
     \<and> state_view (content (db st')) = state_view (content (db st))"

lemma same_rest_refl [simp]: "same_rest c st st"
  by (simp add: same_rest_def)

lemma same_rest_trans: "same_rest c st st1 \<Longrightarrow> same_rest c st1 st2 \<Longrightarrow> same_rest c st st2"
  by (simp add: same_rest_def)

context database
begin

abbreviation "acc st \<equiv> accounts (data (db st))"
abbreviation "binv \<equiv> bank_inv ok content"
abbreviation "stored st \<equiv> stored_accounts (data (db st))"

lemma Set_acc:
  assumes "binv rl st"
  shows "\<exists>st'. AppDB_Set D rl k m l st = Some (st', Inr ()) \<and> binv rl st' \<and> same_rest content st st'
     \<and> acc st' = (if k \<in> keys_of rl then (acc st)(k := (m, l)) else acc st)
     \<and> stored st' = stored st \<union> ({k} \<inter> keys_of rl)"
proof -
  have s: "Search rl k = Some (k \<in> keys_of rl)" using assms ranges.search_law by (simp add: bank_inv_def)
  obtain s' where s': "Store_Set D (db st) (bytes_of_string k) (Some (MarshalValue m l)) = Inr s'" "ok s'"
    "data s' = (data (db st))(bytes_of_string k \<mapsto> MarshalValue m l)" "state s' = state (db st)" "special s' = special (db st)"
    using Store_Set_law assms by (metis bank_inv_def)
  then show ?thesis
    using assms s by (simp add: AppDB_Set_def andThen_def in_shard_def ret_def bank_inv_def same_rest_def good_accounts_upd)
qed

lemma Get_acc:
  assumes inv: "binv rl st"
  shows "\<exists>st'. AppDB_Get D rl k st = Some (st', if k \<in> keys_of rl then Inr (acc st k)
        else (case retainData st k of Some v \<Rightarrow> Inr (v, FreeIdentifier) | None \<Rightarrow> Inl ErrNoKey))
     \<and> binv rl st' \<and> same_rest content st st' \<and> acc st' = acc st
     \<and> stored st' = stored st \<union> ({k} \<inter> keys_of rl)"
proof -
  have s: "Search rl k = Some (k \<in> keys_of rl)" using inv ranges.search_law by (simp add: bank_inv_def)
  have g: "Store_Get D (db st) (bytes_of_string k) = Inr (data (db st) (bytes_of_string k))"
    using inv read_laws(1) by (simp add: bank_inv_def)
  show ?thesis
  proof (cases "k \<in> keys_of rl")
    case False
    then show ?thesis using inv s
      by (auto simp: AppDB_Get_def andThen_def in_shard_def split: option.splits)
  next
    case True
    show ?thesis
    proof (cases "data (db st) (bytes_of_string k)")
      case None
      obtain st' where "AppDB_Set D rl k initBalance FreeIdentifier st = Some (st', Inr ())" "binv rl st'" "same_rest content st st'"
        "acc st' = (acc st)(k := (initBalance, FreeIdentifier))" "stored st' = stored st \<union> ({k} \<inter> keys_of rl)"
        using Set_acc [OF inv] True by metis
      moreover have "acc st k = (initBalance, FreeIdentifier)" using None by (simp add: accounts_def)
      ultimately show ?thesis using True s g None
        by (auto simp: AppDB_Get_def andThen_def in_shard_def ret_def fun_eq_iff)
    next
      case (Some v)
      then have len: "length v = 5" using inv by (simp add: bank_inv_def good_accounts_def)
      then obtain b bz where v: "v = b # bz" by (cases v) auto
      obtain a where a: "UnmarshalValue v = Some a" "acc st k = a"
        using Unmarshal_five [OF len] Some by (auto simp: accounts_def)
      have "AppDB_Get D rl k st = Some (st, Inr a)"
        using True s g Some v a(1) by (simp add: AppDB_Get_def andThen_def in_shard_def)
      moreover have "k \<in> stored st" using Some by (simp add: stored_accounts_def)
      ultimately show ?thesis using True inv a(2) by auto
    qed
  qed
qed

lemma lock_acc:
  assumes "binv rl st"
  shows "\<exists>st' r. lock_op D b k st = Some (st', r) \<and> binv rl st' \<and> same_rest content st st'
     \<and> stored st' = stored st
     \<and> (if k \<notin> stored st then r = Inl ErrNoKey \<and> st' = st
        else r = Inr () \<and> acc st' = (acc st)(k := (fst (acc st k), b)))"
proof (cases "data (db st) (bytes_of_string k)")
  case None
  then show ?thesis using assms read_laws(1) by (simp add: lock_op_def bank_inv_def stored_accounts_def)
next
  case (Some v)
  then have len: "length v = 5" using assms by (simp add: bank_inv_def good_accounts_def)
  then obtain x bz where v: "v = x # bz" by (cases v) auto
  obtain s' where s': "Store_Set D (db st) (bytes_of_string k) (Some (SetValueLock b v)) = Inr s'" "ok s'"
    "data s' = (data (db st))(bytes_of_string k \<mapsto> SetValueLock b v)" "state s' = state (db st)" "special s' = special (db st)"
    using Store_Set_law assms by (metis bank_inv_def)
  have "lock_op D b k st = Some (st\<lparr>db := s'\<rparr>, Inr ())"
    using assms read_laws(1) Some s'(1) v by (simp add: lock_op_def bank_inv_def)
  moreover have "length (SetValueLock b v) = 5" using len by (simp add: SetValueLock_def)
  moreover have "k \<in> stored st" using Some by (simp add: stored_accounts_def)
  ultimately show ?thesis
    using assms s' Some account_SetValueLock [OF len, of b]
    by (auto simp: bank_inv_def same_rest_def good_accounts_upd accounts_def [of _ k])
qed

end

end
