(* ===== verification/Bank_App.thy ===== *)
theory Bank_App
  imports Mini_Bank "HOL-Library.AList"
begin

text \<open>
  The bank application, \<open>src/source/urd/abci/minibank/bank.go\<close>: execution of transfers inside a
  shard, and the two phases of a cross-shard transfer, locking with the relay of the local
  balances, and execution once the data of all shards are there. The protobuf codecs and the
  hash are arguments.
\<close>

section \<open>Model\<close>

record BankData =
  bd_Keys :: "string list"
  bd_Values :: "uint32 list"

record RelayTransferTx =
  rt_Datas :: "BankData option"
  rt_TxHash :: bytes

record RelayTransferTxSet =
  rs_Shards :: "string list"
  rs_Datas :: "BankData option list"
  rs_RawTx :: bytes

text \<open>The codecs; \<open>None\<close> is a decoding error. A decoded map is a list of its entries.\<close>

record bank_codec =
  dec_Transfer :: "bytes \<Rightarrow> TransferTx option"
  enc_Transfer :: "TransferTx \<Rightarrow> bytes"
  dec_Insert :: "bytes \<Rightarrow> InsertTx option"
  enc_Insert :: "InsertTx \<Rightarrow> bytes"
  enc_Relay :: "RelayTransferTx \<Rightarrow> bytes"
  dec_Relay :: "bytes \<Rightarrow> RelayTransferTx option"
  enc_Set :: "RelayTransferTxSet \<Rightarrow> bytes"
  dec_Set :: "bytes \<Rightarrow> RelayTransferTxSet option"
  enc_List :: "(string \<times> BankData option) list \<Rightarrow> bytes"
  dec_List :: "bytes \<Rightarrow> (string \<times> BankData option) list option"

definition TxInsert :: uint32 where "TxInsert = 5"
definition TxTransfer :: uint32 where "TxTransfer = 6"

text \<open>
  The fixed part of the application. \<open>KeyRangeTrees\<close> is a Go map: the list is the order in
  which it is ranged over.
\<close>

record 's Application =
  app_db_ops :: "'s db_ops"
  app_codec :: bank_codec
  app_sum :: "bytes \<Rightarrow> bytes"
  chain_id :: string
  KeyRangeTrees :: "(string \<times> RangeList) list"
  ShardIDList :: "string list"

text \<open>\<open>app.KeyRangeTrees[app.chain_id]\<close>; a missing entry is a nil list, whose use panics.\<close>

definition own_ranges :: "'s Application \<Rightarrow> RangeList option" where
  "own_ranges app = map_of (KeyRangeTrees app) (chain_id app)"

definition with_ranges :: "'s Application \<Rightarrow> (RangeList \<Rightarrow> ('s, 'a) bank_op) \<Rightarrow> ('s, 'a) bank_op" where
  "with_ranges app f = (case own_ranges app of None \<Rightarrow> crash | Some rl \<Rightarrow> f rl)"

definition shards_to_index :: "'s Application \<Rightarrow> string \<Rightarrow> nat" where
  "shards_to_index app shard =
     (case map_of (rev (zip (ShardIDList app) [0..<length (ShardIDList app)])) shard of Some i \<Rightarrow> i | None \<Rightarrow> 0)"

definition undo_prefix :: bytes where "undo_prefix = bytes_of_string ''undo''"

definition toRelayKey :: "bytes \<Rightarrow> bytes" where
  "toRelayKey k = concat [undo_prefix, k]"

definition search_key_intra_shard :: "'s Application \<Rightarrow> string \<Rightarrow> ('s, bool) bank_op" where
  "search_key_intra_shard app k = with_ranges app (\<lambda>rl. in_shard rl k)"

fun search_loop :: "(string \<times> RangeList) list \<Rightarrow> string \<Rightarrow> ('s, string) bank_op" where
  "search_loop [] k = fail ErrNoKey"
| "search_loop ((shard, rl) # rest) k = andThen (in_shard rl k) (\<lambda>yes. if yes then ret shard else search_loop rest k)"

definition search_key_shard :: "'s Application \<Rightarrow> string \<Rightarrow> ('s, string) bank_op" where
  "search_key_shard app k = search_loop (KeyRangeTrees app) k"

subsection \<open>Building transactions\<close>

definition TransferBytes :: "bank_codec \<Rightarrow> TransferTx \<Rightarrow> bytes" where
  "TransferBytes c tx = concat [Uint32ToBytes TxTransfer, enc_Transfer c tx]"

definition InsertBytes :: "bank_codec \<Rightarrow> InsertTx \<Rightarrow> bytes" where
  "InsertBytes c tx = concat [Uint32ToBytes TxInsert, enc_Insert c tx]"

definition TransferTxSize :: "bank_codec \<Rightarrow> TransferTx \<Rightarrow> int" where
  "TransferTxSize c tx = int (length (TransferBytes c tx))"

definition InsertTxSize :: "bank_codec \<Rightarrow> InsertTx \<Rightarrow> int" where
  "InsertTxSize c tx = int (length (InsertBytes c tx))"

text \<open>The buffer is filled with the character 0. \<open>now\<close> is the clock.\<close>

definition GenerateRandomBytes :: "int \<Rightarrow> bytes" where
  "GenerateRandomBytes n = replicate (nat n) (byte_of_char (CHR ''0''))"

definition NewTransferTx :: "int \<times> int \<Rightarrow> string list \<Rightarrow> uint32 list \<Rightarrow> string list \<Rightarrow> uint32 list \<Rightarrow> string list \<Rightarrow> TransferTx" where
  "NewTransferTx now froms fromMoney tos toMoney related_shards =
     \<lparr>From = froms, To = tos, FromMoney = fromMoney, ToMoney = toMoney, Time = now, Buffer = [], Shards = related_shards\<rparr>"

definition NewTransferTxMustLen :: "bank_codec \<Rightarrow> int \<times> int \<Rightarrow> string list \<Rightarrow> uint32 list \<Rightarrow> string list \<Rightarrow> uint32 list \<Rightarrow>
    string list \<Rightarrow> int \<Rightarrow> TransferTx" where
  "NewTransferTxMustLen c now froms fromMoney tos toMoney related_shards mustLen =
     (let tx = NewTransferTx now froms fromMoney tos toMoney related_shards;
          delta = mustLen - TransferTxSize c tx
      in if delta > 0 then tx\<lparr>Buffer := GenerateRandomBytes delta\<rparr> else tx)"

definition NewInsertTx :: "int \<times> int \<Rightarrow> string \<Rightarrow> uint32 \<Rightarrow> InsertTx" where
  "NewInsertTx now acct money = \<lparr>Account = acct, Money = money, it_Time = now, it_Buffer = []\<rparr>"

definition NewInsertTxMustLen :: "bank_codec \<Rightarrow> int \<times> int \<Rightarrow> string \<Rightarrow> uint32 \<Rightarrow> int \<Rightarrow> InsertTx" where
  "NewInsertTxMustLen c now acct money mustLen =
     (let tx = \<lparr>Account = acct, Money = money, it_Time = now, it_Buffer = []\<rparr>;
          delta = mustLen - InsertTxSize c tx
      in if delta > 0 then tx\<lparr>it_Buffer := GenerateRandomBytes delta\<rparr> else tx)"

subsection \<open>Reading transactions\<close>

text \<open>\<open>txBytes[4:]\<close> panics below four bytes.\<close>

definition NewTransferTxFromBytes :: "bank_codec \<Rightarrow> bytes \<Rightarrow> ('s, TransferTx) bank_op" where
  "NewTransferTxFromBytes c txBytes =
     (if length txBytes < 4 then crash
      else (case dec_Transfer c (drop 4 txBytes) of None \<Rightarrow> fail ErrDecode | Some tx \<Rightarrow> ret tx))"

definition NewRelayTransferTxFromBytes :: "bank_codec \<Rightarrow> bytes \<Rightarrow> ('s, RelayTransferTx) bank_op" where
  "NewRelayTransferTxFromBytes c bz = (case dec_Relay c bz of None \<Rightarrow> fail ErrDecode | Some tx \<Rightarrow> ret tx)"

definition isRelayTransferTxSetFinish :: "RelayTransferTxSet \<Rightarrow> bool" where
  "isRelayTransferTxSetFinish tx \<longleftrightarrow> (\<forall>bd \<in> set (rs_Datas tx). bd \<noteq> None)"

subsection \<open>A transfer\<close>

text \<open>The two loops that read; \<open>FromMoney[i]\<close> out of range would panic.\<close>

fun read_from :: "'s db_ops \<Rightarrow> RangeList \<Rightarrow> string list \<Rightarrow> uint32 list \<Rightarrow> ('s, uint32 list) bank_op" where
  "read_from D rl [] ms = ret []"
| "read_from D rl (k # ks) ms = andThen (AppDB_Get D rl k) (\<lambda>(balance, locked).
     if \<not> isFree locked then fail ErrLocked
     else (case ms of
         [] \<Rightarrow> crash
       | m # ms' \<Rightarrow>
           if balance < m then fail ErrBalance
           else andThen (read_from D rl ks ms') (\<lambda>bs. ret ((balance - m) # bs))))"

fun read_to :: "'s db_ops \<Rightarrow> RangeList \<Rightarrow> string list \<Rightarrow> uint32 list \<Rightarrow> ('s, uint32 list) bank_op" where
  "read_to D rl [] ms = ret []"
| "read_to D rl (k # ks) ms = andThen (AppDB_Get D rl k) (\<lambda>(balance, locked).
     if \<not> isFree locked then fail ErrLocked
     else (case ms of
         [] \<Rightarrow> crash
       | m # ms' \<Rightarrow> andThen (read_to D rl ks ms') (\<lambda>bs. ret ((balance + m) # bs))))"

fun write_balances :: "'s db_ops \<Rightarrow> RangeList \<Rightarrow> (string \<times> uint32) list \<Rightarrow> ('s, unit) bank_op" where
  "write_balances D rl [] = ret ()"
| "write_balances D rl ((k, b) # kbs) = andThen (AppDB_Set D rl k b FreeIdentifier) (\<lambda>_. write_balances D rl kbs)"

definition doTransfer :: "'s Application \<Rightarrow> TransferTx \<Rightarrow> ('s, unit) bank_op" where
  "doTransfer app tx =
     (if \<not> StrIn (chain_id app) (Shards tx) then fail ErrNotIncluded
      else (case ValidateTransferTx tx of
          Inl e \<Rightarrow> fail e
        | Inr _ \<Rightarrow> with_ranges app (\<lambda>rl.
            andThen (read_from (app_db_ops app) rl (From tx) (FromMoney tx)) (\<lambda>fromBalance.
            andThen (read_to (app_db_ops app) rl (To tx) (ToMoney tx)) (\<lambda>toBalance.
            andThen (write_balances (app_db_ops app) rl (zip (From tx) fromBalance)) (\<lambda>_.
            write_balances (app_db_ops app) rl (zip (To tx) toBalance)))))))"

definition execute :: "'s Application \<Rightarrow> bytes \<Rightarrow> ('s, unit) bank_op" where
  "execute app txBytes =
     (if length txBytes < 4 then fail ErrTxLength
      else if BytesToUint32 (take 4 txBytes) = Some TxTransfer then
        andThen (NewTransferTxFromBytes (app_codec app) txBytes) (\<lambda>tx.
          if length (Shards tx) = 1 then
            (if Shards tx ! 0 \<noteq> chain_id app then fail ErrNotOurShard else doTransfer app tx)
          else fail ErrShards)
      else fail ErrTxType)"

subsection \<open>Locking: the first phase\<close>

fun insert_loop :: "BankData option \<Rightarrow> string \<Rightarrow> nat \<Rightarrow> string list \<Rightarrow> BankData option list \<Rightarrow> BankData option list option" where
  "insert_loop bd chain i [] ds = Some ds"
| "insert_loop bd chain i (shard # shards) ds =
     (if shard = chain then (if i < length ds then insert_loop bd chain (Suc i) shards (ds[i := bd]) else None)
      else insert_loop bd chain (Suc i) shards ds)"

definition insertBankDataToRelayTxSet :: "BankData option \<Rightarrow> string \<Rightarrow> RelayTransferTxSet \<Rightarrow> RelayTransferTxSet option" where
  "insertBankDataToRelayTxSet bd chain rs =
     map_option (\<lambda>ds. rs\<lparr>rs_Datas := ds\<rparr>) (insert_loop bd chain 0 (rs_Shards rs) (rs_Datas rs))"

fun insert_all :: "(string \<times> BankData option) list \<Rightarrow> RelayTransferTxSet \<Rightarrow> RelayTransferTxSet option" where
  "insert_all [] rs = Some rs"
| "insert_all ((shard, bd) # rest) rs = Option.bind (insertBankDataToRelayTxSet bd shard rs) (insert_all rest)"

text \<open>The results of \<open>WLock\<close> are ignored.\<close>

fun lock_keys :: "'s Application \<Rightarrow> string list \<Rightarrow> ('s, unit) bank_op" where
  "lock_keys app [] = ret ()"
| "lock_keys app (k # ks) = andThen (search_key_intra_shard app k) (\<lambda>mine st.
     if \<not> mine then lock_keys app ks st
     else (case WLock (app_db_ops app) k st of None \<Rightarrow> None | Some (st', _) \<Rightarrow> lock_keys app ks st'))"

definition set_special :: "'s db_ops \<Rightarrow> bytes \<Rightarrow> bytes \<Rightarrow> ('s, unit) bank_op" where
  "set_special D k v st = (case SetSpecial D (db st) k (Some v) of
      Inl e \<Rightarrow> Some (st, Inl (ErrStore e)) | Inr s' \<Rightarrow> Some (st\<lparr>db := s'\<rparr>, Inr ()))"

definition get_special :: "'s db_ops \<Rightarrow> bytes \<Rightarrow> ('s, bytes) bank_op" where
  "get_special D k st = (case GetSpecial D (db st) k of
      Inl e \<Rightarrow> Some (st, Inl (ErrStore e)) | Inr v \<Rightarrow> Some (st, Inr (slice_bytes v)))"

definition lockTransfer :: "'s Application \<Rightarrow> TransferTx \<Rightarrow> bytes \<Rightarrow> ('s, unit) bank_op" where
  "lockTransfer app tx raw_tx =
     (let hash = app_sum app raw_tx;
          rs = \<lparr>rs_Shards = Shards tx, rs_Datas = replicate (length (Shards tx)) None, rs_RawTx = raw_tx\<rparr>
      in andThen (get_special (app_db_ops app) (toRelayKey hash)) (\<lambda>bz.
         andThen (if length bz > 0 then
             (case dec_List (app_codec app) bz of
                None \<Rightarrow> fail ErrDecode
              | Some datas \<Rightarrow> (case insert_all datas rs of None \<Rightarrow> crash | Some rs' \<Rightarrow> ret rs'))
           else ret rs) (\<lambda>rs'.
         andThen (set_special (app_db_ops app) hash (enc_Set (app_codec app) rs')) (\<lambda>_.
         lock_keys app (From tx @ To tx)))))"

definition executeCrossShard :: "'s Application \<Rightarrow> bytes \<Rightarrow> ('s, unit) bank_op" where
  "executeCrossShard app txBytes =
     (if length txBytes < 4 then fail ErrTxLength
      else if BytesToUint32 (take 4 txBytes) = Some TxTransfer then
        andThen (NewTransferTxFromBytes (app_codec app) txBytes) (\<lambda>tx.
          if length (Shards tx) > 1 then lockTransfer app tx txBytes else fail ErrShards)
      else fail ErrTxType)"

text \<open>
  The loop of \<open>pre_doTransfer\<close> over the keys. The lock tables are Go maps shared by the
  transactions of a block: \<open>wlocks\<close> keeps the keys of an aborted transaction, so the loop
  returns it with an error too.
\<close>

type_synonym lock_table = "string \<Rightarrow> bool"

fun pre_loop :: "'s Application \<Rightarrow> string list \<Rightarrow> lock_table \<Rightarrow> lock_table \<Rightarrow> BankData \<Rightarrow> string list \<Rightarrow>
    's AppDB \<Rightarrow> ('s AppDB \<times> lock_table \<times> (bank_error + BankData \<times> string list)) option" where
  "pre_loop app [] wlocks rlocks bd related st = Some (st, wlocks, Inr (bd, related))"
| "pre_loop app (k # ks) wlocks rlocks bd related st = (case search_key_shard app k st of
      None \<Rightarrow> None
    | Some (st1, Inl e) \<Rightarrow> Some (st1, wlocks, Inl e)
    | Some (st1, Inr shard) \<Rightarrow>
        (let related' = List.insert shard related in
         if shard \<noteq> chain_id app then pre_loop app ks wlocks rlocks bd related' st1
         else (case with_ranges app (\<lambda>rl. AppDB_Get (app_db_ops app) rl k) st1 of
             None \<Rightarrow> None
           | Some (st2, Inl e) \<Rightarrow> Some (st2, wlocks, Inl e)
           | Some (st2, Inr (money, locked)) \<Rightarrow>
               if \<not> isFree locked \<or> wlocks k \<or> rlocks k then Some (st2, wlocks, Inl ErrConflict)
               else pre_loop app ks (wlocks(k := True)) rlocks
                      \<lparr>bd_Keys = bd_Keys bd @ [k], bd_Values = bd_Values bd @ [money]\<rparr> related' st2)))"

definition pre_doTransfer :: "'s Application \<Rightarrow> TransferTx \<Rightarrow> bytes \<Rightarrow> lock_table \<Rightarrow> lock_table \<Rightarrow>
    's AppDB \<Rightarrow> ('s AppDB \<times> lock_table \<times> (bank_error + bytes \<times> string list)) option" where
  "pre_doTransfer app tx raw_tx wlocks rlocks st =
     (let hash = app_sum app raw_tx in
      if \<not> StrIn (chain_id app) (Shards tx) then Some (st, wlocks, Inl ErrNotIncluded)
      else (case HasSpecial (app_db_ops app) (db st) hash of
          Inl e \<Rightarrow> Some (st, wlocks, Inl (ErrStore e))
        | Inr True \<Rightarrow> Some (st, wlocks, Inl ErrKnown)
        | Inr False \<Rightarrow> (case ValidateTransferTx tx of
              Inl e \<Rightarrow> Some (st, wlocks, Inl e)
            | Inr _ \<Rightarrow> (case pre_loop app (From tx @ To tx) wlocks rlocks \<lparr>bd_Keys = [], bd_Values = []\<rparr> [] st of
                  None \<Rightarrow> None
                | Some (st', wlocks', Inl e) \<Rightarrow> Some (st', wlocks', Inl e)
                | Some (st', wlocks', Inr (bd, related)) \<Rightarrow>
                    (let relayTxBz = enc_Relay (app_codec app) \<lparr>rt_Datas = Some bd, rt_TxHash = hash\<rparr>;
                         related_shards = sort related
                     in if \<not> StrEqual (Shards tx) related_shards then Some (st', wlocks', Inl ErrShards)
                        else Some (st', wlocks', Inr (relayTxBz, related_shards)))))))"

fun add_relays :: "'s Application \<Rightarrow> bytes \<Rightarrow> string list \<Rightarrow> bytes list list \<Rightarrow> bytes list list option" where
  "add_relays app relayTx [] relayTxs = Some relayTxs"
| "add_relays app relayTx (shard # shards) relayTxs =
     (let i = shards_to_index app shard in
      if i < length relayTxs then add_relays app relayTx shards (relayTxs[i := relayTxs ! i @ [relayTx]]) else None)"

fun pre_txs :: "'s Application \<Rightarrow> bytes list \<Rightarrow> lock_table \<Rightarrow> bytes list list \<Rightarrow> 's AppDB \<Rightarrow>
    ('s AppDB \<times> bytes list list) option" where
  "pre_txs app [] wlocks relayTxs st = Some (st, relayTxs)"
| "pre_txs app (txBytes # txs) wlocks relayTxs st =
     (case NewTransferTxFromBytes (app_codec app) txBytes st of
        None \<Rightarrow> None
      | Some (_, Inl e) \<Rightarrow> pre_txs app txs wlocks relayTxs st
      | Some (_, Inr tx) \<Rightarrow>
          if length (Shards tx) \<le> 1 then pre_txs app txs wlocks relayTxs st
          else (case pre_doTransfer app tx txBytes wlocks (\<lambda>_. False) st of
              None \<Rightarrow> None
            | Some (st', wlocks', Inl e) \<Rightarrow> pre_txs app txs wlocks' relayTxs st'
            | Some (st', wlocks', Inr (relayTx, dstShards)) \<Rightarrow>
                (case add_relays app relayTx dstShards relayTxs of
                   None \<Rightarrow> None
                 | Some relayTxs' \<Rightarrow> (case executeCrossShard app txBytes st' of
                       None \<Rightarrow> None
                     | Some (st2, _) \<Rightarrow> pre_txs app txs wlocks' relayTxs' st2))))"

text \<open>\<open>NewDB\<close>: the account database starts without retained data.\<close>

definition NewDB :: "'s \<Rightarrow> 's AppDB" where
  "NewDB s = \<lparr>db = s, retainData = Map.empty\<rparr>"

definition preExecution :: "'s Application \<Rightarrow> bytes list \<Rightarrow> 's \<Rightarrow> ('s \<times> bytes list list) option" where
  "preExecution app input s = map_option (\<lambda>(st, relayTxs). (db st, relayTxs))
     (pre_txs app input (\<lambda>_. False) (replicate (length (remdups (ShardIDList app))) []) (NewDB s))"

subsection \<open>Relay: the second phase\<close>

fun unlock_keys :: "'s db_ops \<Rightarrow> string list \<Rightarrow> ('s, unit) bank_op" where
  "unlock_keys D [] = ret ()"
| "unlock_keys D (k # ks) = andThen (WUnlock D k) (\<lambda>_. unlock_keys D ks)"

fun load_keys :: "string list \<Rightarrow> uint32 list \<Rightarrow> ('s, unit) bank_op" where
  "load_keys [] vs = ret ()"
| "load_keys (k # ks) vs = (case vs of [] \<Rightarrow> crash | v # vs' \<Rightarrow> andThen (LoadData k v) (\<lambda>_. load_keys ks vs'))"

fun load_datas :: "'s Application \<Rightarrow> string list \<Rightarrow> BankData option list \<Rightarrow> ('s, unit) bank_op" where
  "load_datas app shards [] = ret ()"
| "load_datas app shards (d # ds) = (case (shards, d) of
      (shard # shards', Some data) \<Rightarrow>
        andThen (if shard = chain_id app then unlock_keys (app_db_ops app) (bd_Keys data) else ret ()) (\<lambda>_.
        andThen (load_keys (bd_Keys data) (bd_Values data)) (\<lambda>_.
        load_datas app shards' ds))
    | _ \<Rightarrow> crash)"

definition finish_transfer :: "'s Application \<Rightarrow> RelayTransferTxSet \<Rightarrow> ('s, unit) bank_op" where
  "finish_transfer app rs st =
     map_option (\<lambda>(st', r). (Clear st', r))
       (andThen (load_datas app (rs_Shards rs) (rs_Datas rs)) (\<lambda>_.
        andThen (NewTransferTxFromBytes (app_codec app) (rs_RawTx rs)) (\<lambda>rawTx. doTransfer app rawTx)) st)"

text \<open>
  An assignment to a nil map panics: the decoded map is nil when it has no entry, which the
  code does not meet because it stores non-empty maps only.
\<close>

definition unlockTransfer :: "'s Application \<Rightarrow> RelayTransferTx \<Rightarrow> string \<Rightarrow> ('s, unit) bank_op" where
  "unlockTransfer app tx chain =
     (let hash = rt_TxHash tx in
      andThen (get_special (app_db_ops app) hash) (\<lambda>bz.
        if length bz = 0 then
          andThen (get_special (app_db_ops app) (toRelayKey hash)) (\<lambda>bz2.
          andThen (if length bz2 = 0 then ret []
                   else (case dec_List (app_codec app) bz2 of
                       None \<Rightarrow> fail ErrDecode | Some [] \<Rightarrow> crash | Some datas \<Rightarrow> ret datas)) (\<lambda>datas.
          set_special (app_db_ops app) (toRelayKey hash)
            (enc_List (app_codec app) (AList.update chain (rt_Datas tx) datas))))
        else (case dec_Set (app_codec app) bz of
            None \<Rightarrow> fail ErrDecode
          | Some rs \<Rightarrow> (case insertBankDataToRelayTxSet (rt_Datas tx) chain rs of
                None \<Rightarrow> crash
              | Some rs' \<Rightarrow> if \<not> isRelayTransferTxSetFinish rs' then ret () else finish_transfer app rs'))))"

definition executeRelay :: "'s Application \<Rightarrow> bytes \<Rightarrow> string \<Rightarrow> ('s, unit) bank_op" where
  "executeRelay app txBytes chain =
     andThen (NewRelayTransferTxFromBytes (app_codec app) txBytes) (\<lambda>tx. unlockTransfer app tx chain)"

subsection \<open>A block\<close>

datatype receipt_code = CodeTypeOk | CodeTypeAbort

record receipt =
  r_Code :: receipt_code
  r_Info :: "bank_error option"
  r_RawTx :: bytes

fun exec_relays :: "'s Application \<Rightarrow> bytes list \<Rightarrow> string \<Rightarrow> 's AppDB \<Rightarrow> 's AppDB option" where
  "exec_relays app [] chain st = Some st"
| "exec_relays app (opt # opts) chain st = (case executeRelay app opt chain st of
      None \<Rightarrow> None | Some (st', _) \<Rightarrow> exec_relays app opts chain st')"

fun exec_ctxs :: "'s Application \<Rightarrow> string list \<Rightarrow> bytes list list \<Rightarrow> 's AppDB \<Rightarrow> 's AppDB option" where
  "exec_ctxs app ids [] st = Some st"
| "exec_ctxs app ids (ctxs # rest) st = (case ids of
      [] \<Rightarrow> None
    | chain # ids' \<Rightarrow> Option.bind (exec_relays app ctxs chain st) (exec_ctxs app ids' rest))"

fun exec_txs :: "'s Application \<Rightarrow> bytes list \<Rightarrow> 's AppDB \<Rightarrow> ('s AppDB \<times> receipt list) option" where
  "exec_txs app [] st = Some (st, [])"
| "exec_txs app (tx # txs) st = (case execute app tx st of
      None \<Rightarrow> None
    | Some (st', r) \<Rightarrow>
        map_option (\<lambda>(st2, rs). (st2,
            \<lparr>r_Code = (case r of Inl _ \<Rightarrow> CodeTypeAbort | Inr _ \<Rightarrow> CodeTypeOk),
             r_Info = (case r of Inl e \<Rightarrow> Some e | Inr _ \<Rightarrow> None), r_RawTx = tx\<rparr> # rs))
          (exec_txs app txs st'))"

definition Execution :: "'s Application \<Rightarrow> bytes list \<Rightarrow> bytes list \<Rightarrow> bytes list list \<Rightarrow> 's \<Rightarrow>
    ('s \<times> receipt list \<times> bytes list list) option" where
  "Execution app txs cross_shard_txs CTXS s =
     Option.bind (exec_ctxs app (ShardIDList app) CTXS (NewDB s)) (\<lambda>st.
     Option.bind (exec_txs app txs st) (\<lambda>(st', receipts).
     map_option (\<lambda>(s', opTxs). (s', receipts, opTxs)) (preExecution app cross_shard_txs (db st'))))"

definition validateTx :: "bank_codec \<Rightarrow> bytes \<Rightarrow> bank_error + unit" where
  "validateTx c txBytes =
     (if length txBytes < 4 then Inl ErrTxLength
      else if BytesToUint32 (take 4 txBytes) = Some TxTransfer then
        (case dec_Transfer c (drop 4 txBytes) of None \<Rightarrow> Inl ErrDecode | Some _ \<Rightarrow> Inr ())
      else if BytesToUint32 (take 4 txBytes) = Some TxInsert then
        (case dec_Insert c (drop 4 txBytes) of None \<Rightarrow> Inl ErrDecode | Some _ \<Rightarrow> Inr ())
      else Inl ErrTxType)"

definition ValidateTx :: "bank_codec \<Rightarrow> bytes \<Rightarrow> bool \<Rightarrow> bool" where
  "ValidateTx c tx isCrossShard = (case validateTx c tx of Inl _ \<Rightarrow> False | Inr _ \<Rightarrow> True)"

end
