(* ===== verification/Bank_Transfer.thy ===== *)
theory Bank_Transfer
  imports Bank_App
begin

text \<open>
  Correctness of transfers (\<open>doTransfer\<close> and \<open>execute\<close> of \<open>bank.go\<close>). A transfer is specified on
  the map of accounts, without the store, its encoding and the reads that store initial
  balances; the code refines the specification. Conservation of money, atomicity of aborts and
  the effect of locks follow from it.
\<close>

section \<open>Specification\<close>

text \<open>The accounts a transaction sees: those of the shard and the retained ones.\<close>

definition seen :: "(string \<Rightarrow> uint32 \<times> byte) \<Rightarrow> string set \<Rightarrow> (string \<rightharpoonup> uint32) \<Rightarrow> string \<Rightarrow> (uint32 \<times> byte) option" where
  "seen a own retained k =
     (if k \<in> own then Some (a k) else map_option (\<lambda>v. (v, FreeIdentifier)) (retained k))"

definition usable :: "(string \<Rightarrow> (uint32 \<times> byte) option) \<Rightarrow> string \<Rightarrow> bool" where
  "usable view k \<longleftrightarrow> (\<exists>b. view k = Some (b, FreeIdentifier))"

definition balance_of :: "(string \<Rightarrow> (uint32 \<times> byte) option) \<Rightarrow> string \<Rightarrow> uint32" where
  "balance_of view k = (case view k of Some (b, _) \<Rightarrow> b | None \<Rightarrow> 0)"

definition can_transfer :: "(string \<Rightarrow> (uint32 \<times> byte) option) \<Rightarrow> TransferTx \<Rightarrow> bool" where
  "can_transfer view tx \<longleftrightarrow> ValidateTransferTx tx = Inr ()
     \<and> list_all (usable view) (From tx @ To tx)
     \<and> list_all2 (\<lambda>k m. m \<le> balance_of view k) (From tx) (FromMoney tx)"

definition transfer_writes :: "(string \<Rightarrow> (uint32 \<times> byte) option) \<Rightarrow> TransferTx \<Rightarrow> (string \<times> uint32) list" where
  "transfer_writes view tx =
     map2 (\<lambda>k m. (k, balance_of view k - m)) (From tx) (FromMoney tx)
     @ map2 (\<lambda>k m. (k, balance_of view k + m)) (To tx) (ToMoney tx)"

text \<open>Later writes win; writes to keys of other shards are dropped.\<close>

definition apply_writes :: "string set \<Rightarrow> (string \<Rightarrow> uint32 \<times> byte) \<Rightarrow> (string \<times> uint32) list \<Rightarrow> string \<Rightarrow> uint32 \<times> byte" where
  "apply_writes own a ws = foldl (\<lambda>a (k, b). if k \<in> own then a(k := (b, FreeIdentifier)) else a) a ws"

lemma apply_writes_simps [simp]:
  "apply_writes own a [] = a"
  "apply_writes own a ((k, b) # ws) = apply_writes own (if k \<in> own then a(k := (b, FreeIdentifier)) else a) ws"
  "apply_writes own a (ws @ ws') = apply_writes own (apply_writes own a ws) ws'"
  by (simp_all add: apply_writes_def)

lemma apply_writes_other: "k \<notin> fst ` set ws \<Longrightarrow> apply_writes own a ws k = a k"
  by (induction ws arbitrary: a) auto

lemma apply_writes_foreign: "k \<notin> own \<Longrightarrow> apply_writes own a ws k = a k"
  by (induction ws arbitrary: a) auto

lemma apply_writes_at:
  "distinct (map fst ws) \<Longrightarrow> (k, b) \<in> set ws \<Longrightarrow> k \<in> own \<Longrightarrow> apply_writes own a ws k = (b, FreeIdentifier)"
proof (induction ws arbitrary: a)
  case (Cons w ws)
  then show ?case
    by (cases w) (auto simp: apply_writes_other rev_image_eqI image_iff)
qed simp

section \<open>The code refines it\<close>

text \<open>Operations that change no account.\<close>

definition quiet_step :: "('s \<Rightarrow> bool) \<Rightarrow> ('s \<Rightarrow> bytes \<rightharpoonup> bytes) \<Rightarrow> RangeList \<Rightarrow> 's AppDB \<Rightarrow> 's AppDB \<Rightarrow> bool" where
  "quiet_step ok content rl st st' \<longleftrightarrow> bank_inv ok content rl st' \<and> same_rest content st st'
     \<and> accounts (data_view (content (db st'))) = accounts (data_view (content (db st)))
     \<and> stored_accounts (data_view (content (db st))) \<subseteq> stored_accounts (data_view (content (db st')))"

lemma zip_fst_map2: "zip xs (map2 f xs ys) = map2 (\<lambda>x y. (x, f x y)) xs ys"
  by (induction xs arbitrary: ys) (auto simp: zip_Cons1 split: list.splits)

lemma usable_Some: "v k = Some (b, l) \<Longrightarrow> usable v k \<longleftrightarrow> l = FreeIdentifier"
  by (simp add: usable_def)

lemma usable_None: "v k = None \<Longrightarrow> \<not> usable v k"
  by (simp add: usable_def)

lemma balance_of_Some: "v k = Some (b, l) \<Longrightarrow> balance_of v k = b"
  by (simp add: balance_of_def)

context database
begin

abbreviation "quiet \<equiv> quiet_step ok content"
abbreviation "view rl st \<equiv> seen (acc st) (keys_of rl) (retainData st)"

lemma quiet_refl: "binv rl st \<Longrightarrow> quiet rl st st"
  by (simp add: quiet_step_def)

lemma quiet_trans: "quiet rl st st1 \<Longrightarrow> quiet rl st1 st2 \<Longrightarrow> quiet rl st st2"
  by (auto simp: quiet_step_def intro: same_rest_trans)

lemma quiet_binv: "quiet rl st st' \<Longrightarrow> binv rl st'"
  by (simp add: quiet_step_def)

lemma quiet_view: "quiet rl st st' \<Longrightarrow> view rl st' = view rl st"
  by (simp add: quiet_step_def same_rest_def)

lemma Get_quiet:
  assumes "binv rl st"
  obtains st' where "AppDB_Get D rl k st = Some (st', case view rl st k of Some a \<Rightarrow> Inr a | None \<Rightarrow> Inl ErrNoKey)"
    "quiet rl st st'" "k \<in> keys_of rl \<Longrightarrow> k \<in> stored st'"
proof -
  obtain st' where "AppDB_Get D rl k st = Some (st', if k \<in> keys_of rl then Inr (acc st k)
        else (case retainData st k of Some v \<Rightarrow> Inr (v, FreeIdentifier) | None \<Rightarrow> Inl ErrNoKey))"
    "binv rl st'" "same_rest content st st'" "acc st' = acc st" "stored st' = stored st \<union> ({k} \<inter> keys_of rl)"
    using Get_acc [OF assms, of k] by blast
  then show ?thesis by (intro that [of st']) (auto simp: quiet_step_def seen_def split: option.splits)
qed

lemma read_from_spec:
  assumes "binv rl st" "length ks = length ms"
  shows "\<exists>st' r. read_from D rl ks ms st = Some (st', r) \<and> quiet rl st st'
     \<and> (if list_all (usable (view rl st)) ks \<and> list_all2 (\<lambda>k m. m \<le> balance_of (view rl st) k) ks ms
        then r = Inr (map2 (\<lambda>k m. balance_of (view rl st) k - m) ks ms) else \<exists>e. r = Inl e)"
  using assms(2,1)
proof (induction ks ms arbitrary: st rule: list_induct2)
  case Nil
  then show ?case by (simp add: ret_def quiet_refl)
next
  case (Cons k ks m ms)
  obtain st1 where g: "AppDB_Get D rl k st = Some (st1, case view rl st k of Some a \<Rightarrow> Inr a | None \<Rightarrow> Inl ErrNoKey)"
    and q: "quiet rl st st1" using Get_quiet [OF Cons.prems] by blast
  obtain st2 r where r: "read_from D rl ks ms st1 = Some (st2, r)" "quiet rl st1 st2"
    "if list_all (usable (view rl st)) ks \<and> list_all2 (\<lambda>k m. m \<le> balance_of (view rl st) k) ks ms
     then r = Inr (map2 (\<lambda>k m. balance_of (view rl st) k - m) ks ms) else \<exists>e. r = Inl e"
    using Cons.IH [OF quiet_binv [OF q]] unfolding quiet_view [OF q] by blast
  show ?case
  proof (cases "view rl st k")
    case None
    then show ?thesis using g q by (simp add: andThen_def usable_None)
  next
    case (Some a)
    obtain b l where a: "a = (b, l)" by (cases a)
    have v: "usable (view rl st) k \<longleftrightarrow> l = FreeIdentifier" "balance_of (view rl st) k = b"
      using Some by (simp_all add: a usable_Some balance_of_Some)
    show ?thesis using g q r(1,3) quiet_trans [OF q r(2)] Some unfolding a
      by (cases "l = FreeIdentifier"; cases "m \<le> b"; cases r; auto simp: andThen_def ret_def fail_def isFree_def not_less v
          split: if_splits)
  qed
qed

lemma read_to_spec:
  assumes "binv rl st" "length ks = length ms"
  shows "\<exists>st' r. read_to D rl ks ms st = Some (st', r) \<and> quiet rl st st'
     \<and> (if list_all (usable (view rl st)) ks
        then r = Inr (map2 (\<lambda>k m. balance_of (view rl st) k + m) ks ms) else \<exists>e. r = Inl e)"
  using assms(2,1)
proof (induction ks ms arbitrary: st rule: list_induct2)
  case Nil
  then show ?case by (simp add: ret_def quiet_refl)
next
  case (Cons k ks m ms)
  obtain st1 where g: "AppDB_Get D rl k st = Some (st1, case view rl st k of Some a \<Rightarrow> Inr a | None \<Rightarrow> Inl ErrNoKey)"
    and q: "quiet rl st st1" using Get_quiet [OF Cons.prems] by blast
  obtain st2 r where r: "read_to D rl ks ms st1 = Some (st2, r)" "quiet rl st1 st2"
    "if list_all (usable (view rl st)) ks
     then r = Inr (map2 (\<lambda>k m. balance_of (view rl st) k + m) ks ms) else \<exists>e. r = Inl e"
    using Cons.IH [OF quiet_binv [OF q]] unfolding quiet_view [OF q] by blast
  show ?case
  proof (cases "view rl st k")
    case None
    then show ?thesis using g q by (simp add: andThen_def usable_None)
  next
    case (Some a)
    obtain b l where a: "a = (b, l)" by (cases a)
    have v: "usable (view rl st) k \<longleftrightarrow> l = FreeIdentifier" "balance_of (view rl st) k = b"
      using Some by (simp_all add: a usable_Some balance_of_Some)
    show ?thesis using g q r(1,3) quiet_trans [OF q r(2)] Some unfolding a
      by (cases "l = FreeIdentifier"; cases r; auto simp: andThen_def ret_def fail_def isFree_def not_less v
          split: if_splits)
  qed
qed

lemma write_spec:
  assumes "binv rl st"
  shows "\<exists>st'. write_balances D rl ws st = Some (st', Inr ()) \<and> binv rl st' \<and> same_rest content st st'
     \<and> acc st' = apply_writes (keys_of rl) (acc st) ws"
  using assms
proof (induction ws arbitrary: st)
  case Nil
  then show ?case by (simp add: ret_def)
next
  case (Cons w ws)
  obtain k b where w: "w = (k, b)" by (cases w)
  obtain st1 where s1: "AppDB_Set D rl k b FreeIdentifier st = Some (st1, Inr ())" "binv rl st1" "same_rest content st st1"
    "acc st1 = (if k \<in> keys_of rl then (acc st)(k := (b, FreeIdentifier)) else acc st)"
    using Set_acc [OF Cons.prems] by metis
  obtain st' where s2: "write_balances D rl ws st1 = Some (st', Inr ())" "binv rl st'" "same_rest content st1 st'"
    "acc st' = apply_writes (keys_of rl) (acc st1) ws" using Cons.IH [OF s1(2)] by blast
  have "write_balances D rl (w # ws) st = Some (st', Inr ())" using s1(1) s2(1) by (simp add: w andThen_def)
  then show ?case using s2 same_rest_trans [OF s1(3) s2(3)] by (simp add: w s1(4))
qed

lemma doTransfer_law:
  assumes "app_db_ops app = D" "own_ranges app = Some rl" "chain_id app \<in> set (Shards tx)" "binv rl st"
  shows "\<exists>st' r. doTransfer app tx st = Some (st', r) \<and> binv rl st' \<and> same_rest content st st'
     \<and> (if can_transfer (view rl st) tx
        then r = Inr () \<and> acc st' = apply_writes (keys_of rl) (acc st) (transfer_writes (view rl st) tx)
        else (\<exists>e. r = Inl e) \<and> acc st' = acc st)"
proof (cases "ValidateTransferTx tx")
  case (Inl e)
  then show ?thesis using assms by (simp add: doTransfer_def fail_def can_transfer_def)
next
  case (Inr u)
  then have len: "length (From tx) = length (FromMoney tx)" "length (To tx) = length (ToMoney tx)"
    by (auto simp: ValidateTransferTx_def split: if_splits)
  let ?v = "view rl st"
  obtain st1 r1 where r1: "read_from D rl (From tx) (FromMoney tx) st = Some (st1, r1)" and q1: "quiet rl st st1"
    and c1: "if list_all (usable ?v) (From tx) \<and> list_all2 (\<lambda>k m. m \<le> balance_of ?v k) (From tx) (FromMoney tx)
        then r1 = Inr (map2 (\<lambda>k m. balance_of ?v k - m) (From tx) (FromMoney tx)) else \<exists>e. r1 = Inl e"
    using read_from_spec [OF assms(4) len(1)] by blast
  obtain st2 r2 where r2: "read_to D rl (To tx) (ToMoney tx) st1 = Some (st2, r2)" and q2: "quiet rl st1 st2"
    and c2: "if list_all (usable ?v) (To tx)
        then r2 = Inr (map2 (\<lambda>k m. balance_of ?v k + m) (To tx) (ToMoney tx)) else \<exists>e. r2 = Inl e"
    using read_to_spec [OF quiet_binv [OF q1] len(2)] unfolding quiet_view [OF q1] by blast
  have q: "quiet rl st st2" by (rule quiet_trans [OF q1 q2])
  have do: "doTransfer app tx st = (case r1 of Inl e \<Rightarrow> Some (st1, Inl e) | Inr bs \<Rightarrow>
      (case r2 of Inl e \<Rightarrow> Some (st2, Inl e) | Inr bs' \<Rightarrow>
        andThen (write_balances D rl (zip (From tx) bs)) (\<lambda>_. write_balances D rl (zip (To tx) bs')) st2))"
    using assms(1-3) Inr r1 r2 by (simp add: doTransfer_def with_ranges_def andThen_def split: sum.split)
  show ?thesis
  proof (cases "can_transfer ?v tx")
    case False
    then have "(\<exists>e. r1 = Inl e) \<or> (\<exists>e. r2 = Inl e)" using Inr c1 c2 by (auto simp: can_transfer_def split: if_splits)
    then show ?thesis using do False q q1 by (cases r1; cases r2) (auto simp: quiet_step_def)
  next
    case True
    let ?fb = "map2 (\<lambda>k m. balance_of ?v k - m) (From tx) (FromMoney tx)"
    let ?tb = "map2 (\<lambda>k m. balance_of ?v k + m) (To tx) (ToMoney tx)"
    have rs: "r1 = Inr ?fb" "r2 = Inr ?tb" using True c1 c2 by (auto simp: can_transfer_def)
    obtain st3 where s3: "write_balances D rl (zip (From tx) ?fb) st2 = Some (st3, Inr ())" "binv rl st3"
      "same_rest content st2 st3" "acc st3 = apply_writes (keys_of rl) (acc st2) (zip (From tx) ?fb)"
      using write_spec [OF quiet_binv [OF q]] by blast
    obtain st4 where s4: "write_balances D rl (zip (To tx) ?tb) st3 = Some (st4, Inr ())" "binv rl st4"
      "same_rest content st3 st4" "acc st4 = apply_writes (keys_of rl) (acc st3) (zip (To tx) ?tb)"
      using write_spec [OF s3(2)] by blast
    have ws: "transfer_writes ?v tx = zip (From tx) ?fb @ zip (To tx) ?tb"
      by (simp add: transfer_writes_def zip_fst_map2)
    have "doTransfer app tx st = Some (st4, Inr ())" using do rs s3(1) s4(1) by (simp add: andThen_def)
    moreover have "same_rest content st st4" using q s3(3) s4(3) by (meson quiet_step_def same_rest_trans)
    ultimately show ?thesis using True s3(4) s4 q ws by (simp add: quiet_step_def)
  qed
qed

end

section \<open>Conservation\<close>

lemma apply_writes_sum:
  fixes ws :: "(string \<times> uint32) list"
  assumes "finite K"
  shows "distinct (map fst ws) \<Longrightarrow> own \<inter> fst ` set ws \<subseteq> K \<Longrightarrow>
    (\<Sum>k\<in>K. fst (apply_writes own a ws k))
      = (\<Sum>k\<in>K. fst (a k)) + sum_list (map (\<lambda>(k, b). if k \<in> own then b - fst (a k) else 0) ws)"
proof (induction ws arbitrary: a)
  case (Cons w ws)
  obtain k b where w: "w = (k, b)" by (cases w)
  let ?a = "if k \<in> own then a(k := (b, FreeIdentifier)) else a"
  have "(\<Sum>x\<in>K. fst (apply_writes own ?a ws x))
      = (\<Sum>x\<in>K. fst (?a x)) + sum_list (map (\<lambda>(k, b). if k \<in> own then b - fst (?a k) else 0) ws)"
    using Cons.prems by (intro Cons.IH) (auto simp: w)
  also have "map (\<lambda>(k, b). if k \<in> own then b - fst (?a k) else 0) ws = map (\<lambda>(k, b). if k \<in> own then b - fst (a k) else 0) ws"
    using Cons.prems(1) by (auto simp: w image_iff)
  also have "(\<Sum>x\<in>K. fst (?a x)) = (\<Sum>x\<in>K. fst (a x)) + (if k \<in> own then b - fst (a k) else 0)"
  proof (cases "k \<in> own")
    case True
    then have k: "k \<in> K" using Cons.prems(2) by (auto simp: w)
    have "(\<Sum>x\<in>K - {k}. fst (?a x)) = (\<Sum>x\<in>K - {k}. fst (a x))" by (rule sum.cong) auto
    then show ?thesis using True sum.remove [OF assms k, of "\<lambda>x. fst (?a x)"] sum.remove [OF assms k, of "\<lambda>x. fst (a x)"]
      by simp
  qed simp
  finally show ?case by (simp add: w add.assoc)
qed simp

lemma foldl_plus_sum_list: "foldl (+) s xs = s + sum_list (xs :: 'a::monoid_add list)"
  by (induction xs arbitrary: s) (auto simp: add.assoc)

lemma Validate_sum: "ValidateTransferTx tx = Inr () \<Longrightarrow> sum_list (FromMoney tx) = sum_list (ToMoney tx)"
  by (simp add: ValidateTransferTx_def foldl_plus_sum_list split: if_splits)

lemma Validate_lengths:
  "ValidateTransferTx tx = Inr () \<Longrightarrow> length (From tx) = length (FromMoney tx) \<and> length (To tx) = length (ToMoney tx)"
  by (simp add: ValidateTransferTx_def split: if_splits)

lemma fst_map2_pair: "length xs = length ys \<Longrightarrow> map fst (map2 (\<lambda>k m. (k, f k m)) xs ys) = xs"
  by (induction xs ys rule: list_induct2) auto

lemma sum_list_zip_snd: "length xs = length ys \<Longrightarrow> sum_list (map snd (zip xs ys)) = sum_list (ys :: 'a::ab_group_add list)
    \<and> sum_list (map (\<lambda>x. - snd x) (zip xs ys)) = - sum_list ys"
  by (induction xs ys rule: list_induct2) auto

lemma transfer_writes_keys: "ValidateTransferTx tx = Inr () \<Longrightarrow> map fst (transfer_writes v tx) = From tx @ To tx"
  unfolding transfer_writes_def map_append by (simp only: Validate_lengths fst_map2_pair)

text \<open>The changes of all written balances cancel.\<close>

lemma transfer_writes_balanced:
  assumes "ValidateTransferTx tx = Inr ()"
  shows "sum_list (map (\<lambda>(k, b). b - balance_of v k) (transfer_writes v tx)) = 0"
proof -
  have len: "length (From tx) = length (FromMoney tx)" "length (To tx) = length (ToMoney tx)"
    using Validate_lengths [OF assms] by auto
  have "sum_list (map (\<lambda>(k, b). b - balance_of v k) (transfer_writes v tx))
      = sum_list (map (\<lambda>x. - snd x) (zip (From tx) (FromMoney tx))) + sum_list (map snd (zip (To tx) (ToMoney tx)))"
    by (simp add: transfer_writes_def comp_def case_prod_beta)
  then show ?thesis
    using Validate_sum [OF assms] sum_list_zip_snd [OF len(1)] sum_list_zip_snd [OF len(2)] by simp
qed

lemma transfer_conserved:
  assumes "ValidateTransferTx tx = Inr ()" "distinct (From tx @ To tx)" "set (From tx @ To tx) \<subseteq> own"
    and "finite K" "set (From tx @ To tx) \<subseteq> K" "\<And>k. k \<in> own \<Longrightarrow> balance_of v k = fst (a k)"
  shows "(\<Sum>k\<in>K. fst (apply_writes own a (transfer_writes v tx) k)) = (\<Sum>k\<in>K. fst (a k))"
proof -
  let ?ws = "transfer_writes v tx"
  have ks: "map fst ?ws = From tx @ To tx" by (rule transfer_writes_keys [OF assms(1)])
  have set: "fst ` set ?ws = set (From tx @ To tx)" using arg_cong [OF ks, of set] by simp
  have m: "map (\<lambda>(k, b). if k \<in> own then b - fst (a k) else 0) ?ws = map (\<lambda>(k, b). b - balance_of v k) ?ws"
    using assms(3,6) set by (intro map_cong refl) (force split: prod.split)
  have "sum_list (map (\<lambda>(k, b). if k \<in> own then b - fst (a k) else 0) ?ws) = 0"
    unfolding m by (rule transfer_writes_balanced [OF assms(1)])
  moreover have "own \<inter> fst ` set ?ws \<subseteq> K" using assms(5) set by auto
  ultimately show ?thesis
    using apply_writes_sum [OF assms(4), of ?ws own a] assms(2) unfolding ks by simp
qed

section \<open>Transactions of a block\<close>

lemma transfer_keeps_locked:
  assumes "can_transfer (seen a own r) tx" "snd (a k) \<noteq> FreeIdentifier"
  shows "apply_writes own a (transfer_writes (seen a own r) tx) k = a k"
proof (cases "k \<in> own")
  case True
  then have "\<not> usable (seen a own r) k" using assms(2) by (cases "a k") (simp add: usable_def seen_def)
  then have "k \<notin> set (From tx @ To tx)" using assms(1) by (auto simp: can_transfer_def list_all_iff)
  moreover have "map fst (transfer_writes (seen a own r) tx) = From tx @ To tx"
    using assms(1) by (intro transfer_writes_keys) (simp add: can_transfer_def)
  ultimately show ?thesis by (intro apply_writes_other) (metis list.set_map)
qed (simp add: apply_writes_foreign)

context database
begin

lemma execute_law:
  assumes "app_db_ops app = D" "own_ranges app = Some rl" "binv rl st"
  shows "\<exists>st' r. execute app bz st = Some (st', r) \<and> binv rl st' \<and> same_rest content st st'
     \<and> ((\<exists>e. r = Inl e) \<and> acc st' = acc st
        \<or> r = Inr () \<and> (\<exists>tx. dec_Transfer (app_codec app) (drop 4 bz) = Some tx \<and> Shards tx = [chain_id app]
            \<and> can_transfer (view rl st) tx \<and> acc st' = apply_writes (keys_of rl) (acc st) (transfer_writes (view rl st) tx)))"
proof (cases "\<exists>tx. 4 \<le> length bz \<and> BytesToUint32 (take 4 bz) = Some TxTransfer
      \<and> dec_Transfer (app_codec app) (drop 4 bz) = Some tx \<and> Shards tx = [chain_id app]")
  case True
  then obtain tx where tx: "4 \<le> length bz" "BytesToUint32 (take 4 bz) = Some TxTransfer"
    "dec_Transfer (app_codec app) (drop 4 bz) = Some tx" "Shards tx = [chain_id app]" by blast
  then have "execute app bz st = doTransfer app tx st"
    by (simp add: execute_def andThen_def NewTransferTxFromBytes_def ret_def)
  moreover have "chain_id app \<in> set (Shards tx)" using tx(4) by simp
  ultimately show ?thesis using doTransfer_law [OF assms(1,2) _ assms(3), of tx] tx by (auto split: if_splits)
next
  case False
  have "length (Shards tx) = 1 \<Longrightarrow> Shards tx ! 0 = c \<Longrightarrow> Shards tx = [c]" for tx c
    by (cases "Shards tx") auto
  then have "\<exists>e. execute app bz st = Some (st, Inl e)"
    using False by (auto simp: execute_def andThen_def NewTransferTxFromBytes_def ret_def fail_def not_less split: option.split)
  then show ?thesis using assms(3) by auto
qed

lemma execute_keeps_locked:
  assumes "app_db_ops app = D" "own_ranges app = Some rl" "binv rl st" "snd (acc st k) \<noteq> FreeIdentifier"
    "execute app bz st = Some (st', r)"
  shows "acc st' k = acc st k"
  using execute_law [OF assms(1-3), of bz] assms(4,5) transfer_keeps_locked by (auto simp: Pair_inject)

lemma exec_txs_law:
  assumes "app_db_ops app = D" "own_ranges app = Some rl" "binv rl st"
  shows "\<exists>st' rs. exec_txs app txs st = Some (st', rs) \<and> binv rl st' \<and> same_rest content st st' \<and> map r_RawTx rs = txs
     \<and> (\<forall>k. snd (acc st k) \<noteq> FreeIdentifier \<longrightarrow> acc st' k = acc st k)
     \<and> ((\<forall>r \<in> set rs. r_Code r = CodeTypeAbort) \<longrightarrow> acc st' = acc st)"
  using assms(3)
proof (induction txs arbitrary: st)
  case (Cons bz txs)
  obtain st1 r where e: "execute app bz st = Some (st1, r)" "binv rl st1" "same_rest content st st1"
    "(\<exists>e. r = Inl e) \<Longrightarrow> acc st1 = acc st"
    using execute_law [OF assms(1,2) Cons.prems, of bz] by blast
  obtain st2 rs where l: "exec_txs app txs st1 = Some (st2, rs)" "binv rl st2" "same_rest content st1 st2" "map r_RawTx rs = txs"
    "\<forall>k. snd (acc st1 k) \<noteq> FreeIdentifier \<longrightarrow> acc st2 k = acc st1 k"
    "(\<forall>r \<in> set rs. r_Code r = CodeTypeAbort) \<longrightarrow> acc st2 = acc st1"
    using Cons.IH [OF e(2)] by blast
  have k: "snd (acc st k) \<noteq> FreeIdentifier \<Longrightarrow> acc st2 k = acc st k" for k
    using l(5) execute_keeps_locked [OF assms(1,2) Cons.prems _ e(1), of k] by metis
  show ?case
    using e l k same_rest_trans [OF e(3) l(3)] by (cases r) auto
qed simp

end

section \<open>An instance\<close>

text \<open>
  A shard over the in-memory database, for the instances of the properties: it owns the keys
  from a to c, the other shard those from c to e. The decoders return fixed messages.
\<close>

definition demo_tx :: "string list \<Rightarrow> uint32 list \<Rightarrow> string list \<Rightarrow> uint32 list \<Rightarrow> string list \<Rightarrow> TransferTx" where
  "demo_tx froms fm tos tm shards = NewTransferTx (0, 0) froms fm tos tm shards"

definition demo_codec :: bank_codec where
  "demo_codec = \<lparr>dec_Transfer = (\<lambda>bz. if bz = [] then None else Some (demo_tx [''a''] [of_nat (length bz)] [''b''] [of_nat (length bz)] [''s1''])),
     enc_Transfer = (\<lambda>_. []), dec_Insert = (\<lambda>_. None), enc_Insert = (\<lambda>_. []), enc_Relay = rt_TxHash,
     dec_Relay = (\<lambda>bz. Some \<lparr>rt_Datas = None, rt_TxHash = bz\<rparr>), enc_Set = rs_RawTx,
     dec_Set = (\<lambda>bz. Some \<lparr>rs_Shards = [''s1'', ''s2''], rs_Datas = replicate 2 (Some \<lparr>bd_Keys = [], bd_Values = []\<rparr>), rs_RawTx = bz\<rparr>),
     enc_List = (\<lambda>_. []), dec_List = (\<lambda>_. None)\<rparr>"

definition demo_app :: "string \<Rightarrow> item list Application" where
  "demo_app chain = \<lparr>app_db_ops = MemDB list_btree, app_codec = demo_codec, app_sum = (\<lambda>bz. bz), chain_id = chain,
     KeyRangeTrees = [(''s1'', \<lparr>lists = Some [''a'', ''c'']\<rparr>), (''s2'', \<lparr>lists = Some [''c'', ''e'']\<rparr>)],
     ShardIDList = [''s1'', ''s2'']\<rparr>"

abbreviation demo_ranges :: RangeList where
  "demo_ranges \<equiv> \<lparr>lists = Some [''a'', ''c'']\<rparr>"

abbreviation demo_db :: "item list AppDB" where
  "demo_db \<equiv> NewDB []"

lemma demo_own [simp]: "app_db_ops (demo_app c) = MemDB list_btree" "chain_id (demo_app c) = c"
  "own_ranges (demo_app ''s1'') = Some demo_ranges"
  by (simp_all add: demo_app_def own_ranges_def)

lemma demo_keys [simp]: "k \<in> keys_of demo_ranges \<longleftrightarrow> ''a'' \<le> k \<and> k < ''c''"
  by (simp add: keys_of_def Range_pairs)

lemma list_content_empty [simp]: "mem_content list_btree [] = Map.empty"
  by (simp add: mem_content_def list_btree_def list_items_def newKey_def fun_eq_iff)

lemma demo_inv [simp]: "bank_inv (mem_ok list_btree) (mem_content list_btree) demo_ranges demo_db"
  using list_new_ok by (simp add: bank_inv_def wf_ranges_def less_char_def NewDB_def good_accounts_def data_view_def)

lemma demo_accounts [simp]: "accounts (data_view (mem_content list_btree (db demo_db))) = (\<lambda>_. (initBalance, FreeIdentifier))"
  by (simp add: accounts_def data_view_def NewDB_def fun_eq_iff)

lemma demo_view [simp]: "seen (\<lambda>_. (b, l)) (keys_of demo_ranges) (retainData demo_db) k
    = (if ''a'' \<le> k \<and> k < ''c'' then Some (b, l) else None)"
  by (simp add: seen_def NewDB_def)

section \<open>Properties\<close>

abbreviation bank_accounts :: "('s \<Rightarrow> bytes \<rightharpoonup> bytes) \<Rightarrow> 's AppDB \<Rightarrow> string \<Rightarrow> uint32 \<times> byte" where
  "bank_accounts content st \<equiv> accounts (data_view (content (db st)))"

text \<open>
  C2: \<open>doTransfer\<close> refines the transfer on the map of accounts. It never panics; it succeeds
  exactly when the transaction is valid, all accounts are visible and free and every paying
  account holds the amount; then the accounts are the specified ones, otherwise unchanged.
  Retained data and the other name spaces of the store stay.
\<close>

theorem doTransfer_refines:
  assumes "database D ok content" and "app_db_ops app = D" and "own_ranges app = Some rl"
    and "chain_id app \<in> set (Shards tx)" and "bank_inv ok content rl st"
    and "v = seen (bank_accounts content st) (keys_of rl) (retainData st)"
  shows "\<exists>st' r. doTransfer app tx st = Some (st', r) \<and> bank_inv ok content rl st' \<and> same_rest content st st'
     \<and> (r = Inr () \<longleftrightarrow> can_transfer v tx)
     \<and> bank_accounts content st' = (if can_transfer v tx
          then apply_writes (keys_of rl) (bank_accounts content st) (transfer_writes v tx) else bank_accounts content st)"
  using database.doTransfer_law [OF assms(1-5)] unfolding assms(6) by (auto split: if_splits)

theorem doTransfer_refines_witness:
  "\<exists>st' r. doTransfer (demo_app ''s1'') (demo_tx [''a''] [5] [''b''] [5] [''s1'']) demo_db = Some (st', r)
     \<and> r = Inr () \<and> bank_accounts (mem_content list_btree) st' ''b'' = (1000005, FreeIdentifier)"
proof -
  let ?tx = "demo_tx [''a''] [5] [''b''] [5] [''s1'']"
  let ?v = "seen (bank_accounts (mem_content list_btree) demo_db) (keys_of demo_ranges) (retainData demo_db)"
  have "can_transfer ?v ?tx"
    by (simp add: can_transfer_def demo_tx_def NewTransferTx_def ValidateTransferTx_def usable_def balance_of_def
        initBalance_def less_char_def less_eq_char_def)
  moreover have "transfer_writes ?v ?tx = [(''a'', 999995), (''b'', 1000005)]"
    by (simp add: transfer_writes_def demo_tx_def NewTransferTx_def balance_of_def initBalance_def less_char_def less_eq_char_def)
  ultimately show ?thesis
    using doTransfer_refines [OF memdb.database_axioms demo_own(1) demo_own(3) _ demo_inv refl, of ?tx]
    by (auto simp: demo_tx_def NewTransferTx_def less_char_def less_eq_char_def)
qed

text \<open>
  C3: a transfer between distinct accounts of the shard conserves money: the sum of the balances
  over any finite set that contains its accounts, modulo \<open>2^32\<close>, is the same after it,
  whether it succeeds or fails.
\<close>

theorem transfer_conserves:
  assumes "database D ok content" and "app_db_ops app = D" and "own_ranges app = Some rl"
    and "chain_id app \<in> set (Shards tx)" and "bank_inv ok content rl st"
    and "distinct (From tx @ To tx)" and "set (From tx @ To tx) \<subseteq> keys_of rl"
    and "finite K" and "set (From tx @ To tx) \<subseteq> K"
  shows "\<exists>st' r. doTransfer app tx st = Some (st', r)
     \<and> (\<Sum>k\<in>K. fst (bank_accounts content st' k)) = (\<Sum>k\<in>K. fst (bank_accounts content st k))"
proof -
  let ?a = "bank_accounts content st"
  let ?v = "seen ?a (keys_of rl) (retainData st)"
  have bal: "balance_of ?v k = fst (?a k)" if "k \<in> keys_of rl" for k
    using that by (cases "?a k") (simp add: balance_of_def seen_def)
  have "(\<Sum>k\<in>K. fst (apply_writes (keys_of rl) ?a (transfer_writes ?v tx) k)) = (\<Sum>k\<in>K. fst (?a k))"
    if "can_transfer ?v tx"
    using transfer_conserved [OF _ assms(6-9) bal] that by (simp add: can_transfer_def)
  then show ?thesis
    using database.doTransfer_law [OF assms(1-5)] by (auto split: if_splits)
qed

theorem transfer_conserves_witness:
  "\<exists>st' r. doTransfer (demo_app ''s1'') (demo_tx [''a''] [5] [''b''] [5] [''s1'']) demo_db = Some (st', r)
     \<and> (\<Sum>k\<in>{''a'', ''b''}. fst (bank_accounts (mem_content list_btree) st' k)) = 2000000"
proof -
  have "\<exists>st' r. doTransfer (demo_app ''s1'') (demo_tx [''a''] [5] [''b''] [5] [''s1'']) demo_db = Some (st', r)
     \<and> (\<Sum>k\<in>{''a'', ''b''}. fst (bank_accounts (mem_content list_btree) st' k))
       = (\<Sum>k\<in>{''a'', ''b''}. fst (bank_accounts (mem_content list_btree) demo_db k))"
    by (rule transfer_conserves [OF memdb.database_axioms demo_own(1) demo_own(3) _ demo_inv])
      (auto simp: demo_tx_def NewTransferTx_def less_char_def less_eq_char_def)
  then show ?thesis by (simp add: initBalance_def)
qed

text \<open>
  C24: \<open>execute\<close> on arbitrary bytes returns, and it is atomic: with an error every account is as
  before; without one the bytes decode to a transfer of this shard alone and the accounts are
  those the transfer specifies. A locked account is not changed in either case.
\<close>

theorem execute_atomic:
  assumes "database D ok content" and "app_db_ops app = D" and "own_ranges app = Some rl"
    and "bank_inv ok content rl st" and "v = seen (bank_accounts content st) (keys_of rl) (retainData st)"
  shows "\<exists>st' r. execute app bz st = Some (st', r) \<and> bank_inv ok content rl st'
     \<and> ((\<exists>e. r = Inl e) \<and> bank_accounts content st' = bank_accounts content st
        \<or> r = Inr () \<and> (\<exists>tx. dec_Transfer (app_codec app) (drop 4 bz) = Some tx \<and> Shards tx = [chain_id app] \<and> can_transfer v tx
            \<and> bank_accounts content st' = apply_writes (keys_of rl) (bank_accounts content st) (transfer_writes v tx)))
     \<and> (\<forall>k. snd (bank_accounts content st k) \<noteq> FreeIdentifier \<longrightarrow> bank_accounts content st' k = bank_accounts content st k)"
proof -
  obtain st' r where e: "execute app bz st = Some (st', r)"
    using database.execute_law [OF assms(1-4)] by blast
  show ?thesis
    using database.execute_law [OF assms(1-4), of bz] database.execute_keeps_locked [OF assms(1-4) _ e] e
    unfolding assms(5) by auto
qed

theorem execute_atomic_witness:
  "\<exists>st' r. execute (demo_app ''s1'') [6, 0, 0, 0, 1] demo_db = Some (st', r)
     \<and> bank_inv (mem_ok list_btree) (mem_content list_btree) demo_ranges st'"
  using execute_atomic [OF memdb.database_axioms demo_own(1) demo_own(3) demo_inv refl, of "[6, 0, 0, 0, 1]"] by blast

text \<open>
  The execution of a block of transactions inside the shard never panics. It gives one
  receipt per transaction, in order; an account that was locked before the block is unchanged;
  and a block whose receipts are all aborts changes no account.
\<close>

theorem Execution_local:
  assumes "database D ok content" and "app_db_ops app = D" and "own_ranges app = Some rl"
    and "bank_inv ok content rl (NewDB s)"
  shows "\<exists>s' rs ops. Execution app txs [] [] s = Some (s', rs, ops) \<and> bank_inv ok content rl (NewDB s')
     \<and> map r_RawTx rs = txs \<and> concat ops = []
     \<and> (\<forall>k. snd (accounts (data_view (content s)) k) \<noteq> FreeIdentifier \<longrightarrow>
          accounts (data_view (content s')) k = accounts (data_view (content s)) k)
     \<and> ((\<forall>r \<in> set rs. r_Code r = CodeTypeAbort) \<longrightarrow> accounts (data_view (content s')) = accounts (data_view (content s)))"
  using database.exec_txs_law [OF assms, of txs]
  by (auto simp: Execution_def preExecution_def NewDB_def bank_inv_def)

theorem Execution_local_witness:
  "\<exists>s' rs ops. Execution (demo_app ''s1'') [[6, 0, 0, 0, 1], [9]] [] [] [] = Some (s', rs, ops)
     \<and> map r_RawTx rs = [[6, 0, 0, 0, 1], [9]]"
  using Execution_local [OF memdb.database_axioms demo_own(1) demo_own(3) demo_inv, of "[[6, 0, 0, 0, 1], [9]]"]
  by (elim exE conjE) (intro exI conjI)

text \<open>
  C36: a transfer from an account to itself creates money: both balances are read before either
  is written, so the credit overwrites the debit and the account gains the amount.
\<close>

theorem self_transfer_mints:
  assumes "database D ok content" and "app_db_ops app = D" and "own_ranges app = Some rl"
    and "bank_inv ok content rl st" and "k \<in> keys_of rl" and "bank_accounts content st k = (b, FreeIdentifier)" and "m \<le> b"
    and "From tx = [k]" and "To tx = [k]" and "FromMoney tx = [m]" and "ToMoney tx = [m]" and "Shards tx = [chain_id app]"
  shows "\<exists>st'. doTransfer app tx st = Some (st', Inr ()) \<and> bank_accounts content st' = (bank_accounts content st)(k := (b + m, FreeIdentifier))"
proof -
  let ?v = "seen (bank_accounts content st) (keys_of rl) (retainData st)"
  have v: "?v k = Some (b, FreeIdentifier)" using assms(5,6) by (simp add: seen_def)
  have "can_transfer ?v tx" "transfer_writes ?v tx = [(k, b - m), (k, b + m)]"
    using assms(7-11) v by (simp_all add: can_transfer_def ValidateTransferTx_def usable_def balance_of_def transfer_writes_def)
  then show ?thesis using database.doTransfer_law [OF assms(1-3) _ assms(4), of tx] assms(5,12) by auto
qed

theorem self_transfer_mints_witness:
  "\<exists>st'. doTransfer (demo_app ''s1'') (demo_tx [''a''] [1000000] [''a''] [1000000] [''s1'']) demo_db = Some (st', Inr ())
     \<and> bank_accounts (mem_content list_btree) st' ''a'' = (2000000, FreeIdentifier)"
  using self_transfer_mints [OF memdb.database_axioms demo_own(1) demo_own(3) demo_inv,
      of "''a''" 1000000 1000000 "demo_tx [''a''] [1000000] [''a''] [1000000] [''s1'']"]
  by (auto simp: demo_tx_def NewTransferTx_def initBalance_def less_char_def less_eq_char_def)

text \<open>
  C37: the sums of a transfer wrap, so the money of a recipient can be taken: paying 0 from one
  account to \<open>2^32 - m\<close> for a second and \<open>m\<close> for a third account is valid and moves \<open>m\<close> from
  the second, a mere recipient, to the third.
\<close>

theorem recipient_is_debited:
  assumes "database D ok content" and "app_db_ops app = D" and "own_ranges app = Some rl"
    and "bank_inv ok content rl st" and "{k1, k2, k3} \<subseteq> keys_of rl" and "distinct [k1, k2, k3]"
    and "bank_accounts content st k1 = (b1, FreeIdentifier)" and "bank_accounts content st k2 = (b2, FreeIdentifier)"
    and "bank_accounts content st k3 = (b3, FreeIdentifier)"
    and "From tx = [k1]" and "To tx = [k2, k3]" and "FromMoney tx = [0]" and "ToMoney tx = [- m, m]" and "Shards tx = [chain_id app]"
  shows "\<exists>st'. doTransfer app tx st = Some (st', Inr ())
     \<and> bank_accounts content st' = (bank_accounts content st)(k2 := (b2 - m, FreeIdentifier), k3 := (b3 + m, FreeIdentifier))"
proof -
  let ?v = "seen (bank_accounts content st) (keys_of rl) (retainData st)"
  have v: "?v k1 = Some (b1, FreeIdentifier)" "?v k2 = Some (b2, FreeIdentifier)" "?v k3 = Some (b3, FreeIdentifier)"
    using assms(5,7-9) by (simp_all add: seen_def)
  have "can_transfer ?v tx" "transfer_writes ?v tx = [(k1, b1), (k2, b2 - m), (k3, b3 + m)]"
    using assms(10-13) v by (simp_all add: can_transfer_def ValidateTransferTx_def usable_def balance_of_def transfer_writes_def)
  then show ?thesis
    using database.doTransfer_law [OF assms(1-3) _ assms(4), of tx] assms(5-9,14) by (auto simp: fun_upd_idem)
qed

theorem recipient_is_debited_witness:
  "\<exists>st'. doTransfer (demo_app ''s1'') (demo_tx [''a''] [0] [''b'', ''bb''] [4294967295, 1] [''s1'']) demo_db = Some (st', Inr ())
     \<and> bank_accounts (mem_content list_btree) st' ''b'' = (999999, FreeIdentifier)"
  using recipient_is_debited [OF memdb.database_axioms demo_own(1) demo_own(3) demo_inv,
      of "''a''" "''b''" "''bb''" 1000000 1000000 1000000 "demo_tx [''a''] [0] [''b'', ''bb''] [4294967295, 1] [''s1'']" 1]
  by (auto simp: demo_tx_def NewTransferTx_def initBalance_def less_char_def less_eq_char_def)

end
