(* ===== verification/Bank_Lock.thy ===== *)
theory Bank_Lock
  imports Bank_Transfer
begin

text \<open>
  The first phase of a cross-shard transfer, \<open>preExecution\<close> of \<open>bank.go\<close>: it reads the balances of
  the shard's accounts, sends them to the shards of the transaction and locks the accounts. The
  lemmas show that it always returns on well-formed input and that it only turns free
  accounts of the shard into locked ones.
\<close>

section \<open>The first phase\<close>

text \<open>Every key has at most one shard.\<close>

definition sharded :: "'s Application \<Rightarrow> RangeList \<Rightarrow> bool" where
  "sharded app rl \<longleftrightarrow> own_ranges app = Some rl \<and> distinct (map fst (KeyRangeTrees app))
     \<and> (\<forall>(s, r) \<in> set (KeyRangeTrees app). wf_ranges r)
     \<and> (\<forall>(s, r) \<in> set (KeyRangeTrees app). \<forall>(s', r') \<in> set (KeyRangeTrees app). s \<noteq> s' \<longrightarrow> keys_of r \<inter> keys_of r' = {})"

definition owner :: "(string \<times> RangeList) list \<Rightarrow> string \<Rightarrow> string option" where
  "owner trees k = map_option fst (find (\<lambda>(s, r). k \<in> keys_of r) trees)"

lemma find_Some_in: "find P xs = Some x \<Longrightarrow> x \<in> set xs \<and> P x"
  by (induction xs) (auto split: if_splits)

lemma owner_own:
  assumes "sharded app rl"
  shows "owner (KeyRangeTrees app) k = Some (chain_id app) \<longleftrightarrow> k \<in> keys_of rl"
proof -
  let ?t = "KeyRangeTrees app"
  have d: "map_of ?t (chain_id app) = Some rl" "distinct (map fst ?t)"
    "\<And>s r s' r'. (s, r) \<in> set ?t \<Longrightarrow> (s', r') \<in> set ?t \<Longrightarrow> s \<noteq> s' \<Longrightarrow> keys_of r \<inter> keys_of r' = {}"
    using assms unfolding sharded_def own_ranges_def by blast+
  have own: "(chain_id app, rl) \<in> set ?t" by (rule map_of_SomeD [OF d(1)])
  have uniq: "r = rl" if "(chain_id app, r) \<in> set ?t" for r
    by (rule eq_key_imp_eq_value [OF d(2) that own])
  show ?thesis
  proof
    assume "owner ?t k = Some (chain_id app)"
    then obtain r where "find (\<lambda>(s, r). k \<in> keys_of r) ?t = Some (chain_id app, r)" by (auto simp: owner_def)
    then have "(chain_id app, r) \<in> set ?t" "k \<in> keys_of r" using find_Some_in by fastforce+
    then show "k \<in> keys_of rl" using uniq by blast
  next
    assume k: "k \<in> keys_of rl"
    then obtain s r where f: "find (\<lambda>(s, r). k \<in> keys_of r) ?t = Some (s, r)"
      using own by (cases "find (\<lambda>(s, r). k \<in> keys_of r) ?t") (auto simp: find_None_iff)
    then have "(s, r) \<in> set ?t" "k \<in> keys_of r" using find_Some_in by fastforce+
    then have "s = chain_id app" using d(3) own k by blast
    then show "owner ?t k = Some (chain_id app)" using f by (simp add: owner_def)
  qed
qed

lemma search_loop_owner:
  "\<forall>(s, r) \<in> set trees. wf_ranges r \<Longrightarrow>
   search_loop trees k st = Some (st, case owner trees k of Some s \<Rightarrow> Inr s | None \<Rightarrow> Inl ErrNoKey)"
proof (induction trees)
  case (Cons t trees)
  obtain s r where t: "t = (s, r)" by (cases t)
  have "Search r k = Some (k \<in> keys_of r)" using Cons.prems t by (intro ranges.search_law) auto
  then show ?case using Cons by (simp add: t owner_def andThen_def in_shard_def ret_def)
qed (simp add: owner_def fail_def)

lemma search_key_shard_owner:
  "sharded app rl \<Longrightarrow> search_key_shard app k st
     = Some (st, case owner (KeyRangeTrees app) k of Some s \<Rightarrow> Inr s | None \<Rightarrow> Inl ErrNoKey)"
  unfolding search_key_shard_def by (rule search_loop_owner) (simp add: sharded_def)

definition lock_set :: "string set \<Rightarrow> (string \<Rightarrow> uint32 \<times> byte) \<Rightarrow> string \<Rightarrow> uint32 \<times> byte" where
  "lock_set K a k = (if k \<in> K then (fst (a k), WLockedIdentifier) else a k)"

lemma insert_loop_total:
  "i + length shards \<le> length ds \<Longrightarrow> \<exists>ds'. insert_loop bd chain i shards ds = Some ds' \<and> length ds' = length ds"
proof (induction shards arbitrary: i ds)
  case (Cons s shards)
  show ?case using Cons.IH [of "Suc i" ds] Cons.IH [of "Suc i" "ds[i := bd]"] Cons.prems by simp
qed simp

lemma insert_all_total:
  "length (rs_Shards rs) = length (rs_Datas rs) \<Longrightarrow> \<exists>rs'. insert_all datas rs = Some rs'"
proof (induction datas arbitrary: rs)
  case (Cons d datas)
  obtain shard bd where d: "d = (shard, bd)" by (cases d)
  obtain ds where ds: "insert_loop bd shard 0 (rs_Shards rs) (rs_Datas rs) = Some ds" "length ds = length (rs_Datas rs)"
    using insert_loop_total [of 0 "rs_Shards rs" "rs_Datas rs"] Cons.prems by auto
  show ?case using Cons.IH [of "rs\<lparr>rs_Datas := ds\<rparr>"] Cons.prems ds by (simp add: d insertBankDataToRelayTxSet_def)
qed simp

text \<open>The change of the first phase: free accounts of the shard become write-locked.\<close>

definition only_locks :: "string set \<Rightarrow> (string \<Rightarrow> uint32 \<times> byte) \<Rightarrow> (string \<Rightarrow> uint32 \<times> byte) \<Rightarrow> bool" where
  "only_locks own a a' \<longleftrightarrow> (\<forall>k. a' k = a k
     \<or> k \<in> own \<and> snd (a k) = FreeIdentifier \<and> a' k = (fst (a k), WLockedIdentifier))"

lemma only_locks_refl [simp]: "only_locks own a a"
  by (simp add: only_locks_def)

lemma only_locks_trans: "only_locks own a b \<Longrightarrow> only_locks own b c \<Longrightarrow> only_locks own a c"
  unfolding only_locks_def by (metis fst_conv snd_conv)

text \<open>What a successful pass over the keys has found and noted.\<close>

definition pre_ok :: "string set \<Rightarrow> (string \<Rightarrow> uint32 \<times> byte) \<Rightarrow> lock_table \<Rightarrow> lock_table \<Rightarrow> string set \<Rightarrow> string list \<Rightarrow>
    BankData \<Rightarrow> BankData \<Rightarrow> bool" where
  "pre_ok own a w w' S ks bd bd' \<longleftrightarrow> (let mine = filter (\<lambda>k. k \<in> own) ks in
     bd_Keys bd' = bd_Keys bd @ mine \<and> bd_Values bd' = bd_Values bd @ map (fst \<circ> a) mine \<and> distinct mine
     \<and> list_all (\<lambda>k. snd (a k) = FreeIdentifier \<and> \<not> w k \<and> w' k \<and> k \<in> S) mine)"

lemma pre_ok_mine:
  "pre_ok own a w w' S ks bd bd' \<Longrightarrow> k \<in> set ks \<Longrightarrow> k \<in> own \<Longrightarrow> snd (a k) = FreeIdentifier \<and> \<not> w k \<and> w' k \<and> k \<in> S"
  by (auto simp: pre_ok_def Let_def list_all_iff)

lemma only_locks_lock_set:
  "(\<And>k. k \<in> K \<Longrightarrow> k \<in> own \<and> snd (a k) = FreeIdentifier) \<Longrightarrow> only_locks own a (lock_set K a)"
  by (auto simp: only_locks_def lock_set_def)

lemma pre_ok_skip: "k \<notin> own \<Longrightarrow> pre_ok own a w w' S (k # ks) bd bd' \<longleftrightarrow> pre_ok own a w w' S ks bd bd'"
  by (simp add: pre_ok_def)

lemma pre_ok_take:
  assumes "pre_ok own a (w(k := True)) w' S ks \<lparr>bd_Keys = bd_Keys bd @ [k], bd_Values = bd_Values bd @ [fst (a k)]\<rparr> bd'"
    and "k \<in> own" "snd (a k) = FreeIdentifier" "\<not> w k" "w' k" "k \<in> S"
  shows "pre_ok own a w w' S (k # ks) bd bd'"
  using assms by (auto simp: pre_ok_def Let_def list_all_iff split: if_splits)

context database
begin

lemma pre_loop_law:
  assumes "app_db_ops app = D" "sharded app rl" "binv rl st"
  shows "\<exists>st' w' r. pre_loop app ks w rlocks bd related st = Some (st', w', r) \<and> quiet rl st st' \<and> (\<forall>k. w k \<longrightarrow> w' k)
     \<and> (\<forall>bd' related'. r = Inr (bd', related') \<longrightarrow> pre_ok (keys_of rl) (acc st) w w' (stored st') ks bd bd')"
  using assms(3)
proof (induction ks arbitrary: w bd related st)
  case Nil
  then show ?case by (simp add: quiet_refl pre_ok_def)
next
  case (Cons k ks)
  have own: "own_ranges app = Some rl" using assms(2) by (simp add: sharded_def)
  note sk = search_key_shard_owner [OF assms(2), of k st] and ow = owner_own [OF assms(2), of k]
  consider (none) "owner (KeyRangeTrees app) k = None"
    | (other) s where "owner (KeyRangeTrees app) k = Some s" "s \<noteq> chain_id app" "k \<notin> keys_of rl"
    | (mine) "owner (KeyRangeTrees app) k = Some (chain_id app)" "k \<in> keys_of rl"
    using ow by (cases "owner (KeyRangeTrees app) k") auto
  then show ?case
  proof cases
    case none
    then show ?thesis using sk quiet_refl [OF Cons.prems] by simp
  next
    case other
    have "pre_loop app (k # ks) w rlocks bd related st = pre_loop app ks w rlocks bd (List.insert s related) st"
      using other(1,2) sk by simp
    then show ?thesis unfolding pre_ok_skip [OF other(3)] using Cons.IH [OF Cons.prems] by presburger
  next
    case mine
    obtain st1 where g: "AppDB_Get D rl k st = Some (st1, case view rl st k of Some a \<Rightarrow> Inr a | None \<Rightarrow> Inl ErrNoKey)"
      "quiet rl st st1" "k \<in> stored st1" using Get_quiet [OF Cons.prems, of k] mine by metis
    have get: "with_ranges app (\<lambda>rl. AppDB_Get (app_db_ops app) rl k) st = Some (st1, Inr (fst (acc st k), snd (acc st k)))"
      using g(1) mine assms(1) own by (simp add: with_ranges_def seen_def)
    show ?thesis
    proof (cases "\<not> isFree (snd (acc st k)) \<or> w k \<or> rlocks k")
      case True
      then have "pre_loop app (k # ks) w rlocks bd related st = Some (st1, w, Inl ErrConflict)"
        using mine sk get by (simp add: case_prod_beta)
      then show ?thesis using g(2) by blast
    next
      case False
      let ?w = "w(k := True)" and ?bd = "\<lparr>bd_Keys = bd_Keys bd @ [k], bd_Values = bd_Values bd @ [fst (acc st k)]\<rparr>"
      have e: "pre_loop app (k # ks) w rlocks bd related st = pre_loop app ks ?w rlocks ?bd (List.insert (chain_id app) related) st1"
        using False mine sk get by (simp add: case_prod_beta)
      obtain st2 w' r where ih: "pre_loop app ks ?w rlocks ?bd (List.insert (chain_id app) related) st1 = Some (st2, w', r)"
        "quiet rl st1 st2" "\<forall>k. ?w k \<longrightarrow> w' k"
        "\<forall>bd' related'. r = Inr (bd', related') \<longrightarrow> pre_ok (keys_of rl) (acc st1) ?w w' (stored st2) ks ?bd bd'"
        using Cons.IH [OF quiet_binv [OF g(2)]] by blast
      have acc: "acc st1 = acc st" and sub: "stored st1 \<subseteq> stored st2" using g(2) ih(2) by (simp_all add: quiet_step_def)
      have "pre_ok (keys_of rl) (acc st) w w' (stored st2) (k # ks) bd bd'" if "r = Inr (bd', related')" for bd' related'
        using ih(3,4) that False g(3) sub mine(2) unfolding acc by (intro pre_ok_take) (auto simp: isFree_def)
      moreover have "\<forall>k. w k \<longrightarrow> w' k" using ih(3) by auto
      ultimately show ?thesis using e ih(1) quiet_trans [OF g(2) ih(2)] by metis
    qed
  qed
qed

lemma lock_keys_law:
  assumes "app_db_ops app = D" "own_ranges app = Some rl" "binv rl st"
  shows "\<exists>st'. lock_keys app ks st = Some (st', Inr ()) \<and> binv rl st' \<and> same_rest content st st' \<and> stored st' = stored st
     \<and> acc st' = lock_set (set ks \<inter> keys_of rl \<inter> stored st) (acc st)"
  using assms(3)
proof (induction ks arbitrary: st)
  case Nil
  then show ?case by (simp add: ret_def lock_set_def fun_eq_iff)
next
  case (Cons k ks)
  have s: "search_key_intra_shard app k st = Some (st, Inr (k \<in> keys_of rl))"
    using assms(2) Cons.prems ranges.search_law [of rl k]
    by (simp add: search_key_intra_shard_def with_ranges_def in_shard_def bank_inv_def)
  obtain st1 r where l0: "WLock D k st = Some (st1, r)" "binv rl st1" "same_rest content st st1" "stored st1 = stored st"
    "if k \<notin> stored st then r = Inl ErrNoKey \<and> st1 = st else r = Inr () \<and> acc st1 = (acc st)(k := (fst (acc st k), WLockedIdentifier))"
    using lock_acc [OF Cons.prems, of WLockedIdentifier k] unfolding WLock_def by blast
  note l = l0(1-4)
  have l5: "acc st1 = lock_set ({k} \<inter> stored st) (acc st)"
    using l0(5) by (auto simp: lock_set_def fun_eq_iff split: if_splits)
  show ?case
  proof (cases "k \<in> keys_of rl")
    case False
    then show ?thesis using Cons.IH [OF Cons.prems] s by (simp add: andThen_def)
  next
    case True
    obtain st2 where h: "lock_keys app ks st1 = Some (st2, Inr ())" "binv rl st2" "same_rest content st1 st2"
      "stored st2 = stored st1" "acc st2 = lock_set (set ks \<inter> keys_of rl \<inter> stored st1) (acc st1)"
      using Cons.IH [OF l(2)] by blast
    have "lock_keys app (k # ks) st = Some (st2, Inr ())" using True s l(1) h(1) assms(1) by (simp add: andThen_def)
    moreover have "acc st2 = lock_set (set (k # ks) \<inter> keys_of rl \<inter> stored st) (acc st)"
      using True unfolding h(5) l(4) l5 by (auto simp: lock_set_def fun_eq_iff)
    ultimately show ?thesis using h(2,4) l(4) same_rest_trans [OF l(3) h(3)] by simp
  qed
qed

lemma get_special_law: "binv rl st \<Longrightarrow> get_special D k st = Some (st, Inr (slice_bytes (special (db st) k)))"
  by (simp add: get_special_def bank_inv_def read_laws)

lemma set_special_law:
  assumes "binv rl st"
  obtains st' where "set_special D k v st = Some (st', Inr ())" "binv rl st'" "retainData st' = retainData st"
    "data (db st') = data (db st)" "special (db st') = (special (db st))(k \<mapsto> v)" "state (db st') = state (db st)"
proof -
  obtain s' where "SetSpecial D (db st) k (Some v) = Inr s'" "ok s'" "special s' = (special (db st))(k \<mapsto> v)"
    "data s' = data (db st)" "state s' = state (db st)"
    using SetSpecial_law [of "db st" k v] assms by (auto simp: bank_inv_def)
  then show ?thesis using assms by (intro that [of "st\<lparr>db := s'\<rparr>"]) (simp_all add: set_special_def bank_inv_def)
qed

lemma lockTransfer_law:
  assumes "app_db_ops app = D" "own_ranges app = Some rl" "binv rl st"
  shows "\<exists>st' r. lockTransfer app tx raw st = Some (st', r) \<and> binv rl st' \<and> retainData st' = retainData st \<and> stored st' = stored st
     \<and> (if r = Inr () then acc st' = lock_set (set (From tx @ To tx) \<inter> keys_of rl \<inter> stored st) (acc st)
          \<and> (\<exists>rs. special (db st') = (special (db st))(app_sum app raw \<mapsto> enc_Set (app_codec app) rs))
        else st' = st \<and> r = Inl ErrDecode
          \<and> special (db st) (toRelayKey (app_sum app raw)) \<noteq> None)"
proof -
  let ?h = "app_sum app raw" and ?c = "app_codec app"
  let ?rs = "\<lparr>rs_Shards = Shards tx, rs_Datas = replicate (length (Shards tx)) None, rs_RawTx = raw\<rparr>"
  let ?bz = "slice_bytes (special (db st) (toRelayKey ?h))"
  let ?step = "\<lambda>rs. andThen (set_special D ?h (enc_Set ?c rs)) (\<lambda>_. lock_keys app (From tx @ To tx))"
  have step: "\<exists>st'. ?step rs st = Some (st', Inr ()) \<and> binv rl st' \<and> retainData st' = retainData st \<and> stored st' = stored st
      \<and> acc st' = lock_set (set (From tx @ To tx) \<inter> keys_of rl \<inter> stored st) (acc st)
      \<and> special (db st') = (special (db st))(?h \<mapsto> enc_Set ?c rs)" for rs
  proof -
    obtain st1 where s: "set_special D ?h (enc_Set ?c rs) st = Some (st1, Inr ())" "binv rl st1" "retainData st1 = retainData st"
      "data (db st1) = data (db st)" "special (db st1) = (special (db st))(?h \<mapsto> enc_Set ?c rs)"
      using set_special_law [OF assms(3)] by blast
    show ?thesis using lock_keys_law [OF assms(1,2) s(2), of "From tx @ To tx"] s
      by (auto simp: andThen_def same_rest_def)
  qed
  have eq: "lockTransfer app tx raw st = (if length ?bz > 0 then
      (case dec_List ?c ?bz of None \<Rightarrow> Some (st, Inl ErrDecode)
       | Some datas \<Rightarrow> (case insert_all datas ?rs of None \<Rightarrow> None | Some rs' \<Rightarrow> ?step rs' st))
      else ?step ?rs st)"
    using assms(1) by (simp add: lockTransfer_def Let_def andThen_def get_special_law [OF assms(3)] ret_def fail_def crash_def
        split: option.split)
  show ?thesis
  proof (cases "length ?bz > 0")
    case False
    then show ?thesis unfolding eq using step [of ?rs] by auto
  next
    case True
    show ?thesis
    proof (cases "dec_List ?c ?bz")
      case None
      moreover have "special (db st) (toRelayKey ?h) \<noteq> None" using True by (cases "special (db st) (toRelayKey ?h)") simp_all
      ultimately show ?thesis unfolding eq using True assms(3) by simp
    next
      case (Some datas)
      obtain rs' where "insert_all datas ?rs = Some rs'" using insert_all_total [of ?rs datas] by auto
      then show ?thesis unfolding eq using True Some step [of rs'] by auto
    qed
  qed
qed

lemma pre_doTransfer_law:
  assumes "app_db_ops app = D" "sharded app rl" "binv rl st"
  shows "\<exists>st' w' r. pre_doTransfer app tx raw w rlocks st = Some (st', w', r) \<and> quiet rl st st' \<and> (\<forall>k. w k \<longrightarrow> w' k)
     \<and> (\<forall>bz shards. r = Inr (bz, shards) \<longrightarrow> shards = Shards tx \<and> special (db st) (app_sum app raw) = None
         \<and> (\<exists>bd. bz = enc_Relay (app_codec app) \<lparr>rt_Datas = Some bd, rt_TxHash = app_sum app raw\<rparr>
              \<and> pre_ok (keys_of rl) (acc st) w w' (stored st') (From tx @ To tx) \<lparr>bd_Keys = [], bd_Values = []\<rparr> bd))"
proof -
  let ?bd0 = "\<lparr>bd_Keys = [], bd_Values = []\<rparr>"
  obtain st' w' r where p: "pre_loop app (From tx @ To tx) w rlocks ?bd0 [] st = Some (st', w', r)" "quiet rl st st'"
    "\<forall>k. w k \<longrightarrow> w' k"
    "\<forall>bd' related'. r = Inr (bd', related') \<longrightarrow> pre_ok (keys_of rl) (acc st) w w' (stored st') (From tx @ To tx) ?bd0 bd'"
    using pre_loop_law [OF assms] by blast
  have has: "HasSpecial D (db st) (app_sum app raw) = Inr (special (db st) (app_sum app raw) \<noteq> None)"
    using assms(3) by (simp add: bank_inv_def read_laws)
  note q = quiet_refl [OF assms(3)]
  consider (stop) e where "pre_doTransfer app tx raw w rlocks st = Some (st, w, Inl e)"
    | (go) "special (db st) (app_sum app raw) = None"
      "pre_doTransfer app tx raw w rlocks st = (case r of Inl e \<Rightarrow> Some (st', w', Inl e)
        | Inr (bd, related) \<Rightarrow> if \<not> StrEqual (Shards tx) (sort related) then Some (st', w', Inl ErrShards)
            else Some (st', w', Inr (enc_Relay (app_codec app) \<lparr>rt_Datas = Some bd, rt_TxHash = app_sum app raw\<rparr>, sort related)))"
    using has p(1) assms(1)
    by (cases "chain_id app \<in> set (Shards tx)"; cases "special (db st) (app_sum app raw)"; cases "ValidateTransferTx tx")
      (auto simp: pre_doTransfer_def Let_def split: sum.splits prod.splits)
  then show ?thesis
  proof cases
    case stop
    then show ?thesis using q by blast
  next
    case go
    show ?thesis
    proof (cases r)
      case (Inl e)
      then show ?thesis using go p(2,3) by auto
    next
      case (Inr b)
      obtain bd related where b: "b = (bd, related)" by (cases b)
      show ?thesis using go p(2-4) by (cases "StrEqual (Shards tx) (sort related)") (auto simp: Inr b)
    qed
  qed
qed

text \<open>A block of cross-shard transactions: free accounts become locked, nothing else changes.\<close>

lemma add_relays_total:
  "(\<And>shard. shards_to_index app shard < length ops) \<Longrightarrow> \<exists>ops'. add_relays app bz shards ops = Some ops' \<and> length ops' = length ops"
proof (induction shards arbitrary: ops)
  case (Cons s shards)
  let ?ops = "ops[shards_to_index app s := ops ! shards_to_index app s @ [bz]]"
  have "\<exists>ops'. add_relays app bz shards ?ops = Some ops' \<and> length ops' = length ?ops"
    using Cons.prems by (intro Cons.IH) simp
  then show ?case using Cons.prems by (simp add: Let_def)
qed simp

lemma executeCrossShard_law:
  assumes "app_db_ops app = D" "own_ranges app = Some rl" "binv rl st"
  shows "\<exists>st' r. executeCrossShard app raw st = Some (st', r) \<and> binv rl st' \<and> retainData st' = retainData st
     \<and> (acc st' = acc st \<or> (\<exists>tx. dec_Transfer (app_codec app) (drop 4 raw) = Some tx
          \<and> acc st' = lock_set (set (From tx @ To tx) \<inter> keys_of rl \<inter> stored st) (acc st)))"
proof (cases "\<exists>tx. 4 \<le> length raw \<and> BytesToUint32 (take 4 raw) = Some TxTransfer
      \<and> dec_Transfer (app_codec app) (drop 4 raw) = Some tx \<and> length (Shards tx) > 1")
  case True
  then obtain tx where tx: "4 \<le> length raw" "BytesToUint32 (take 4 raw) = Some TxTransfer"
    "dec_Transfer (app_codec app) (drop 4 raw) = Some tx" "length (Shards tx) > 1" by blast
  then have "executeCrossShard app raw st = lockTransfer app tx raw st"
    by (simp add: executeCrossShard_def andThen_def NewTransferTxFromBytes_def ret_def)
  then show ?thesis using lockTransfer_law [OF assms, of tx raw] tx(3) by (auto split: if_splits)
next
  case False
  then have "\<exists>e. executeCrossShard app raw st = Some (st, Inl e)"
    by (auto simp: executeCrossShard_def andThen_def NewTransferTxFromBytes_def ret_def fail_def not_less split: option.split)
  then show ?thesis using assms(3) by auto
qed

lemma pre_txs_law:
  assumes "app_db_ops app = D" "sharded app rl" "binv rl st"
    and "list_all (\<lambda>bz. 4 \<le> length bz) input" "\<And>shard. shards_to_index app shard < length ops"
  shows "\<exists>st' ops'. pre_txs app input w ops st = Some (st', ops') \<and> binv rl st' \<and> length ops' = length ops
     \<and> only_locks (keys_of rl) (acc st) (acc st')"
  using assms(3-5)
proof (induction input arbitrary: w ops st)
  case Nil
  then show ?case by simp
next
  case (Cons raw input)
  have own: "own_ranges app = Some rl" using assms(2) by (simp add: sharded_def)
  have l4: "4 \<le> length raw" "list_all (\<lambda>bz. 4 \<le> length bz) input" using Cons.prems(2) by simp_all
  show ?case
  proof (cases "\<exists>tx. dec_Transfer (app_codec app) (drop 4 raw) = Some tx \<and> length (Shards tx) > 1")
    case False
    then have "pre_txs app (raw # input) w ops st = pre_txs app input w ops st"
      using l4(1) by (cases "dec_Transfer (app_codec app) (drop 4 raw)") (auto simp: NewTransferTxFromBytes_def ret_def fail_def not_less)
    then show ?thesis using Cons.IH [OF Cons.prems(1) l4(2) Cons.prems(3)] by presburger
  next
    case True
    then obtain tx where tx: "dec_Transfer (app_codec app) (drop 4 raw) = Some tx" "length (Shards tx) > 1" by blast
    let ?bd0 = "\<lparr>bd_Keys = [], bd_Values = []\<rparr>"
    obtain st1 w1 r where p: "pre_doTransfer app tx raw w (\<lambda>_. False) st = Some (st1, w1, r)" "quiet rl st st1"
      "\<forall>bz shards. r = Inr (bz, shards) \<longrightarrow> shards = Shards tx \<and> special (db st) (app_sum app raw) = None
         \<and> (\<exists>bd. bz = enc_Relay (app_codec app) \<lparr>rt_Datas = Some bd, rt_TxHash = app_sum app raw\<rparr>
              \<and> pre_ok (keys_of rl) (acc st) w w1 (stored st1) (From tx @ To tx) ?bd0 bd)"
      using pre_doTransfer_law [OF assms(1,2) Cons.prems(1)] by blast
    have b1: "binv rl st1" and a1: "acc st1 = acc st" using p(2) by (simp_all add: quiet_step_def)
    have new: "NewTransferTxFromBytes (app_codec app) raw st = Some (st, Inr tx)"
      using l4(1) tx(1) by (simp add: NewTransferTxFromBytes_def ret_def)
    show ?thesis
    proof (cases r)
      case (Inl e)
      then have "pre_txs app (raw # input) w ops st = pre_txs app input w1 ops st1"
        using new p(1) tx(2) by simp
      then show ?thesis using Cons.IH [OF b1 l4(2) Cons.prems(3)] a1 by simp
    next
      case (Inr b)
      obtain bz shards where b: "b = (bz, shards)" by (cases b)
      obtain bd where ok: "pre_ok (keys_of rl) (acc st) w w1 (stored st1) (From tx @ To tx) ?bd0 bd" using p(3) Inr b by blast
      obtain ops' where o: "add_relays app bz shards ops = Some ops'" "length ops' = length ops"
        using add_relays_total Cons.prems(3) by blast
      obtain st2 r2 where x: "executeCrossShard app raw st1 = Some (st2, r2)" "binv rl st2"
        "acc st2 = acc st1 \<or> (\<exists>tx. dec_Transfer (app_codec app) (drop 4 raw) = Some tx
          \<and> acc st2 = lock_set (set (From tx @ To tx) \<inter> keys_of rl \<inter> stored st1) (acc st1))"
        using executeCrossShard_law [OF assms(1) own b1] by blast
      have "only_locks (keys_of rl) (acc st) (acc st2)"
        using x(3)
      proof
        assume "\<exists>tx. dec_Transfer (app_codec app) (drop 4 raw) = Some tx
          \<and> acc st2 = lock_set (set (From tx @ To tx) \<inter> keys_of rl \<inter> stored st1) (acc st1)"
        then have a2: "acc st2 = lock_set (set (From tx @ To tx) \<inter> keys_of rl \<inter> stored st1) (acc st)" using tx(1) a1 by simp
        show ?thesis unfolding a2 using pre_ok_mine [OF ok] by (intro only_locks_lock_set) blast
      qed (simp add: a1)
      moreover have "pre_txs app (raw # input) w ops st = pre_txs app input w1 ops' st2"
        using new p(1) tx(2) x(1) o(1) by (simp add: Inr b)
      moreover obtain st3 ops3 where "pre_txs app input w1 ops' st2 = Some (st3, ops3)" "binv rl st3" "length ops3 = length ops'"
        "only_locks (keys_of rl) (acc st2) (acc st3)"
        using Cons.IH [OF x(2) l4(2), of ops' w1] Cons.prems(3) o(2) by metis
      ultimately show ?thesis using o(2) only_locks_trans by metis
    qed
  qed
qed

lemma cross_shard_locks_law:
  assumes "app_db_ops app = D" "sharded app rl" "binv rl st"
    and "pre_doTransfer app tx raw w (\<lambda>_. False) st = Some (st1, w', Inr (relay, shards))"
    and "4 \<le> length raw" "BytesToUint32 (take 4 raw) = Some TxTransfer" "dec_Transfer (app_codec app) (drop 4 raw) = Some tx"
    and "length (Shards tx) > 1" "special (db st) (toRelayKey (app_sum app raw)) = None"
  shows "\<exists>st2. executeCrossShard app raw st1 = Some (st2, Inr ()) \<and> binv rl st2
     \<and> acc st2 = lock_set (set (From tx @ To tx) \<inter> keys_of rl) (acc st)
     \<and> pre_doTransfer app tx raw w2 rl2 st2 = Some (st2, w2, Inl ErrKnown)"
proof -
  have own: "own_ranges app = Some rl" using assms(2) by (simp add: sharded_def)
  obtain bd where q: "quiet rl st st1" "shards = Shards tx"
    and ok: "pre_ok (keys_of rl) (acc st) w w' (stored st1) (From tx @ To tx) \<lparr>bd_Keys = [], bd_Values = []\<rparr> bd"
    using pre_doTransfer_law [OF assms(1-3), of tx raw w "\<lambda>_. False"] assms(4) by auto
  have b1: "binv rl st1" and a1: "acc st1 = acc st" and sp: "special (db st1) = special (db st)"
    using q(1) by (simp_all add: quiet_step_def same_rest_def)
  have sub: "set (From tx @ To tx) \<inter> keys_of rl \<inter> stored st1 = set (From tx @ To tx) \<inter> keys_of rl"
    using pre_ok_mine [OF ok] by blast
  have x: "executeCrossShard app raw st1 = lockTransfer app tx raw st1"
    using assms(5-8) by (simp add: executeCrossShard_def andThen_def NewTransferTxFromBytes_def ret_def)
  have "special (db st1) (toRelayKey (app_sum app raw)) = None" using assms(9) sp by simp
  then obtain st2 rs where s2: "lockTransfer app tx raw st1 = Some (st2, Inr ())" "binv rl st2"
    "acc st2 = lock_set (set (From tx @ To tx) \<inter> keys_of rl) (acc st)"
    "special (db st2) = (special (db st1))(app_sum app raw \<mapsto> enc_Set (app_codec app) rs)"
    using lockTransfer_law [OF assms(1) own b1, of tx raw] unfolding a1 sub by (auto split: if_splits)
  have "HasSpecial D (db st2) (app_sum app raw) = Inr True" using s2(2,4) by (simp add: bank_inv_def read_laws)
  moreover have "chain_id app \<in> set (Shards tx)"
    using assms(4) by (auto simp: pre_doTransfer_def Let_def split: if_splits)
  ultimately have "pre_doTransfer app tx raw w2 rl2 st2 = Some (st2, w2, Inl ErrKnown)"
    using assms(1) by (simp add: pre_doTransfer_def Let_def)
  then show ?thesis using x s2 by auto
qed

end

section \<open>When a transaction is relayed\<close>

definition can_relay :: "'s Application \<Rightarrow> string set \<Rightarrow> (string \<Rightarrow> uint32 \<times> byte) \<Rightarrow> lock_table \<Rightarrow> TransferTx \<Rightarrow> bool" where
  "can_relay app own a w tx \<longleftrightarrow> (let ks = From tx @ To tx in
     chain_id app \<in> set (Shards tx) \<and> ValidateTransferTx tx = Inr ()
     \<and> list_all (\<lambda>k. owner (KeyRangeTrees app) k \<noteq> None) ks
     \<and> distinct (filter (\<lambda>k. k \<in> own) ks)
     \<and> list_all (\<lambda>k. snd (a k) = FreeIdentifier \<and> \<not> w k) (filter (\<lambda>k. k \<in> own) ks)
     \<and> sorted (Shards tx) \<and> distinct (Shards tx) \<and> set (Shards tx) = set (map (the \<circ> owner (KeyRangeTrees app)) ks))"

context database
begin

lemma pre_loop_success:
  assumes "app_db_ops app = D" "sharded app rl" "binv rl st"
    and "list_all (\<lambda>k. owner (KeyRangeTrees app) k \<noteq> None) ks" "distinct (filter (\<lambda>k. k \<in> keys_of rl) ks)"
    and "list_all (\<lambda>k. snd (acc st k) = FreeIdentifier \<and> \<not> w k) (filter (\<lambda>k. k \<in> keys_of rl) ks)"
  shows "\<exists>st' w' bd' related'. pre_loop app ks w (\<lambda>_. False) bd related st = Some (st', w', Inr (bd', related'))
     \<and> set related' = set related \<union> set (map (the \<circ> owner (KeyRangeTrees app)) ks) \<and> (distinct related \<longrightarrow> distinct related')"
  using assms(3-6)
proof (induction ks arbitrary: w bd related st)
  case Nil
  then show ?case by simp
next
  case (Cons k ks)
  have own: "own_ranges app = Some rl" using assms(2) by (simp add: sharded_def)
  obtain s where s: "owner (KeyRangeTrees app) k = Some s" using Cons.prems(2) by auto
  have sk: "search_key_shard app k st = Some (st, Inr s)" by (simp add: search_key_shard_owner [OF assms(2)] s)
  have ow: "s = chain_id app \<longleftrightarrow> k \<in> keys_of rl" using owner_own [OF assms(2), of k] s by simp
  have rest: "list_all (\<lambda>k. owner (KeyRangeTrees app) k \<noteq> None) ks" "distinct (filter (\<lambda>k. k \<in> keys_of rl) ks)"
    "list_all (\<lambda>k. snd (acc st k) = FreeIdentifier \<and> \<not> w k) (filter (\<lambda>k. k \<in> keys_of rl) ks)"
    using Cons.prems(2-4) by (auto split: if_splits)
  show ?case
  proof (cases "k \<in> keys_of rl")
    case False
    then have "pre_loop app (k # ks) w (\<lambda>_. False) bd related st = pre_loop app ks w (\<lambda>_. False) bd (List.insert s related) st"
      using sk ow by simp
    then show ?thesis using Cons.IH [OF Cons.prems(1) rest, of bd "List.insert s related"] s by fastforce
  next
    case True
    obtain st1 where g: "AppDB_Get D rl k st = Some (st1, case view rl st k of Some a \<Rightarrow> Inr a | None \<Rightarrow> Inl ErrNoKey)"
      "quiet rl st st1" using Get_quiet [OF Cons.prems(1), of k] by metis
    have get: "with_ranges app (\<lambda>rl. AppDB_Get (app_db_ops app) rl k) st = Some (st1, Inr (fst (acc st k), snd (acc st k)))"
      using g(1) True assms(1) own by (simp add: with_ranges_def seen_def)
    have kf: "isFree (snd (acc st k))" "\<not> w k" "k \<notin> set ks" using Cons.prems(3,4) True by (auto simp: isFree_def)
    let ?bd = "\<lparr>bd_Keys = bd_Keys bd @ [k], bd_Values = bd_Values bd @ [fst (acc st k)]\<rparr>"
    have "pre_loop app (k # ks) w (\<lambda>_. False) bd related st = pre_loop app ks (w(k := True)) (\<lambda>_. False) ?bd (List.insert s related) st1"
      using True ow sk get kf by (simp add: case_prod_beta)
    moreover have "acc st1 = acc st" using g(2) by (simp add: quiet_step_def)
    moreover have "list_all (\<lambda>x. snd (acc st x) = FreeIdentifier \<and> \<not> (w(k := True)) x) (filter (\<lambda>k. k \<in> keys_of rl) ks)"
      using rest(3) kf(3) by (auto simp: list_all_iff)
    ultimately show ?thesis
      using Cons.IH [OF quiet_binv [OF g(2)] rest(1,2), of "w(k := True)" ?bd "List.insert s related"] s by fastforce
  qed
qed

lemma relay_law:
  assumes "app_db_ops app = D" "sharded app rl" "binv rl st" "can_relay app (keys_of rl) (acc st) w tx"
    and "4 \<le> length raw" "BytesToUint32 (take 4 raw) = Some TxTransfer" "dec_Transfer (app_codec app) (drop 4 raw) = Some tx"
    and "length (Shards tx) > 1" "special (db st) (app_sum app raw) = None" "special (db st) (toRelayKey (app_sum app raw)) = None"
  defines "mine \<equiv> filter (\<lambda>k. k \<in> keys_of rl) (From tx @ To tx)"
  shows "\<exists>st1 w' st2. pre_doTransfer app tx raw w (\<lambda>_. False) st
       = Some (st1, w', Inr (enc_Relay (app_codec app)
           \<lparr>rt_Datas = Some \<lparr>bd_Keys = mine, bd_Values = map (fst \<circ> acc st) mine\<rparr>, rt_TxHash = app_sum app raw\<rparr>, Shards tx))
     \<and> executeCrossShard app raw st1 = Some (st2, Inr ()) \<and> binv rl st2 \<and> acc st2 = lock_set (set mine) (acc st)
     \<and> pre_doTransfer app tx raw w2 rl2 st2 = Some (st2, w2, Inl ErrKnown)"
proof -
  let ?bd0 = "\<lparr>bd_Keys = [], bd_Values = []\<rparr>"
  have c: "chain_id app \<in> set (Shards tx)" "ValidateTransferTx tx = Inr ()"
    "list_all (\<lambda>k. owner (KeyRangeTrees app) k \<noteq> None) (From tx @ To tx)" "distinct mine"
    "list_all (\<lambda>k. snd (acc st k) = FreeIdentifier \<and> \<not> w k) mine"
    "sorted (Shards tx)" "distinct (Shards tx)" "set (Shards tx) = set (map (the \<circ> owner (KeyRangeTrees app)) (From tx @ To tx))"
    using assms(4) unfolding can_relay_def Let_def mine_def by blast+
  obtain st1 w' bd related where p: "pre_loop app (From tx @ To tx) w (\<lambda>_. False) ?bd0 [] st = Some (st1, w', Inr (bd, related))"
    "set related = set (Shards tx)" "distinct related"
    using pre_loop_success [OF assms(1-3) c(3) c(4,5) [unfolded mine_def], of ?bd0 "[]"] unfolding c(8) by auto
  have sorted: "sort related = Shards tx"
    using p(2,3) c(6,7) by (intro sorted_distinct_set_unique) simp_all
  have "pre_ok (keys_of rl) (acc st) w w' (stored st1) (From tx @ To tx) ?bd0 bd"
    using pre_loop_law [OF assms(1-3), of "From tx @ To tx" w "\<lambda>_. False" ?bd0 "[]"] p(1) by auto
  then have bd: "bd = \<lparr>bd_Keys = mine, bd_Values = map (fst \<circ> acc st) mine\<rparr>"
    unfolding pre_ok_def Let_def mine_def by (cases bd) simp
  have "HasSpecial D (db st) (app_sum app raw) = Inr False" using assms(3,9) by (simp add: bank_inv_def read_laws)
  then have pre: "pre_doTransfer app tx raw w (\<lambda>_. False) st = Some (st1, w', Inr (enc_Relay (app_codec app)
      \<lparr>rt_Datas = Some bd, rt_TxHash = app_sum app raw\<rparr>, Shards tx))"
    using c(1,2) p(1) assms(1) by (simp add: pre_doTransfer_def Let_def sorted)
  have "set (From tx @ To tx) \<inter> keys_of rl = set mine" by (auto simp: mine_def)
  then show ?thesis
    using cross_shard_locks_law [OF assms(1-3) pre assms(5-8,10), of w2 rl2] pre unfolding bd by auto
qed

end

lemma shards_to_index_bound:
  assumes "distinct (ShardIDList app)" "ShardIDList app \<noteq> []"
  shows "shards_to_index app shard < length (remdups (ShardIDList app))"
proof -
  let ?ids = "ShardIDList app"
  have "i < length ?ids" if "map_of (rev (zip ?ids [0..<length ?ids])) shard = Some i" for i
    using map_of_SomeD [OF that] by (auto dest: set_zip_rightD)
  then show ?thesis using assms by (auto simp: shards_to_index_def distinct_remdups_id split: option.split)
qed

section \<open>Properties\<close>

definition demo_cross :: "string \<Rightarrow> item list Application" where
  "demo_cross chain = (demo_app chain)\<lparr>app_codec := demo_codec\<lparr>dec_Transfer :=
     (\<lambda>_. Some (demo_tx [''a''] [5] [''d''] [5] [''s1'', ''s2'']))\<rparr>\<rparr>"

abbreviation demo_ranges2 :: RangeList where
  "demo_ranges2 \<equiv> \<lparr>lists = Some [''c'', ''e'']\<rparr>"

lemma demo_keys2 [simp]: "k \<in> keys_of demo_ranges2 \<longleftrightarrow> ''c'' \<le> k \<and> k < ''e''"
  by (simp add: keys_of_def Range_pairs)

lemma demo_cross_simps [simp]: "app_db_ops (demo_cross c) = MemDB list_btree" "chain_id (demo_cross c) = c"
  "KeyRangeTrees (demo_cross c) = [(''s1'', demo_ranges), (''s2'', demo_ranges2)]" "ShardIDList (demo_cross c) = [''s1'', ''s2'']"
  "app_sum (demo_cross c) = (\<lambda>bz. bz)"
  "dec_Transfer (app_codec (demo_cross c)) bz = Some (demo_tx [''a''] [5] [''d''] [5] [''s1'', ''s2''])"
  by (simp_all add: demo_cross_def demo_app_def)

lemma demo_ranges_wf [simp]: "wf_ranges demo_ranges" "wf_ranges demo_ranges2"
  by (simp_all add: wf_ranges_def less_char_def)

lemma demo_ranges_disjoint [simp]: "keys_of demo_ranges \<inter> keys_of demo_ranges2 = {}" "keys_of demo_ranges2 \<inter> keys_of demo_ranges = {}"
  using leD by (auto simp: disjoint_iff)

lemma demo_sharded: "sharded (demo_cross ''s1'') demo_ranges" "sharded (demo_cross ''s2'') demo_ranges2"
  by (simp_all add: sharded_def own_ranges_def)

text \<open>
  C22: a cross-shard transaction that is valid, whose keys all have a shard, whose own accounts are
  distinct, free and not taken by an earlier transaction of the block, and that names exactly
  the shards of its keys in order, is relayed with the true balances of the shard's accounts;
  then exactly these accounts are locked, and the same transaction is refused from then on.
\<close>

theorem relay_and_lock:
  assumes "database D ok content" and "app_db_ops app = D" and "sharded app rl" and "bank_inv ok content rl st"
    and "can_relay app (keys_of rl) (bank_accounts content st) w tx"
    and "4 \<le> length raw" and "BytesToUint32 (take 4 raw) = Some TxTransfer" and "dec_Transfer (app_codec app) (drop 4 raw) = Some tx"
    and "length (Shards tx) > 1" and "special_view (content (db st)) (app_sum app raw) = None"
    and "special_view (content (db st)) (toRelayKey (app_sum app raw)) = None"
    and "mine = filter (\<lambda>k. k \<in> keys_of rl) (From tx @ To tx)"
  shows "\<exists>st1 w' st2. pre_doTransfer app tx raw w (\<lambda>_. False) st
       = Some (st1, w', Inr (enc_Relay (app_codec app)
           \<lparr>rt_Datas = Some \<lparr>bd_Keys = mine, bd_Values = map (fst \<circ> bank_accounts content st) mine\<rparr>, rt_TxHash = app_sum app raw\<rparr>, Shards tx))
     \<and> executeCrossShard app raw st1 = Some (st2, Inr ()) \<and> bank_inv ok content rl st2
     \<and> bank_accounts content st2 = lock_set (set mine) (bank_accounts content st)
     \<and> pre_doTransfer app tx raw w2 rl2 st2 = Some (st2, w2, Inl ErrKnown)"
  unfolding assms(12) by (rule database.relay_law [OF assms(1-11)])

theorem relay_and_lock_witness:
  "\<exists>st1 w' st2 bz. pre_doTransfer (demo_cross ''s1'') (demo_tx [''a''] [5] [''d''] [5] [''s1'', ''s2'']) [6, 0, 0, 0, 1] (\<lambda>_. False) (\<lambda>_. False) demo_db
       = Some (st1, w', Inr (bz, [''s1'', ''s2'']))
     \<and> executeCrossShard (demo_cross ''s1'') [6, 0, 0, 0, 1] st1 = Some (st2, Inr ())
     \<and> bank_accounts (mem_content list_btree) st2 ''a'' = (1000000, WLockedIdentifier)"
proof -
  let ?tx = "demo_tx [''a''] [5] [''d''] [5] [''s1'', ''s2'']"
  have tx: "From ?tx = [''a'']" "To ?tx = [''d'']" "Shards ?tx = [''s1'', ''s2'']" "ValidateTransferTx ?tx = Inr ()"
    by (simp_all add: demo_tx_def NewTransferTx_def ValidateTransferTx_def)
  have c: "can_relay (demo_cross ''s1'') (keys_of demo_ranges) (bank_accounts (mem_content list_btree) demo_db) (\<lambda>_. False) ?tx"
    by (simp add: can_relay_def tx owner_def less_char_def less_eq_char_def)
  have t: "BytesToUint32 (take 4 [6, 0, 0, 0, 1]) = Some TxTransfer" by code_simp
  have n: "special_view (mem_content list_btree (db demo_db)) k = None" for k
    by (simp add: NewDB_def special_view_def)
  have "4 \<le> length ([6, 0, 0, 0, 1] :: bytes)" "length (Shards ?tx) > 1" by (simp_all add: tx)
  from relay_and_lock [OF memdb.database_axioms demo_cross_simps(1) demo_sharded(1) demo_inv c this(1) t demo_cross_simps(6) this(2) n n refl]
  show ?thesis
    by (force simp: tx lock_set_def initBalance_def less_char_def less_eq_char_def)
qed



end
