(* ===== verification/Bank_Cross.thy ===== *)
theory Bank_Cross
  imports Bank_Lock
begin

text \<open>
  The second phase of a cross-shard transfer, \<open>unlockTransfer\<close> of \<open>bank.go\<close>: once the data of all
  shards are there, the shard unlocks its accounts and runs the transfer on the balances of all
  shards. The lemmas show that shards with the same data decide alike and that the balances of
  all shards together are conserved.
\<close>

section \<open>The second phase\<close>

text \<open>What a complete set holds: the balances it loads and the shard's keys it unlocks.\<close>

definition loaded_pairs :: "BankData option list \<Rightarrow> (string \<times> uint32) list" where
  "loaded_pairs ds = concat (map (\<lambda>d. case d of None \<Rightarrow> [] | Some bd \<Rightarrow> zip (bd_Keys bd) (bd_Values bd)) ds)"

definition unlocked_keys :: "string \<Rightarrow> string list \<Rightarrow> BankData option list \<Rightarrow> string list" where
  "unlocked_keys chain shards ds =
     concat (map2 (\<lambda>s d. case d of Some bd \<Rightarrow> if s = chain then bd_Keys bd else [] | None \<Rightarrow> []) shards ds)"

definition complete_set :: "string list \<Rightarrow> BankData option list \<Rightarrow> bool" where
  "complete_set shards ds \<longleftrightarrow> length ds \<le> length shards
     \<and> list_all (\<lambda>d. case d of None \<Rightarrow> False | Some bd \<Rightarrow> length (bd_Keys bd) \<le> length (bd_Values bd)) ds"

definition free_set :: "string set \<Rightarrow> (string \<Rightarrow> uint32 \<times> byte) \<Rightarrow> string \<Rightarrow> uint32 \<times> byte" where
  "free_set K a k = (if k \<in> K then (fst (a k), FreeIdentifier) else a k)"

lemma free_set_simps [simp]: "free_set {} a = a" "free_set A (free_set B a) = free_set (A \<union> B) a"
  by (auto simp: free_set_def fun_eq_iff)

lemma load_keys_law:
  "length ks \<le> length vs \<Longrightarrow>
   load_keys ks vs st = Some (st\<lparr>retainData := retainData st ++ map_of (rev (zip ks vs))\<rparr>, Inr ())"
proof (induction ks arbitrary: vs st)
  case (Cons k ks)
  then obtain v vs' where vs: "vs = v # vs'" by (cases vs) auto
  then show ?case using Cons by (simp add: andThen_def LoadData_def map_add_def fun_eq_iff split: option.splits)
qed (simp add: ret_def)

lemma can_transfer_cong:
  assumes "\<And>k. k \<in> set (From tx @ To tx) \<Longrightarrow> v k = v' k"
  shows "can_transfer v tx = can_transfer v' tx"
proof -
  have "list_all (usable v) (From tx @ To tx) = list_all (usable v') (From tx @ To tx)"
    using assms by (simp add: usable_def cong: list.pred_cong)
  moreover have "list_all2 (\<lambda>k m. m \<le> balance_of v k) (From tx) (FromMoney tx) = list_all2 (\<lambda>k m. m \<le> balance_of v' k) (From tx) (FromMoney tx)"
    using assms by (intro list.rel_cong refl) (simp add: balance_of_def)
  ultimately show ?thesis by (simp add: can_transfer_def)
qed

lemma transfer_writes_cong:
  assumes "\<And>k. k \<in> set (From tx @ To tx) \<Longrightarrow> v k = v' k"
  shows "transfer_writes v tx = transfer_writes v' tx"
  unfolding transfer_writes_def
  by (intro arg_cong2 [where f = append] map_cong refl) (auto simp: assms balance_of_def dest!: set_zip_leftD)

text \<open>
  A shard is ready to finish a transaction on the balances \<open>G\<close>: the set is complete, the keys it
  unlocks are stored, the shard's accounts have the balances of \<open>G\<close> and are free once the set's
  keys are unlocked, and the set has the balances of the other accounts.
\<close>

definition ready :: "('s \<Rightarrow> bool) \<Rightarrow> ('s \<Rightarrow> bytes \<rightharpoonup> bytes) \<Rightarrow> (string \<Rightarrow> uint32) \<Rightarrow> TransferTx \<Rightarrow>
    's Application \<Rightarrow> RangeList \<Rightarrow> RelayTransferTxSet \<Rightarrow> 's AppDB \<Rightarrow> bool" where
  "ready ok content G tx app rl rs st \<longleftrightarrow> own_ranges app = Some rl \<and> chain_id app \<in> set (Shards tx) \<and> bank_inv ok content rl st
     \<and> 4 \<le> length (rs_RawTx rs) \<and> dec_Transfer (app_codec app) (drop 4 (rs_RawTx rs)) = Some tx
     \<and> complete_set (rs_Shards rs) (rs_Datas rs)
     \<and> set (unlocked_keys (chain_id app) (rs_Shards rs) (rs_Datas rs)) \<subseteq> stored_accounts (data_view (content (db st)))
     \<and> list_all (\<lambda>k. if k \<in> keys_of rl
          then free_set (set (unlocked_keys (chain_id app) (rs_Shards rs) (rs_Datas rs))) (bank_accounts content st) k = (G k, FreeIdentifier)
          else map_of (rev (loaded_pairs (rs_Datas rs))) k = Some (G k)) (From tx @ To tx)"

lemma ready_own: "ready ok content G tx app rl rs st \<Longrightarrow> k \<in> set (From tx @ To tx) \<Longrightarrow> k \<in> keys_of rl \<Longrightarrow>
    free_set (set (unlocked_keys (chain_id app) (rs_Shards rs) (rs_Datas rs))) (bank_accounts content st) k = (G k, FreeIdentifier)"
  unfolding ready_def list_all_iff by metis

lemma ready_foreign: "ready ok content G tx app rl rs st \<Longrightarrow> k \<in> set (From tx @ To tx) \<Longrightarrow> k \<notin> keys_of rl \<Longrightarrow>
    map_of (rev (loaded_pairs (rs_Datas rs))) k = Some (G k)"
  unfolding ready_def list_all_iff by metis

context database
begin

lemma unlock_keys_law:
  assumes "binv rl st" "set ks \<subseteq> stored st"
  shows "\<exists>st'. unlock_keys D ks st = Some (st', Inr ()) \<and> binv rl st' \<and> same_rest content st st' \<and> stored st' = stored st
     \<and> acc st' = free_set (set ks) (acc st)"
  using assms
proof (induction ks arbitrary: st)
  case (Cons k ks)
  obtain st1 where l: "WUnlock D k st = Some (st1, Inr ())" "binv rl st1" "same_rest content st st1" "stored st1 = stored st"
    "acc st1 = (acc st)(k := (fst (acc st k), FreeIdentifier))"
    using lock_acc [OF Cons.prems(1), of FreeIdentifier k] Cons.prems(2) by (auto simp: WUnlock_def)
  have a: "acc st1 = free_set {k} (acc st)" unfolding l(5) by (auto simp: free_set_def fun_eq_iff)
  obtain st2 where h: "unlock_keys D ks st1 = Some (st2, Inr ())" "binv rl st2" "same_rest content st1 st2"
    "stored st2 = stored st1" "acc st2 = free_set (set ks) (acc st1)"
    using Cons.IH [OF l(2)] Cons.prems(2) l(4) by auto
  have "unlock_keys D (k # ks) st = Some (st2, Inr ())" using l(1) h(1) by (simp add: andThen_def)
  then show ?case using h l(4) same_rest_trans [OF l(3) h(3)] unfolding a by (simp add: Un_commute)
qed (simp add: ret_def)

lemma load_datas_law:
  assumes "app_db_ops app = D" "binv rl st" "complete_set shards ds" "set (unlocked_keys (chain_id app) shards ds) \<subseteq> stored st"
  shows "\<exists>st'. load_datas app shards ds st = Some (st', Inr ()) \<and> binv rl st'
     \<and> special (db st') = special (db st) \<and> state (db st') = state (db st)
     \<and> retainData st' = retainData st ++ map_of (rev (loaded_pairs ds))
     \<and> acc st' = free_set (set (unlocked_keys (chain_id app) shards ds)) (acc st)"
  using assms(2-4)
proof (induction ds arbitrary: shards st)
  case Nil
  then show ?case by (simp add: ret_def loaded_pairs_def unlocked_keys_def)
next
  case (Cons d ds)
  obtain s shards' where sh: "shards = s # shards'" using Cons.prems(2) by (cases shards) (auto simp: complete_set_def)
  obtain bd where d: "d = Some bd" "length (bd_Keys bd) \<le> length (bd_Values bd)"
    using Cons.prems(2) by (cases d) (auto simp: complete_set_def)
  let ?own = "if s = chain_id app then bd_Keys bd else []"
  have uk: "unlocked_keys (chain_id app) shards (d # ds) = ?own @ unlocked_keys (chain_id app) shards' ds"
    by (simp add: unlocked_keys_def sh d)
  obtain st1 where u: "(if s = chain_id app then unlock_keys (app_db_ops app) (bd_Keys bd) else ret ()) st = Some (st1, Inr ())"
    "binv rl st1" "same_rest content st st1" "stored st1 = stored st" "acc st1 = free_set (set ?own) (acc st)"
  proof (cases "s = chain_id app")
    case True
    then show ?thesis using unlock_keys_law [OF Cons.prems(1), of "bd_Keys bd"] Cons.prems(3) that
      unfolding uk assms(1) by auto
  next
    case False
    then show ?thesis using that [of st] Cons.prems(1) by (simp add: ret_def)
  qed
  let ?st1 = "st1\<lparr>retainData := retainData st1 ++ map_of (rev (zip (bd_Keys bd) (bd_Values bd)))\<rparr>"
  have "binv rl ?st1" using u(2) by (simp add: bank_inv_def)
  moreover have "complete_set shards' ds" using Cons.prems(2) by (simp add: complete_set_def sh)
  moreover have "set (unlocked_keys (chain_id app) shards' ds) \<subseteq> stored ?st1" using Cons.prems(3) u(4) unfolding uk by simp
  ultimately obtain st2 where h: "load_datas app shards' ds ?st1 = Some (st2, Inr ())" "binv rl st2"
    "special (db st2) = special (db ?st1)" "state (db st2) = state (db ?st1)"
    "retainData st2 = retainData ?st1 ++ map_of (rev (loaded_pairs ds))"
    "acc st2 = free_set (set (unlocked_keys (chain_id app) shards' ds)) (acc ?st1)"
    using Cons.IH by blast
  have "load_datas app shards (d # ds) st = Some (st2, Inr ())"
    using u(1) h(1) load_keys_law [OF d(2), of st1] by (simp add: sh d andThen_def)
  moreover have "loaded_pairs (d # ds) = zip (bd_Keys bd) (bd_Values bd) @ loaded_pairs ds" by (simp add: loaded_pairs_def d)
  ultimately show ?case using h u(3,5) unfolding uk by (simp add: same_rest_def Un_commute)
qed

lemma finish_transfer_law:
  assumes "app_db_ops app = D" "ready ok content G tx app rl rs st"
  defines "U \<equiv> set (unlocked_keys (chain_id app) (rs_Shards rs) (rs_Datas rs))" and "g \<equiv> \<lambda>k. Some (G k, FreeIdentifier)"
  shows "\<exists>st' r. finish_transfer app rs st = Some (st', r) \<and> binv rl st' \<and> retainData st' = Map.empty
     \<and> (r = Inr () \<longleftrightarrow> can_transfer g tx)
     \<and> acc st' = (if can_transfer g tx then apply_writes (keys_of rl) (free_set U (acc st)) (transfer_writes g tx)
          else free_set U (acc st))"
proof -
  have rdy: "own_ranges app = Some rl" "chain_id app \<in> set (Shards tx)" "binv rl st" "4 \<le> length (rs_RawTx rs)"
    "dec_Transfer (app_codec app) (drop 4 (rs_RawTx rs)) = Some tx" "complete_set (rs_Shards rs) (rs_Datas rs)" "U \<subseteq> stored st"
    using assms(2) unfolding ready_def U_def by simp_all
  obtain st1 where l: "load_datas app (rs_Shards rs) (rs_Datas rs) st = Some (st1, Inr ())" "binv rl st1"
    "retainData st1 = retainData st ++ map_of (rev (loaded_pairs (rs_Datas rs)))" "acc st1 = free_set U (acc st)"
    using load_datas_law [OF assms(1) rdy(3,6)] rdy(7) unfolding U_def by blast
  have v: "view rl st1 k = g k" if "k \<in> set (From tx @ To tx)" for k
    using ready_own [OF assms(2) that] ready_foreign [OF assms(2) that] l(3,4) by (simp add: seen_def g_def U_def)
  have c: "can_transfer (view rl st1) tx = can_transfer g tx" "transfer_writes (view rl st1) tx = transfer_writes g tx"
    by (rule can_transfer_cong [OF v], assumption) (rule transfer_writes_cong [OF v], assumption)
  obtain st2 r where t: "doTransfer app tx st1 = Some (st2, r)" "binv rl st2"
    "if can_transfer g tx then r = Inr () \<and> acc st2 = apply_writes (keys_of rl) (acc st1) (transfer_writes g tx)
     else (\<exists>e. r = Inl e) \<and> acc st2 = acc st1"
    using doTransfer_law [OF assms(1) rdy(1,2) l(2)] unfolding c by blast
  have "finish_transfer app rs st = Some (Clear st2, r)"
    using l(1) t(1) rdy(4,5) by (simp add: finish_transfer_def andThen_def NewTransferTxFromBytes_def ret_def)
  moreover have "binv rl (Clear st2)" "retainData (Clear st2) = Map.empty" "acc (Clear st2) = acc st2"
    using t(2) by (simp_all add: Clear_def bank_inv_def)
  ultimately show ?thesis using t(3) l(4) by (auto split: if_splits)
qed

lemma unlockTransfer_stored:
  assumes "app_db_ops app = D" "binv rl st" "special (db st) (rt_TxHash rtx) = Some bz" "bz \<noteq> []"
    and "dec_Set (app_codec app) bz = Some rs" "insertBankDataToRelayTxSet (rt_Datas rtx) chain rs = Some rs'"
  shows "unlockTransfer app rtx chain st
     = (if isRelayTransferTxSetFinish rs' then finish_transfer app rs' st else Some (st, Inr ()))"
  using assms by (simp add: unlockTransfer_def Let_def andThen_def get_special_law ret_def)

end

section \<open>All shards of a transaction\<close>

text \<open>The writes of a transaction, distributed over shards that own its keys, balance out.\<close>

lemma distributed_sum:
  fixes own :: "'i \<Rightarrow> string set" and f :: "string \<Rightarrow> uint32 \<Rightarrow> uint32"
  assumes "finite I" "\<And>i j. i \<in> I \<Longrightarrow> j \<in> I \<Longrightarrow> i \<noteq> j \<Longrightarrow> own i \<inter> own j = {}" "fst ` set ws \<subseteq> (\<Union>i\<in>I. own i)"
  shows "(\<Sum>i\<in>I. sum_list (map (\<lambda>(k, b). if k \<in> own i then f k b else 0) ws)) = sum_list (map (\<lambda>(k, b). f k b) ws)"
  using assms(3)
proof (induction ws)
  case (Cons w ws)
  obtain k b where w: "w = (k, b)" by (cases w)
  obtain i where i: "i \<in> I" "k \<in> own i" using Cons.prems by (auto simp: w)
  have "(\<Sum>j\<in>I. if k \<in> own j then f k b else 0) = (\<Sum>j\<in>I. if j = i then f k b else 0)"
    using i assms(2) by (intro sum.cong refl) (auto simp: disjoint_iff)
  also have "\<dots> = f k b" using i(1) assms(1) by simp
  finally show ?case using Cons by (simp add: w sum.distrib)
qed simp

lemma free_set_balance [simp]: "fst (free_set U a k) = fst (a k)"
  by (simp add: free_set_def)

context database
begin

lemma cross_shard_sum:
  fixes I :: "'i set"
  assumes "\<And>i. i \<in> I \<Longrightarrow> app_db_ops (apps i) = D \<and> ready ok content G tx (apps i) (rls i) (rs i) (st i)"
    and "finite I" "\<And>i j. i \<in> I \<Longrightarrow> j \<in> I \<Longrightarrow> i \<noteq> j \<Longrightarrow> keys_of (rls i) \<inter> keys_of (rls j) = {}"
    and "distinct (From tx @ To tx)" "set (From tx @ To tx) \<subseteq> (\<Union>i\<in>I. keys_of (rls i))"
    and "finite K" "set (From tx @ To tx) \<subseteq> K"
    and "\<And>i. i \<in> I \<Longrightarrow> finish_transfer (apps i) (rs i) (st i) = Some (st' i, r i)"
  shows "(\<Sum>i\<in>I. \<Sum>k\<in>K \<inter> keys_of (rls i). fst (acc (st' i) k)) = (\<Sum>i\<in>I. \<Sum>k\<in>K \<inter> keys_of (rls i). fst (acc (st i) k))"
proof -
  let ?g = "\<lambda>k. Some (G k, FreeIdentifier)"
  let ?ws = "transfer_writes ?g tx"
  let ?U = "\<lambda>i. set (unlocked_keys (chain_id (apps i)) (rs_Shards (rs i)) (rs_Datas (rs i)))"
  have res: "acc (st' i) = (if can_transfer ?g tx then apply_writes (keys_of (rls i)) (free_set (?U i) (acc (st i))) ?ws
      else free_set (?U i) (acc (st i)))" if "i \<in> I" for i
    using finish_transfer_law [OF conjunct1 [OF assms(1) [OF that]] conjunct2 [OF assms(1) [OF that]]]
    unfolding assms(8) [OF that] by auto
  show ?thesis
  proof (cases "can_transfer ?g tx")
    case False
    then show ?thesis by (intro sum.cong refl) (simp add: res)
  next
    case True
    have val: "ValidateTransferTx tx = Inr ()" using True by (simp add: can_transfer_def)
    have ks: "map fst ?ws = From tx @ To tx" by (rule transfer_writes_keys [OF val])
    have set: "fst ` set ?ws = set (From tx @ To tx)" using arg_cong [OF ks, of set] by simp
    have "(\<Sum>k\<in>K \<inter> keys_of (rls i). fst (acc (st' i) k)) = (\<Sum>k\<in>K \<inter> keys_of (rls i). fst (acc (st i) k))
        + sum_list (map (\<lambda>(k, b). if k \<in> keys_of (rls i) then b - G k else 0) ?ws)" if i: "i \<in> I" for i
    proof -
      let ?a = "free_set (?U i) (acc (st i))"
      have bal: "fst (acc (st i) k) = G k" if "k \<in> keys_of (rls i)" "k \<in> set (From tx @ To tx)" for k
        using arg_cong [OF ready_own [OF conjunct2 [OF assms(1) [OF i]] that(2,1)], of fst] by simp
      have m: "map (\<lambda>(k, b). if k \<in> keys_of (rls i) then b - fst (?a k) else 0) ?ws
          = map (\<lambda>(k, b). if k \<in> keys_of (rls i) then b - G k else 0) ?ws"
        using bal set by (intro map_cong refl) (force split: prod.split)
      have "keys_of (rls i) \<inter> fst ` set ?ws \<subseteq> K \<inter> keys_of (rls i)" using assms(7) set by blast
      then have "(\<Sum>k\<in>K \<inter> keys_of (rls i). fst (apply_writes (keys_of (rls i)) ?a ?ws k)) = (\<Sum>k\<in>K \<inter> keys_of (rls i). fst (?a k))
          + sum_list (map (\<lambda>(k, b). if k \<in> keys_of (rls i) then b - fst (?a k) else 0) ?ws)"
        using assms(4,6) ks by (intro apply_writes_sum) simp_all
      then show ?thesis unfolding m using res [OF i] True by simp
    qed
    then have "(\<Sum>i\<in>I. \<Sum>k\<in>K \<inter> keys_of (rls i). fst (acc (st' i) k)) = (\<Sum>i\<in>I. \<Sum>k\<in>K \<inter> keys_of (rls i). fst (acc (st i) k))
        + (\<Sum>i\<in>I. sum_list (map (\<lambda>(k, b). if k \<in> keys_of (rls i) then b - G k else 0) ?ws))"
      by (simp add: sum.distrib)
    also have "(\<Sum>i\<in>I. sum_list (map (\<lambda>(k, b). if k \<in> keys_of (rls i) then b - G k else 0) ?ws)) = sum_list (map (\<lambda>(k, b). b - G k) ?ws)"
      using assms(5) set by (intro distributed_sum [OF assms(2,3)]) auto
    also have "\<dots> = 0" using transfer_writes_balanced [OF val, of ?g] by (simp add: balance_of_def)
    finally show ?thesis by simp
  qed
qed

end

section \<open>A set that is read back\<close>

text \<open>
  The wire format has no nil in a repeated message field: a nil element is written as an empty
  message and is read back as one. This is what the code meets when it reads a set again.
\<close>

definition read_back :: "BankData option \<Rightarrow> BankData option" where
  "read_back d = (case d of None \<Rightarrow> Some \<lparr>bd_Keys = [], bd_Values = []\<rparr> | Some bd \<Rightarrow> Some bd)"

definition wire_set :: "bank_codec \<Rightarrow> RelayTransferTxSet \<Rightarrow> bool" where
  "wire_set c rs \<longleftrightarrow> dec_Set c (enc_Set c rs) = Some (rs\<lparr>rs_Datas := map read_back (rs_Datas rs)\<rparr>)"

text \<open>The set that \<open>lockTransfer\<close> stores when no relay has arrived.\<close>

definition locked_set :: "TransferTx \<Rightarrow> bytes \<Rightarrow> RelayTransferTxSet" where
  "locked_set tx raw = \<lparr>rs_Shards = Shards tx, rs_Datas = replicate (length (Shards tx)) None, rs_RawTx = raw\<rparr>"

lemma insert_loop_map2:
  "length shards = length ds \<Longrightarrow>
   insert_loop bd chain (length pre) shards (pre @ ds) = Some (pre @ map2 (\<lambda>s d. if s = chain then bd else d) shards ds)"
proof (induction shards ds arbitrary: pre rule: list_induct2)
  case (Cons s shards d ds)
  show ?case using Cons.IH [of "pre @ [if s = chain then bd else d]"] by (cases "s = chain") simp_all
qed simp

definition only_from :: "BankData \<Rightarrow> string \<Rightarrow> string list \<Rightarrow> BankData option list" where
  "only_from bd chain shards = map (\<lambda>s. Some (if s = chain then bd else \<lparr>bd_Keys = [], bd_Values = []\<rparr>)) shards"

lemma only_from_map2:
  "map2 (\<lambda>s d. if s = chain then Some bd else d) shards (replicate (length shards) (Some \<lparr>bd_Keys = [], bd_Values = []\<rparr>)) = only_from bd chain shards"
  unfolding only_from_def by (induction shards) auto

lemma insert_first:
  assumes "wire_set c (locked_set tx raw)"
  shows "\<exists>rs. dec_Set c (enc_Set c (locked_set tx raw)) = Some rs
     \<and> insertBankDataToRelayTxSet (Some bd) chain rs = Some \<lparr>rs_Shards = Shards tx, rs_Datas = only_from bd chain (Shards tx), rs_RawTx = raw\<rparr>"
proof -
  let ?e = "Some \<lparr>bd_Keys = [], bd_Values = []\<rparr>"
  have "map2 (\<lambda>s d. if s = chain then Some bd else d) (Shards tx) (replicate (length (Shards tx)) ?e) = only_from bd chain (Shards tx)"
    by (rule only_from_map2)
  then have "insert_loop (Some bd) chain 0 (Shards tx) (replicate (length (Shards tx)) ?e) = Some (only_from bd chain (Shards tx))"
    using insert_loop_map2 [of "Shards tx" "replicate (length (Shards tx)) ?e" "Some bd" chain "[]"] by simp
  then show ?thesis using assms by (simp add: wire_set_def locked_set_def read_back_def insertBankDataToRelayTxSet_def)
qed

lemma unlocked_only_from:
  "unlocked_keys chain shards (only_from bd chain shards) = concat (map (\<lambda>s. if s = chain then bd_Keys bd else []) shards)"
  by (induction shards) (simp_all add: unlocked_keys_def only_from_def)

lemma only_from_props:
  "isRelayTransferTxSetFinish \<lparr>rs_Shards = shards, rs_Datas = only_from bd chain shards, rs_RawTx = raw\<rparr>"
  "length (bd_Keys bd) \<le> length (bd_Values bd) \<Longrightarrow> complete_set shards (only_from bd chain shards)"
  "k \<notin> set (bd_Keys bd) \<Longrightarrow> map_of (rev (loaded_pairs (only_from bd chain shards))) k = None"
  "chain \<in> set shards \<Longrightarrow> set (unlocked_keys chain shards (only_from bd chain shards)) = set (bd_Keys bd)"
proof -
  show "isRelayTransferTxSetFinish \<lparr>rs_Shards = shards, rs_Datas = only_from bd chain shards, rs_RawTx = raw\<rparr>"
    by (auto simp: isRelayTransferTxSetFinish_def only_from_def)
  show "length (bd_Keys bd) \<le> length (bd_Values bd) \<Longrightarrow> complete_set shards (only_from bd chain shards)"
    by (auto simp: complete_set_def only_from_def list_all_iff)
  show "k \<notin> set (bd_Keys bd) \<Longrightarrow> map_of (rev (loaded_pairs (only_from bd chain shards))) k = None"
    by (auto simp: map_of_eq_None_iff loaded_pairs_def only_from_def split: if_splits dest: set_zip_leftD)
  show "chain \<in> set shards \<Longrightarrow> set (unlocked_keys chain shards (only_from bd chain shards)) = set (bd_Keys bd)"
    unfolding unlocked_only_from by auto
qed

context database
begin

lemma early_unlock_law:
  assumes "app_db_ops app = D" "own_ranges app = Some rl" "binv rl st" "retainData st = Map.empty"
    and "wire_set (app_codec app) (locked_set tx raw)" "dec_Relay (app_codec app) opt = Some \<lparr>rt_Datas = Some bd, rt_TxHash = hash\<rparr>"
    and "special (db st) hash = Some (enc_Set (app_codec app) (locked_set tx raw))"
    and "special (db st) hash \<noteq> Some []" "4 \<le> length raw" "dec_Transfer (app_codec app) (drop 4 raw) = Some tx"
    and "chain_id app \<in> set (Shards tx)" "length (bd_Keys bd) \<le> length (bd_Values bd)" "set (bd_Keys bd) \<subseteq> stored st"
    and "k \<in> set (From tx @ To tx)" "k \<notin> keys_of rl" "k \<notin> set (bd_Keys bd)"
  shows "\<exists>st' e. executeRelay app opt (chain_id app) st = Some (st', Inl e) \<and> binv rl st'
     \<and> acc st' = free_set (set (bd_Keys bd)) (acc st)"
proof -
  let ?c = "app_codec app" and ?ds = "only_from bd (chain_id app) (Shards tx)"
  let ?rs = "\<lparr>rs_Shards = Shards tx, rs_Datas = ?ds, rs_RawTx = raw\<rparr>"
  obtain rs where rs: "dec_Set ?c (enc_Set ?c (locked_set tx raw)) = Some rs"
    "insertBankDataToRelayTxSet (Some bd) (chain_id app) rs = Some ?rs"
    using insert_first [OF assms(5)] by blast
  have x: "executeRelay app opt (chain_id app) st = finish_transfer app ?rs st"
    using unlockTransfer_stored [OF assms(1,3), of "\<lparr>rt_Datas = Some bd, rt_TxHash = hash\<rparr>"] assms(6-8) rs only_from_props(1)
    by (simp add: executeRelay_def andThen_def NewRelayTransferTxFromBytes_def ret_def)
  have uk: "set (unlocked_keys (chain_id app) (Shards tx) ?ds) = set (bd_Keys bd)" by (rule only_from_props(4) [OF assms(11)])
  obtain st1 where l: "load_datas app (Shards tx) ?ds st = Some (st1, Inr ())" "binv rl st1"
    "retainData st1 = map_of (rev (loaded_pairs ?ds))" "acc st1 = free_set (set (bd_Keys bd)) (acc st)"
    using load_datas_law [OF assms(1,3) only_from_props(2) [OF assms(12), of "Shards tx" "chain_id app"]] assms(4,13) unfolding uk by auto
  have "\<not> usable (view rl st1) k"
    using assms(15) only_from_props(3) [OF assms(16)] l(3) by (simp add: usable_def seen_def)
  then have "\<not> can_transfer (view rl st1) tx" using assms(14) by (auto simp: can_transfer_def list_all_iff)
  then obtain st2 e where t: "doTransfer app tx st1 = Some (st2, Inl e)" "binv rl st2" "acc st2 = acc st1"
    using doTransfer_law [OF assms(1,2,11) l(2)] by auto
  have "finish_transfer app ?rs st = Some (Clear st2, Inl e)"
    using l(1) t(1) assms(9,10) by (simp add: finish_transfer_def andThen_def NewTransferTxFromBytes_def ret_def)
  then show ?thesis using x t(2,3) l(4) by (auto simp: Clear_def bank_inv_def)
qed

end

section \<open>Properties\<close>


text \<open>The instance: each shard has the locked account of the transaction, and the complete set.\<close>

definition demo_locked :: "string \<Rightarrow> item list AppDB" where
  "demo_locked k = NewDB (MemDB_set list_btree [] (toDataKey (bytes_of_string k)) (Some (MarshalValue 1000000 WLockedIdentifier)))"

definition demo_set :: RelayTransferTxSet where
  "demo_set = \<lparr>rs_Shards = [''s1'', ''s2''], rs_Datas = [Some \<lparr>bd_Keys = [''a''], bd_Values = [1000000]\<rparr>,
     Some \<lparr>bd_Keys = [''d''], bd_Values = [1000000]\<rparr>], rs_RawTx = [6, 0, 0, 0, 1]\<rparr>"

lemma demo_locked_content: "mem_content list_btree (db (demo_locked k))
    = [toDataKey (bytes_of_string k) \<mapsto> MarshalValue 1000000 WLockedIdentifier]"
  using mem_set(2) [OF list_new_ok] by (simp add: demo_locked_def NewDB_def)

lemma demo_locked_data: "data_view (mem_content list_btree (db (demo_locked k)))
    = [bytes_of_string k \<mapsto> MarshalValue 1000000 WLockedIdentifier]"
  unfolding demo_locked_content by (simp add: view_upd(1) data_view_def fun_eq_iff)

lemma demo_locked_inv: "wf_ranges rl \<Longrightarrow> bank_inv (mem_ok list_btree) (mem_content list_btree) rl (demo_locked k)"
  using mem_set(1) [OF list_new_ok]
  by (simp add: bank_inv_def demo_locked_data good_accounts_def) (simp add: demo_locked_def NewDB_def)

lemma demo_locked_accounts: "accounts (data_view (mem_content list_btree (db (demo_locked k)))) k = (1000000, WLockedIdentifier)"
  "stored_accounts (data_view (mem_content list_btree (db (demo_locked k)))) = {k}"
  unfolding demo_locked_data by (simp_all add: accounts_def stored_accounts_def bytes_of_string_eq_iff)

lemma demo_ready:
  defines "tx \<equiv> demo_tx [''a''] [5] [''d''] [5] [''s1'', ''s2'']"
  shows "ready (mem_ok list_btree) (mem_content list_btree) (\<lambda>_. 1000000) tx (demo_cross ''s1'') demo_ranges demo_set (demo_locked ''a'')"
    "ready (mem_ok list_btree) (mem_content list_btree) (\<lambda>_. 1000000) tx (demo_cross ''s2'') demo_ranges2 demo_set (demo_locked ''d'')"
  by (simp_all add: ready_def own_ranges_def demo_locked_inv tx_def demo_tx_def NewTransferTx_def demo_set_def complete_set_def
      unlocked_keys_def demo_locked_accounts loaded_pairs_def free_set_def less_char_def less_eq_char_def)


text \<open>
  C35: the locks are released early. The set that \<open>lockTransfer\<close> stores has no data yet; read back
  it counts as complete, so the first relay, the one of the shard itself, already unlocks the
  accounts and starts the transfer, which fails because another shard's balance is missing.
\<close>

theorem early_unlock:
  assumes "database D ok content" and "app_db_ops app = D" and "own_ranges app = Some rl" and "bank_inv ok content rl st"
    and "retainData st = Map.empty" and "wire_set (app_codec app) (locked_set tx raw)"
    and "dec_Relay (app_codec app) opt = Some \<lparr>rt_Datas = Some bd, rt_TxHash = hash\<rparr>"
    and "special_view (content (db st)) hash
      = Some (enc_Set (app_codec app) (locked_set tx raw))"
    and "special_view (content (db st)) hash \<noteq> Some []" and "4 \<le> length raw" and "dec_Transfer (app_codec app) (drop 4 raw) = Some tx"
    and "chain_id app \<in> set (Shards tx)" and "length (bd_Keys bd) \<le> length (bd_Values bd)"
    and "set (bd_Keys bd) \<subseteq> stored_accounts (data_view (content (db st)))"
    and "k \<in> set (From tx @ To tx)" and "k \<notin> keys_of rl" and "k \<notin> set (bd_Keys bd)"
  shows "\<exists>st' e. executeRelay app opt (chain_id app) st = Some (st', Inl e) \<and> bank_inv ok content rl st'
     \<and> bank_accounts content st' = free_set (set (bd_Keys bd)) (bank_accounts content st)"
  using assms by (rule database.early_unlock_law)

theorem early_unlock_witness:
  "\<exists>app opt st st' e. bank_accounts (mem_content list_btree) st ''a'' = (1000000, WLockedIdentifier)
     \<and> executeRelay app opt ''s1'' st = Some (st', Inl e) \<and> bank_accounts (mem_content list_btree) st' ''a'' = (1000000, FreeIdentifier)"
proof -
  let ?bd = "\<lparr>bd_Keys = [''a''], bd_Values = [1000000]\<rparr>" and ?e = "Some \<lparr>bd_Keys = [], bd_Values = []\<rparr>"
  let ?tx = "demo_tx [''a''] [5] [''d''] [5] [''s1'', ''s2'']" and ?raw = "[6, 0, 0, 0, 1]"
  define app where "app = (demo_cross ''s1'')\<lparr>app_codec := (app_codec (demo_cross ''s1''))\<lparr>
    dec_Relay := (\<lambda>_. Some \<lparr>rt_Datas = Some ?bd, rt_TxHash = [1]\<rparr>), enc_Set := rs_RawTx,
    dec_Set := (\<lambda>bz. Some \<lparr>rs_Shards = [''s1'', ''s2''], rs_Datas = [?e, ?e], rs_RawTx = bz\<rparr>)\<rparr>\<rparr>"
  define st where "st = NewDB (MemDB_set list_btree (db (demo_locked ''a'')) (toSpecialKey [1]) (Some ?raw))"
  have tx: "From ?tx = [''a'']" "To ?tx = [''d'']" "Shards ?tx = [''s1'', ''s2'']" by (simp_all add: demo_tx_def NewTransferTx_def)
  have ok: "mem_ok list_btree (db (demo_locked ''a''))" using demo_locked_inv [of demo_ranges] by (simp add: bank_inv_def)
  have c: "mem_content list_btree (db st) = (mem_content list_btree (db (demo_locked ''a'')))(toSpecialKey [1] \<mapsto> ?raw)"
    using mem_set(2) [OF ok] by (simp add: st_def NewDB_def)
  have d: "data_view (mem_content list_btree (db st)) = data_view (mem_content list_btree (db (demo_locked ''a'')))"
    unfolding c by simp
  have inv: "bank_inv (mem_ok list_btree) (mem_content list_btree) demo_ranges st"
    using mem_set(1) [OF ok] demo_locked_inv [of demo_ranges "''a''"] unfolding bank_inv_def d by (simp add: st_def NewDB_def)
  have rt: "retainData st = Map.empty" by (simp add: st_def NewDB_def)
  have sp: "special_view (mem_content list_btree (db st)) [1] = Some ?raw" unfolding c by simp
  have a: "app_db_ops app = MemDB list_btree" "own_ranges app = Some demo_ranges" "chain_id app = ''s1''"
    "dec_Relay (app_codec app) [] = Some \<lparr>rt_Datas = Some ?bd, rt_TxHash = [1]\<rparr>" "enc_Set (app_codec app) = rs_RawTx"
    "dec_Transfer (app_codec app) (drop 4 ?raw) = Some ?tx" "wire_set (app_codec app) (locked_set ?tx ?raw)"
    by (simp_all add: app_def own_ranges_def wire_set_def locked_set_def tx read_back_def)
  have "\<exists>st' e. executeRelay app [] (chain_id app) st = Some (st', Inl e) \<and> bank_inv (mem_ok list_btree) (mem_content list_btree) demo_ranges st'
     \<and> bank_accounts (mem_content list_btree) st' = free_set (set (bd_Keys ?bd)) (bank_accounts (mem_content list_btree) st)"
    by (rule early_unlock [OF memdb.database_axioms a(1,2) inv _ a(7,4), where k = "''d''"])
      (use sp a rt in \<open>simp_all add: locked_set_def tx d demo_locked_accounts less_char_def less_eq_char_def\<close>)
  then obtain st' e where "executeRelay app [] ''s1'' st = Some (st', Inl e)"
    "bank_accounts (mem_content list_btree) st' = free_set {''a''} (bank_accounts (mem_content list_btree) st)"
    unfolding a(3) by auto
  then show ?thesis using demo_locked_accounts(1) [of "''a''"] unfolding d [symmetric]
    by (intro exI [of _ app] exI [of _ "[]"] exI [of _ st] exI [of _ st'] exI [of _ e]) (simp add: free_set_def)
qed

end
