(* ===== verification/Spec2Isabelle.thy ===== *)
theory Spec2Isabelle
  imports Convert Bit_Vector Merkle Merkle_Proof Range_Tree Hot_Stuff Urd_Consensus Pyramid_Height Mempool Mem_DB Bank_Cross
begin

text \<open>
  A verification library for the sharded-blockchain emulator under \<open>src/source\<close>. The program has two
  protocols over a common base. In \<open>urd\<close> every shard runs a HotStuff-style consensus, and a
  cross-shard transfer is locked in one block and finished in a later one, once the certified
  balances of the other shards have come in. \<open>pyramid\<close> votes in two rounds (prevote, precommit) on
  a block that travels in parts. Both execute transfers of a bank whose accounts are spread over
  the shards by key ranges.

  \<^bold>\<open>The base.\<close>
  \<^item> \<open>Urd_Prelude\<close>: bytes, slices that may be nil, strings, checked indexing, loops that may panic.
  \<^item> \<open>Convert\<close>: \<open>utils/convert.go\<close>, \<open>utils/compare-bytes.go\<close> and \<open>utils/flag.go\<close>. Decoding inverts
    encoding at every width; \<open>SplitByteArray\<close> loses and reorders nothing and returns exactly for a
    positive part size.
  \<^item> \<open>Bit_Vector\<close>: \<open>utils/bit-vector.go\<close>. The bytes represent a set of indices, with nil receivers
    and index panics; the locale \<open>index_set\<close> is what the vote counters use of it.
  \<^item> \<open>Merkle\<close>, \<open>Merkle_Proof\<close>: \<open>crypto/merkle\<close>. The iterative hash equals the recursive one; proofs
    are built on a heap of mutable nodes; every built proof verifies, and without hash collisions
    a verifying proof is about an item of the tree. The locale \<open>vector_commitment\<close> is the contract.
  \<^item> \<open>Bls_Signer\<close>: \<open>utils/signer/bls.go\<close> over a record of the curve operations.
  \<^item> \<open>Range_List\<close>, \<open>Range_Tree\<close>: the two implementations of \<open>RangeStore\<close> in \<open>utils/RangeList.go\<close> and
    \<open>utils/RangeTree.go\<close>. Both interpret the locale \<open>range_store\<close> (adding, deleting and searching
    are union, difference and membership), so they answer alike.
  \<^item> \<open>Key_Store\<close>, \<open>Mem_DB\<close>: \<open>utils/store/store.go\<close> over the interface \<open>DB\<close> of \<open>libs/db/types.go\<close>
    (locale \<open>database\<close>), and \<open>libs/db/memdb*.go\<close>, which implements it, with batches and iterators.
  \<^item> \<open>Concurrent_List\<close>, \<open>Mempool\<close>: \<open>libs/clist/clist.go\<close> on a heap of linked elements, and the
    mempools of both protocols on top of it through the locale \<open>tx_queue\<close>.

  \<^bold>\<open>The urd protocol.\<close>
  \<^item> \<open>Hot_Stuff\<close>: \<open>core/hotstuff\<close>. \<open>hs_step\<close> is the relation of its operations; in every reachable
    state the counters are the weights of the stored votes, the outcomes exclude each other, and
    unanimous votes give a verifying certificate.
  \<^item> \<open>Block_Data\<close>, \<open>Block_Proofs\<close>: \<open>urd/types\<close>, the data of blocks and cross-shard messages, and what
    hashes and proofs guarantee: authentic messages, validating honest messages, decoding.
  \<^item> \<open>Part_Set\<close>, \<open>Block_Pool\<close>: \<open>urd/types/block-part.go\<close>, \<open>urd/consensus/constypes/proposal.go\<close> and
    \<open>urd/consensus/block_datas.go\<close>. A block arrives whatever the order of its parts; the slots of a
    part set are the locale \<open>part_collector\<close>.
  \<^item> \<open>Urd_Consensus\<close>: \<open>urd/consensus/state.go\<close> and \<open>state_transition.go\<close>, the whole state machine.
    Only checked blocks are voted for, executed and stored; the loop of transitions returns exactly
    in the states that its lemma describes; blocks made by a leader carry verifying certificates.
  \<^item> \<open>Mini_Bank\<close>, \<open>Bank_App\<close>, \<open>Bank_Transfer\<close>, \<open>Bank_Lock\<close>, \<open>Bank_Cross\<close>: \<open>urd/abci/minibank\<close>. The
    account database is a total map; \<open>doTransfer\<close> refines a transfer on that map; money is
    conserved; the locking phase only locks; the second phase decides alike in all shards and
    conserves the total, and what happens when a lock is released too early.

  \<^bold>\<open>The pyramid protocol.\<close>
  \<^item> \<open>Pyramid_Block\<close>: \<open>pyramid/types\<close>. Blocks, receipts and parts (a second \<open>part_collector\<close>); the
    rebuilt block is the sender's; which fields a block hash binds and which it loses.
  \<^item> \<open>Pyramid_Votes\<close>: \<open>pyramid/consensus/constypes/vote.go\<close> and \<open>vote_set.go\<close>. A vote set reports
    exactly the verdict with more than two thirds of the weight; different verdicts expose more
    than a third of the weight as double voters; certificates of a majority verify.
  \<^item> \<open>Shard_Info\<close>: \<open>utils/p2p/peer.go\<close>, \<open>utils/p2p/message.go\<close>, \<open>urd/shardinfo\<close>, \<open>pyramid/shardinfo\<close>.
    The hash of a shard table does not depend on the order of a Go map.
  \<^item> \<open>Pyramid_Height\<close>: \<open>pyramid/consensus/height_datas.go\<close> and \<open>round-step.go\<close>. \<open>hd_reach\<close> is the
    inductive set of the states of a replica; steps are passed only with their evidence, a
    precommit majority gives a verifying certificate, and the proposed block arrives.

  \<^bold>\<open>Correspondence.\<close> A Go struct is a record and keeps its field names (with a prefix where two
  structs share one), a method is a definition with its name, and a method that changes its
  receiver returns the new one. Definitions of the pyramid protocol whose Go name is taken by the
  urd protocol start with \<open>py_\<close>, the messages of the protobuf schema with \<open>pb_\<close>. A Go map is an
  association list; where a result could depend on its iteration order, a lemma shows that it does
  not or the list order stands for the order chosen. Pointers are values unless the code shares
  them: proof nodes and list elements are on explicit heaps.

  \<^bold>\<open>Results.\<close> An error is \<open>Inl\<close> of an error datatype of the component or an optional error beside the new
  state. A panic and a loop that does not return are \<open>None\<close>; a nil pointer or slice is \<open>None\<close> of an
  option type of its own. \<open>/\<close> and \<open>%\<close> on signed integers truncate (\<open>sdiv\<close>, \<open>smod\<close>). Lengths,
  indices, heights and the votes of \<open>urd\<close> are unbounded integers; balances and protobuf fields are
  words, and the \<open>int32\<close> weights of \<open>pyramid\<close> wrap (\<open>wrap32\<close>).

  \<^bold>\<open>Loops.\<close> There is no fuel. Loops over lists are structural recursion; the Merkle recursions and
  the range tree have termination proofs; \<open>split_loop\<close>, \<open>find_loop\<close>, \<open>flatten_loop\<close>, the walks over
  the linked list and \<open>handle_state_transition\<close> are partial functions, and their lemmas show that
  they return, and for the last one exactly when.

  \<^bold>\<open>Arguments.\<close> SHA-256, the curve library, the protobuf and time encoders, the B-tree and the clock
  are arguments of the definitions that use them. What is assumed of them is written in the
  theorems: 32-byte digests and no collision among the strings that are hashed, homomorphic
  aggregation (\<open>bls_homomorphic\<close>), decoding of the encoded message at hand, \<open>lawful_btree\<close>. Each
  of these theorems has a concrete instance.

  \<^bold>\<open>Not modelled.\<close> Sockets, goroutines, timers, log output, configuration and start-up; the disk
  databases; the bank of the pyramid protocol (its consensus and mempool see it through an
  interface, which is an argument) and the driver \<open>pyramid/consensus/main.go\<close> apart from the step
  by which a proposer stores its own block. Operations that the code runs under a lock are
  atomic steps.
\<close>

end
